(* ===== verification/Prelude.thy ===== *)
theory Prelude
  imports Main "HOL-Library.Word" "HOL-Library.Monad_Syntax"
begin

unbundle bit_operations_syntax

text \<open>
  Vocabulary shared by every component of the game server.
  \<^item> Fixed-width integers of the C sources are words of the same width.
  \<^item> A C array or buffer of bytes is a \<open>byte list\<close>; a \<open>memcpy\<close> from or to it goes through
    \<open>mem_read\<close> and \<open>mem_write\<close>, whose result is \<open>None\<close> when the access would leave the
    object, so that a memory error of the source is a value of the model.
  \<^item> The lemmas that carry the component proofs are collected under \<open>mem_simps\<close> (reads and
    writes of buffers) and \<open>word_nat\<close> (words read as natural numbers).
\<close>

section \<open>Types\<close>

type_synonym byte = "8 word"
type_synonym u16 = "16 word"
type_synonym u32 = "32 word"
type_synonym u64 = "64 word"

named_theorems mem_simps \<open>reads and writes of byte buffers\<close>
named_theorems word_nat \<open>words as natural numbers\<close>

section \<open>Buffers\<close>

definition mem_read :: "'a list \<Rightarrow> nat \<Rightarrow> nat \<Rightarrow> 'a list option" where
  "mem_read d off n = (if off + n \<le> length d then Some (take n (drop off d)) else None)"

definition mem_write :: "'a list \<Rightarrow> nat \<Rightarrow> 'a list \<Rightarrow> 'a list option" where
  "mem_write d off src =
     (if off + length src \<le> length d
      then Some (take off d @ src @ drop (off + length src) d) else None)"

lemma mem_read_Some [mem_simps]:
  "off + n \<le> length d \<Longrightarrow> mem_read d off n = Some (take n (drop off d))"
  by (simp add: mem_read_def)

lemma mem_write_Some [mem_simps]:
  "off + length src \<le> length d \<Longrightarrow>
   mem_write d off src = Some (take off d @ src @ drop (off + length src) d)"
  by (simp add: mem_write_def)

lemma mem_write_length: "mem_write d off src = Some d' \<Longrightarrow> length d' = length d"
  by (auto simp: mem_write_def split: if_splits)

lemma mem_write_nth:
  assumes "mem_write d off src = Some d'" and "i < length d"
  shows "d' ! i = (if off \<le> i \<and> i < off + length src then src ! (i - off) else d ! i)"
  using assms by (auto simp: mem_write_def nth_append split: if_splits)

lemma mem_read_nth: "mem_read d off n = Some r \<Longrightarrow> i < n \<Longrightarrow> r ! i = d ! (off + i)"
  by (auto simp: mem_read_def split: if_splits)

lemma mem_read_length: "mem_read d off n = Some r \<Longrightarrow> length r = n"
  by (auto simp: mem_read_def split: if_splits)

lemma mem_write_nil [simp]: "mem_write d 0 [] = Some d"
  by (simp add: mem_write_def)

lemma mem_read_zero [simp]: "off \<le> length d \<Longrightarrow> mem_read d off 0 = Some []"
  by (simp add: mem_read_def)

section \<open>Words as natural numbers\<close>

lemma unat_and_mask [word_nat]: "unat (x AND mask k) = unat x mod 2 ^ k"
  for x :: "'a::len word"
  by (metis take_bit_eq_mask unsigned_take_bit_eq take_bit_eq_mod)

lemma unat_drop_bit [word_nat]: "unat (drop_bit k x) = unat x div 2 ^ k"
  for x :: "'a::len word"
  by (metis drop_bit_eq_div unat_drop_bit_eq)

lemma unat_add_no_wrap [word_nat]:
  "unat x + unat y < 2 ^ LENGTH('a) \<Longrightarrow> unat (x + y) = unat x + unat y"
  for x y :: "'a::len word"
  by (simp add: unat_word_ariths)

lemma unat_mult_no_wrap [word_nat]:
  "unat x * unat y < 2 ^ LENGTH('a) \<Longrightarrow> unat (x * y) = unat x * unat y"
  for x y :: "'a::len word"
  by (simp add: unat_word_ariths)

lemma unat_sub_le [word_nat]: "unat y \<le> unat x \<Longrightarrow> unat (x - y) = unat x - unat y"
  for x y :: "'a::len word"
  by (simp add: unat_sub word_le_nat_alt)

lemma unat_mask_word:
  assumes "k \<le> LENGTH('a)"
  shows "unat (mask k :: 'a::len word) = 2 ^ k - 1"
proof -
  have "unat (mask k :: 'a word) = unat (of_nat (mask k) :: 'a word)"
    by (simp only: of_nat_mask_eq)
  also have "\<dots> = take_bit LENGTH('a) (mask k)"
    by (simp only: unsigned_of_nat of_nat_id)
  also have "\<dots> = mask k"
    using assms by (simp only: take_bit_of_mask min_absorb2)
  finally show ?thesis
    by (simp only: mask_eq_exp_minus_1)
qed

lemma mask_add_of_nat:
  assumes "k < 32"
  shows "unat ((x + of_nat i) AND mask k :: u32) = (unat (x AND mask k) + i) mod 2 ^ k"
proof -
  have d: "(2::nat) ^ k dvd 2 ^ 32"
    using assms by (intro le_imp_power_dvd) simp
  have "unat (x + of_nat i :: u32) = (unat x + i) mod 2 ^ 32"
    by (simp only: unat_word_ariths unat_of_nat mod_add_right_eq len_of_numeral_defs
        word_size mod_add_eq mod_mod_trivial) simp
  then have "unat (x + of_nat i :: u32) mod 2 ^ k = (unat x + i) mod 2 ^ k"
    by (simp only: mod_mod_cancel [OF d])
  then show ?thesis
    by (simp only: unat_and_mask mod_add_left_eq)
qed

lemma mult_block:
  assumes "(a::nat) < c" and "b < e"
  shows "a * e + b < c * e"
proof -
  have "Suc a * e \<le> c * e" using assms(1) by (intro mult_le_mono1) simp
  then show ?thesis using assms(2) by simp
qed

lemma unat_of_nat_u32: "n < 2 ^ 32 \<Longrightarrow> unat (of_nat n :: u32) = n"
  by (simp add: unat_of_nat)

lemma unat_min_word: "unat (min a b) = min (unat a) (unat b)" for a b :: "'a::len word"
  by (simp add: min_def word_le_nat_alt)

lemma unat_bound: "unat x < 2 ^ LENGTH('a)" for x :: "'a::len word"
  by (rule unsigned_less)

lemma unat_ucast: "unat (ucast x :: 'b::len word) = unat x mod 2 ^ LENGTH('b)"
  for x :: "'a::len word"
  by (simp add: unsigned_ucast_eq take_bit_eq_mod)

end
