(* ===== verification/Ring_Buffer.thy ===== *)
theory Ring_Buffer
  imports Prelude
begin

text \<open>
  Block copies into and out of a circular byte array of \<open>S\<close> cells of \<open>e\<close> bytes each.  A copy that
  starts at cell \<open>o1\<close> is split where the array ends: the first part goes to the end of the array,
  the rest to its beginning.  The lemmas describe the effect of the two \<open>memcpy\<close> calls cell by
  cell; they are used by the kfifo component.
\<close>

lemma ring_index:
  assumes "o1 < S" and "(i::nat) < S"
  shows "(o1 + i) mod S = (if o1 + i < S then o1 + i else o1 + i - S)"
  using assms by (simp add: le_mod_geq)

lemma ring_write_nth:
  assumes src: "n * e \<le> length src"
    and l: "l \<le> n * e"
    and w1: "mem_write d (o1 * e) (take l src) = Some d1"
    and w2: "mem_write d1 0 (take (n * e - l) (drop l src)) = Some d2"
    and q: "q < length d"
  shows "d2 ! q = (if q < n * e - l then src ! (l + q)
                   else if o1 * e \<le> q \<and> q < o1 * e + l then src ! (q - o1 * e) else d ! q)"
proof -
  have "length d1 = length d" using w1 by (rule mem_write_length)
  then have "q < length d1" using q by simp
  from mem_write_nth [OF w2 this] mem_write_nth [OF w1 q] src l
  show ?thesis by auto
qed

lemma ring_pick_low:
  fixes q :: nat
  assumes "x = (if q < C - l then s (l + q) else if A \<le> q \<and> q < A + l then s (q - A) else y)"
    and "q = A + B + b" and "A + B + b < D" and "l = min C (D - A)" and "C \<le> D"
    and "t \<Longrightarrow> B + b < C" and "\<not> t \<Longrightarrow> C \<le> B"
  shows "x = (if t then s (B + b) else y)"
  using assms by (cases t) (auto simp: min_def split: if_splits)

lemma ring_pick_high:
  fixes q :: nat
  assumes "x = (if q < C - l then s (l + q) else if A \<le> q \<and> q < A + l then s (q - A) else y)"
    and "q = P + b" and "P + D = A + B" and "P + b < A" and "l = min C (D - A)" and "C \<le> D"
    and "A \<le> D" and "t \<Longrightarrow> B + b < C" and "\<not> t \<Longrightarrow> C \<le> B"
  shows "x = (if t then s (B + b) else y)"
proof (cases t)
  case True
  then have "l = D - A" "q < C - l" "l + q = B + b" using assms by auto
  then show ?thesis using assms(1) True by simp
next
  case False
  then have "\<not> q < C - l" "\<not> A \<le> q" using assms by auto
  then show ?thesis using assms(1) False by simp
qed

lemma ring_write_byte:
  fixes d d1 d2 src :: "'a list"
  assumes o: "o1 < S" and n: "n \<le> S" and S: "S * e \<le> length d" and src: "n * e \<le> length src"
    and l: "l = min (n * e) (S * e - o1 * e)"
    and w1: "mem_write d (o1 * e) (take l src) = Some d1"
    and w2: "mem_write d1 0 (take (n * e - l) (drop l src)) = Some d2"
    and i: "i < S" and b: "b < e" and p: "p = (o1 + i) mod S"
  shows "d2 ! (p * e + b) = (if i < n then src ! (i * e + b) else d ! (p * e + b))"
proof -
  have ps: "p < S" using p i by simp
  have q: "p * e + b < length d" using mult_block [OF ps b] S by linarith
  have ll: "l \<le> n * e" using l by simp
  note nthq = ring_write_nth [OF src ll w1 w2 q]
  have ie: "i < n \<Longrightarrow> i * e + b < n * e" using mult_block [OF _ b] by simp
  have ie': "\<not> i < n \<Longrightarrow> n * e \<le> i * e" by simp
  have nS: "n * e \<le> S * e" and oS: "o1 * e \<le> S * e" using n o by simp_all
  show ?thesis
  proof (cases "o1 + i < S")
    case True
    then have pe: "p * e = o1 * e + i * e" using p by (simp add: add_mult_distrib)
    have "o1 * e + i * e + b < S * e"
      using mult_block [OF True b] by (simp add: add_mult_distrib)
    from ring_pick_low [OF nthq _ this l nS, of "i < n"] ie ie' show ?thesis
      by (simp add: pe)
  next
    case False
    then have pi: "p + S = o1 + i" "p < o1" using p o i by (auto simp: ring_index)
    have pe: "p * e + S * e = o1 * e + i * e"
      using pi(1) by (metis add_mult_distrib)
    have pb: "p * e + b < o1 * e" using mult_block [OF pi(2) b] .
    from ring_pick_high [OF nthq refl pe pb l nS oS, of "i < n"] ie ie' show ?thesis
      by simp
  qed
qed

lemma ring_write_elem:
  fixes d d1 d2 src :: "'a list"
  assumes o: "o1 < S" and n: "n \<le> S" and S: "S * e \<le> length d" and src: "n * e \<le> length src"
    and l: "l = min (n * e) (S * e - o1 * e)"
    and w1: "mem_write d (o1 * e) (take l src) = Some d1"
    and w2: "mem_write d1 0 (take (n * e - l) (drop l src)) = Some d2"
    and i: "i < S"
  shows "take e (drop ((o1 + i) mod S * e) d2) =
         (if i < n then take e (drop (i * e) src) else take e (drop ((o1 + i) mod S * e) d))"
proof -
  define p where "p = (o1 + i) mod S"
  have len2: "length d2 = length d"
    using w1 w2 mem_write_length by metis
  have "Suc p * e \<le> S * e" unfolding p_def using i by (intro mult_le_mono1) (simp add: Suc_leI)
  then have pe: "p * e + e \<le> length d" using S by simp
  have se: "i * e + e \<le> length src" if "i < n"
  proof -
    have "Suc i * e \<le> n * e" using that by (intro mult_le_mono1) simp
    then show ?thesis using src by simp
  qed
  note byte = ring_write_byte [OF o n S src l w1 w2 i _ p_def]
  show ?thesis
    unfolding p_def [symmetric]
    by (rule nth_equalityI) (use pe se len2 byte in auto)
qed

lemma ring_read_cells:
  assumes o: "o1 < S" and S: "S * e \<le> length d"
  shows "n \<le> S \<Longrightarrow>
         take (min (n * e) (S * e - o1 * e)) (drop (o1 * e) d) @
         take (n * e - min (n * e) (S * e - o1 * e)) d =
         concat (map (\<lambda>i. take e (drop ((o1 + i) mod S * e) d)) [0..<n])"
proof (induction n)
  case (Suc n)
  have diff: "S * e - o1 * e = (S - o1) * e" by (simp add: diff_mult_distrib)
  show ?case
  proof (cases "o1 + n < S")
    case True
    then have le: "Suc n * e \<le> (S - o1) * e" "n * e \<le> (S - o1) * e"
      by (intro mult_le_mono1; simp)+
    have "take (Suc n * e) (drop (o1 * e) d) =
        take (n * e) (drop (o1 * e) d) @ take e (drop ((o1 + n) mod S * e) d)"
      using True take_add [of "n * e" e "drop (o1 * e) d"]
      by (simp add: add_mult_distrib add.commute)
    moreover have "concat (map (\<lambda>i. take e (drop ((o1 + i) mod S * e) d)) [0..<n]) =
        take (n * e) (drop (o1 * e) d)"
      using Suc by (simp only: diff min_absorb1 [OF le(2)]) simp
    ultimately show ?thesis
      by (simp only: diff min_absorb1 [OF le(1)]) simp
  next
    case False
    then have le: "(S - o1) * e \<le> n * e" by (intro mult_le_mono1) simp
    have p: "(o1 + n) mod S = o1 + n - S" using False Suc.prems o by (simp add: ring_index)
    have "n * e - (S - o1) * e = (n - (S - o1)) * e" by (simp only: diff_mult_distrib)
    also have "n - (S - o1) = o1 + n - S" using o by simp
    finally have "n * e - (S - o1) * e = (o1 + n) mod S * e" by (simp only: p)
    moreover have "Suc n * e - (S - o1) * e = (n * e - (S - o1) * e) + e" using le by simp
    moreover have "(S - o1) * e \<le> Suc n * e" by (rule le_trans [OF le]) simp
    ultimately show ?thesis
      using Suc.IH Suc.prems le by (simp only: diff min_absorb2 take_add append_assoc [symmetric]) simp
  qed
qed simp

end
