(* ===== verification/Fifo_Spec.thy ===== *)
theory Fifo_Spec
  imports Prelude
begin

text \<open>
  The contract between the byte queue of \<open>src/common/kfifo/\<close> and the code that frames messages
  with it (\<open>src/common/log/bufferlog.cpp\<close>): a bounded queue of bytes with \<open>put\<close>, \<open>peek\<close>, \<open>skip\<close>
  and \<open>get\<close>.  The lemmas of the locale are those a client needs to write a header followed by a
  body and to read them back.
\<close>

locale byte_fifo =
  fixes inv :: "'f \<Rightarrow> bool"
    and bytes :: "'f \<Rightarrow> byte list"
    and room :: "'f \<Rightarrow> nat"
    and put :: "'f \<Rightarrow> byte list \<Rightarrow> u32 \<Rightarrow> (u32 \<times> 'f) option"
    and get :: "'f \<Rightarrow> u32 \<Rightarrow> (u32 \<times> byte list \<times> 'f) option"
    and peek :: "'f \<Rightarrow> u32 \<Rightarrow> (u32 \<times> byte list) option"
    and skip :: "'f \<Rightarrow> u32 \<Rightarrow> 'f"
  assumes put_law: "inv f \<Longrightarrow> unat n \<le> room f \<Longrightarrow> unat n \<le> length buf \<Longrightarrow>
      \<exists>f'. put f buf n = Some (n, f') \<and> inv f' \<and> bytes f' = bytes f @ take (unat n) buf \<and>
        room f' + unat n = room f"
    and get_law: "inv f \<Longrightarrow> unat n \<le> length (bytes f) \<Longrightarrow>
      get f n = Some (n, take (unat n) (bytes f), skip f n)"
    and peek_law: "inv f \<Longrightarrow> unat n \<le> length (bytes f) \<Longrightarrow>
      peek f n = Some (n, take (unat n) (bytes f))"
    and skip_law: "inv f \<Longrightarrow> unat n \<le> length (bytes f) \<Longrightarrow>
      inv (skip f n) \<and> bytes (skip f n) = drop (unat n) (bytes f) \<and>
      room (skip f n) = room f + unat n"
begin

lemma put_frame:
  assumes "inv f" and "unat h = length hdr" and "unat n \<le> length body" and "unat h + unat n \<le> room f"
  shows "\<exists>f1 f2. put f hdr h = Some (h, f1) \<and> put f1 body n = Some (n, f2) \<and> inv f2 \<and>
    bytes f2 = bytes f @ hdr @ take (unat n) body \<and> room f2 + unat h + unat n = room f"
proof -
  obtain f1 where f1: "put f hdr h = Some (h, f1)" "inv f1" "bytes f1 = bytes f @ hdr"
    "room f1 + unat h = room f"
    using put_law [of f h hdr] assms by auto
  moreover obtain f2 where "put f1 body n = Some (n, f2)" "inv f2"
    "bytes f2 = bytes f1 @ take (unat n) body" "room f2 + unat n = room f1"
    using put_law [of f1 n body] assms f1 by auto
  ultimately show ?thesis by (intro exI [of _ f1] exI [of _ f2]) auto
qed

lemma get_frame:
  assumes "inv f" and "unat h = length hdr" and "unat n = length body" and "bytes f = hdr @ body @ rest"
  shows "peek f h = Some (h, hdr)"
    and "get (skip f h) n = Some (n, body, skip (skip f h) n)"
    and "inv (skip (skip f h) n)" and "bytes (skip (skip f h) n) = rest"
    and "room (skip (skip f h) n) = room f + unat h + unat n"
  using assms peek_law [of f h] skip_law [of f h] get_law [of "skip f h" n] skip_law [of "skip f h" n]
  by simp_all

end

end
