(* ===== verification/Kfifo.thy ===== *)
theory Kfifo
  imports Ring_Buffer Fifo_Spec
begin

text \<open>
  The ring buffer of \<open>src/common/kfifo/\<close> (\<open>kfifo.c\<close>, \<open>kfifo.h\<close>), which carries log records
  from the logic thread to the log writer.  The C structure keeps two free-running 32-bit
  counters \<open>in\<close> and \<open>out\<close> which are never reduced modulo the size: the position in the array
  is \<open>counter AND mask\<close> and the number of elements is \<open>in - out\<close> in wrap-around arithmetic.

  The definitions follow the C functions one by one; the array is \<open>k_data\<close>, element \<open>j\<close> of it
  being the \<open>k_esize\<close> bytes at \<open>j * k_esize\<close>.  \<open>kfifo_wf\<close> is the representation invariant and
  \<open>kfifo_contents\<close> the abstraction to the queue of elements.
\<close>

section \<open>The structure and the functions of kfifo.c\<close>

record kfifo =
  k_in :: u32
  k_out :: u32
  k_mask :: u32
  k_esize :: u32
  k_data :: "byte list"

definition roundup_pow_of_two :: "u32 \<Rightarrow> u32" where
  "roundup_pow_of_two v0 =
     (let v = v0 - 1;
          v = v OR drop_bit 1 v;
          v = v OR drop_bit 2 v;
          v = v OR drop_bit 4 v;
          v = v OR drop_bit 8 v;
          v = v OR drop_bit 16 v
      in v + 1)"

definition rounddown_pow_of_two :: "u32 \<Rightarrow> u32" where
  "rounddown_pow_of_two n0 =
     (let n = n0 OR drop_bit 1 n0;
          n = n OR drop_bit 2 n;
          n = n OR drop_bit 4 n;
          n = n OR drop_bit 8 n;
          n = n OR drop_bit 16 n
      in drop_bit 1 (n + 1))"

definition kfifo_unused :: "kfifo \<Rightarrow> u32" where
  "kfifo_unused f = (k_mask f + 1) - (k_in f - k_out f)"

definition EINVAL :: int where
  "EINVAL = 22"

text \<open>
  \<open>size /= esize\<close> divides an \<open>unsigned int\<close> by a \<open>size_t\<close>; a zero \<open>esize\<close> traps (\<open>None\<close>).
  The result is the return code together with the initialised structure.
\<close>

definition kfifo_init_raw :: "byte list \<Rightarrow> u32 \<Rightarrow> u64 \<Rightarrow> (int \<times> kfifo) option" where
  "kfifo_init_raw buffer size0 esize =
     (if esize = 0 then None
      else let size = rounddown_pow_of_two (ucast ((ucast size0 :: u64) div esize));
               f = \<lparr>k_in = 0, k_out = 0, k_mask = 0, k_esize = ucast esize, k_data = buffer\<rparr>
           in if size < 2 then Some (- EINVAL, f)
              else Some (0, f\<lparr>k_mask := size - 1\<rparr>))"

definition kfifo_copy_in :: "kfifo \<Rightarrow> byte list \<Rightarrow> u32 \<Rightarrow> u32 \<Rightarrow> byte list option" where
  "kfifo_copy_in f src len0 off0 =
     (let esize = k_esize f;
          off1 = off0 AND k_mask f;
          size1 = k_mask f + 1;
          off = (if esize \<noteq> 1 then off1 * esize else off1);
          size = (if esize \<noteq> 1 then size1 * esize else size1);
          len = (if esize \<noteq> 1 then len0 * esize else len0);
          l = min len (size - off)
      in do {
           s1 \<leftarrow> mem_read src 0 (unat l);
           d1 \<leftarrow> mem_write (k_data f) (unat off) s1;
           s2 \<leftarrow> mem_read src (unat l) (unat (len - l));
           mem_write d1 0 s2
         })"

definition kfifo_in_raw :: "kfifo \<Rightarrow> byte list \<Rightarrow> u32 \<Rightarrow> (u32 \<times> kfifo) option" where
  "kfifo_in_raw f buf len0 =
     (let l = kfifo_unused f;
          len = (if len0 > l then l else len0)
      in do {
           d \<leftarrow> kfifo_copy_in f buf len (k_in f);
           Some (len, f\<lparr>k_data := d, k_in := k_in f + len\<rparr>)
         })"

definition kfifo_copy_out :: "kfifo \<Rightarrow> u32 \<Rightarrow> u32 \<Rightarrow> byte list option" where
  "kfifo_copy_out f len0 off0 =
     (let esize = k_esize f;
          off1 = off0 AND k_mask f;
          size1 = k_mask f + 1;
          off = (if esize \<noteq> 1 then off1 * esize else off1);
          size = (if esize \<noteq> 1 then size1 * esize else size1);
          len = (if esize \<noteq> 1 then len0 * esize else len0);
          l = min len (size - off)
      in do {
           s1 \<leftarrow> mem_read (k_data f) (unat off) (unat l);
           s2 \<leftarrow> mem_read (k_data f) 0 (unat (len - l));
           Some (s1 @ s2)
         })"

definition kfifo_out_peek_raw :: "kfifo \<Rightarrow> u32 \<Rightarrow> (u32 \<times> byte list) option" where
  "kfifo_out_peek_raw f len0 =
     (let l = k_in f - k_out f;
          len = (if len0 > l then l else len0)
      in do {
           dst \<leftarrow> kfifo_copy_out f len (k_out f);
           Some (len, dst)
         })"

definition kfifo_out_raw :: "kfifo \<Rightarrow> u32 \<Rightarrow> (u32 \<times> byte list \<times> kfifo) option" where
  "kfifo_out_raw f len0 =
     do {
       (len, dst) \<leftarrow> kfifo_out_peek_raw f len0;
       Some (len, dst, f\<lparr>k_out := k_out f + len\<rparr>)
     }"

text \<open>
  Record mode: every record is preceded by its length in \<open>recsize\<close> (1 or 2) bytes.
  \<open>(1 << (recsize << 3)) - 1\<close> is computed in \<open>int\<close>; a shift of 31 bits or more is undefined.
\<close>

definition kfifo_max_r :: "u32 \<Rightarrow> nat \<Rightarrow> u32 option" where
  "kfifo_max_r len recsize =
     (if recsize * 8 \<ge> 31 then None
      else let m = push_bit (recsize * 8) 1 - 1 in Some (if len > m then m else len))"

definition kfifo_peek_byte :: "kfifo \<Rightarrow> u32 \<Rightarrow> u32 option" where
  "kfifo_peek_byte f out =
     (let i = unat (out AND k_mask f)
      in if i < length (k_data f) then Some (ucast (k_data f ! i)) else None)"

definition kfifo_peek_n :: "kfifo \<Rightarrow> nat \<Rightarrow> u32 option" where
  "kfifo_peek_n f recsize =
     do {
       l \<leftarrow> kfifo_peek_byte f (k_out f);
       if recsize \<noteq> 1
       then do { h \<leftarrow> kfifo_peek_byte f (k_out f + 1); Some (l OR push_bit 8 h) }
       else Some l
     }"

definition kfifo_poke :: "kfifo \<Rightarrow> u32 \<Rightarrow> u32 \<Rightarrow> kfifo option" where
  "kfifo_poke f pos val =
     (let i = unat (pos AND k_mask f)
      in if i < length (k_data f) then Some (f\<lparr>k_data := (k_data f)[i := ucast val]\<rparr>) else None)"

definition kfifo_poke_n :: "kfifo \<Rightarrow> u32 \<Rightarrow> nat \<Rightarrow> kfifo option" where
  "kfifo_poke_n f n recsize =
     do {
       f1 \<leftarrow> kfifo_poke f (k_in f) n;
       if recsize > 1 then kfifo_poke f1 (k_in f1 + 1) (drop_bit 8 n) else Some f1
     }"

definition kfifo_len_r :: "kfifo \<Rightarrow> nat \<Rightarrow> u32 option" where
  "kfifo_len_r f recsize = kfifo_peek_n f recsize"

definition kfifo_in_r :: "kfifo \<Rightarrow> byte list \<Rightarrow> u32 \<Rightarrow> nat \<Rightarrow> (u32 \<times> kfifo) option" where
  "kfifo_in_r f buf len recsize =
     (if unat len + recsize > unat (kfifo_unused f) then Some (0, f)
      else do {
        f1 \<leftarrow> kfifo_poke_n f len recsize;
        d \<leftarrow> kfifo_copy_in f1 buf len (k_in f1 + of_nat recsize);
        Some (len, f1\<lparr>k_data := d, k_in := k_in f1 + (len + of_nat recsize)\<rparr>)
      })"

definition kfifo_out_copy_r :: "kfifo \<Rightarrow> u32 \<Rightarrow> nat \<Rightarrow> (u32 \<times> u32 \<times> byte list) option" where
  "kfifo_out_copy_r f len0 recsize =
     do {
       n \<leftarrow> kfifo_peek_n f recsize;
       let len = (if len0 > n then n else len0);
       dst \<leftarrow> kfifo_copy_out f len (k_out f + of_nat recsize);
       Some (len, n, dst)
     }"

definition kfifo_out_peek_r :: "kfifo \<Rightarrow> u32 \<Rightarrow> nat \<Rightarrow> (u32 \<times> byte list) option" where
  "kfifo_out_peek_r f len recsize =
     (if k_in f = k_out f then Some (0, [])
      else do { (len', n, dst) \<leftarrow> kfifo_out_copy_r f len recsize; Some (len', dst) })"

definition kfifo_out_r :: "kfifo \<Rightarrow> u32 \<Rightarrow> nat \<Rightarrow> (u32 \<times> byte list \<times> kfifo) option" where
  "kfifo_out_r f len recsize =
     (if k_in f = k_out f then Some (0, [], f)
      else do {
        (len', n, dst) \<leftarrow> kfifo_out_copy_r f len recsize;
        Some (len', dst, f\<lparr>k_out := k_out f + (n + of_nat recsize)\<rparr>)
      })"

definition kfifo_skip_r :: "kfifo \<Rightarrow> nat \<Rightarrow> kfifo option" where
  "kfifo_skip_r f recsize =
     do { n \<leftarrow> kfifo_peek_n f recsize; Some (f\<lparr>k_out := k_out f + (n + of_nat recsize)\<rparr>) }"

section \<open>The macros of kfifo.h\<close>

text \<open>
  The macros dispatch on \<open>sizeof(*rectype)\<close>, the record-length width of the fifo's type; it is
  the parameter \<open>recsize\<close> (0 for an element fifo, 1 or 2 for a record fifo).
\<close>

definition INIT_KFIFO :: "nat \<Rightarrow> nat \<Rightarrow> byte list \<Rightarrow> kfifo" where
  "INIT_KFIFO array_size esize buf =
     \<lparr>k_in = 0, k_out = 0, k_mask = of_nat array_size - 1, k_esize = of_nat esize, k_data = buf\<rparr>"

definition kfifo_initialized :: "kfifo \<Rightarrow> bool" where
  "kfifo_initialized f \<longleftrightarrow> k_mask f \<noteq> 0"

definition kfifo_size :: "kfifo \<Rightarrow> u32" where
  "kfifo_size f = k_mask f + 1"

definition kfifo_reset :: "kfifo \<Rightarrow> kfifo" where
  "kfifo_reset f = f\<lparr>k_out := 0, k_in := 0\<rparr>"

definition kfifo_reset_out :: "kfifo \<Rightarrow> kfifo" where
  "kfifo_reset_out f = f\<lparr>k_out := k_in f\<rparr>"

definition kfifo_len :: "kfifo \<Rightarrow> u32" where
  "kfifo_len f = k_in f - k_out f"

definition kfifo_is_empty :: "kfifo \<Rightarrow> bool" where
  "kfifo_is_empty f \<longleftrightarrow> k_in f = k_out f"

definition kfifo_is_full :: "kfifo \<Rightarrow> bool" where
  "kfifo_is_full f \<longleftrightarrow> kfifo_len f > k_mask f"

definition kfifo_avail :: "kfifo \<Rightarrow> nat \<Rightarrow> u32 option" where
  "kfifo_avail f recsize =
     (let avail = kfifo_size f - kfifo_len f
      in if recsize \<noteq> 0
         then (if unat avail \<le> recsize then Some 0
               else kfifo_max_r (avail - of_nat recsize) recsize)
         else Some avail)"

definition kfifo_skip :: "kfifo \<Rightarrow> nat \<Rightarrow> kfifo option" where
  "kfifo_skip f recsize =
     (if recsize \<noteq> 0 then kfifo_skip_r f recsize else Some (f\<lparr>k_out := k_out f + 1\<rparr>))"

definition kfifo_skip_n :: "kfifo \<Rightarrow> u32 \<Rightarrow> kfifo" where
  "kfifo_skip_n f n = f\<lparr>k_out := k_out f + n\<rparr>"

definition kfifo_peek_len :: "kfifo \<Rightarrow> nat \<Rightarrow> u32 option" where
  "kfifo_peek_len f recsize =
     (if recsize = 0 then Some (kfifo_len f * k_esize f) else kfifo_len_r f recsize)"

definition kfifo_init :: "bool \<Rightarrow> byte list \<Rightarrow> u32 \<Rightarrow> u64 \<Rightarrow> (int \<times> kfifo option) option" where
  "kfifo_init is_ptr buffer sz esize =
     (if is_ptr then map_option (\<lambda>(r, f). (r, Some f)) (kfifo_init_raw buffer sz esize)
      else Some (- EINVAL, None))"

definition kfifo_peek :: "kfifo \<Rightarrow> u32 \<Rightarrow> nat \<Rightarrow> (u32 \<times> byte list) option" where
  "kfifo_peek f valsize recsize =
     (if recsize \<noteq> 0 then kfifo_out_peek_r f valsize recsize
      else if kfifo_is_empty f then Some (0, [])
      else do {
        v \<leftarrow> mem_read (k_data f) (unat (k_out f AND k_mask f) * unat (k_esize f)) (unat (k_esize f));
        Some (1, v)
      })"

definition kfifo_put :: "kfifo \<Rightarrow> byte list \<Rightarrow> u32 \<Rightarrow> nat \<Rightarrow> (u32 \<times> kfifo) option" where
  "kfifo_put f buf n recsize =
     (if recsize \<noteq> 0 then kfifo_in_r f buf n recsize else kfifo_in_raw f buf n)"

definition kfifo_get :: "kfifo \<Rightarrow> u32 \<Rightarrow> nat \<Rightarrow> (u32 \<times> byte list \<times> kfifo) option" where
  "kfifo_get f n recsize =
     (if recsize \<noteq> 0 then kfifo_out_r f n recsize else kfifo_out_raw f n)"

definition kfifo_out_peek :: "kfifo \<Rightarrow> u32 \<Rightarrow> nat \<Rightarrow> (u32 \<times> byte list) option" where
  "kfifo_out_peek f n recsize =
     (if recsize \<noteq> 0 then kfifo_out_peek_r f n recsize else kfifo_out_peek_raw f n)"

section \<open>Representation invariant and abstraction\<close>

text \<open>
  \<open>kfifo_shape\<close> is what initialisation establishes (the capacity is a power of two and the array
  holds that many elements); \<open>kfifo_wf\<close> adds that no more elements are stored than fit.
\<close>

definition kfifo_cap :: "kfifo \<Rightarrow> nat" where
  "kfifo_cap f = unat (k_mask f) + 1"

definition kfifo_count :: "kfifo \<Rightarrow> nat" where
  "kfifo_count f = unat (k_in f - k_out f)"

definition kfifo_shape :: "kfifo \<Rightarrow> bool" where
  "kfifo_shape f \<longleftrightarrow>
     (\<exists>k\<in>{1..<32}. k_mask f = mask k) \<and> 0 < unat (k_esize f) \<and>
     kfifo_cap f * unat (k_esize f) \<le> length (k_data f) \<and> length (k_data f) < 2 ^ 32"

definition kfifo_wf :: "kfifo \<Rightarrow> bool" where
  "kfifo_wf f \<longleftrightarrow> kfifo_shape f \<and> kfifo_count f \<le> kfifo_cap f"

definition kfifo_elem :: "kfifo \<Rightarrow> u32 \<Rightarrow> byte list" where
  "kfifo_elem f j =
     take (unat (k_esize f)) (drop (unat (j AND k_mask f) * unat (k_esize f)) (k_data f))"

definition kfifo_contents :: "kfifo \<Rightarrow> byte list list" where
  "kfifo_contents f = map (\<lambda>i. kfifo_elem f (k_out f + of_nat i)) [0..<kfifo_count f]"

definition elems_of :: "nat \<Rightarrow> nat \<Rightarrow> byte list \<Rightarrow> byte list list" where
  "elems_of e n buf = map (\<lambda>i. take e (drop (i * e) buf)) [0..<n]"

lemma kfifo_shapeE:
  assumes "kfifo_shape f"
  obtains k where "0 < k" "k < 32" "k_mask f = mask k" "kfifo_cap f = 2 ^ k"
    "unat (k_mask f + 1) = 2 ^ k"
proof -
  from assms obtain k where k: "0 < k" "k < 32" "k_mask f = mask k"
    by (auto simp: kfifo_shape_def Suc_le_eq)
  have m: "unat (mask k :: u32) = 2 ^ k - 1"
    using k by (simp add: unat_mask_word)
  have c: "kfifo_cap f = 2 ^ k"
    using k m by (simp add: kfifo_cap_def)
  have "(2::nat) ^ k < 2 ^ 32"
    using k power_strict_increasing [of k 32 "2::nat"] by simp
  then have "unat (k_mask f + 1) = 2 ^ k"
    using k m by (subst unat_add_no_wrap) auto
  with k c show ?thesis
    by (rule that)
qed

section \<open>Copying in and out\<close>

lemma scale_esize [simp]: "(if e \<noteq> 1 then x * e else x) = x * (e :: u32)"
  by simp

text \<open>The byte offsets computed by the two copy functions, as natural numbers.\<close>

lemma kfifo_copy_offsets:
  assumes sh: "kfifo_shape f" and n: "unat len \<le> kfifo_cap f"
  defines "e \<equiv> unat (k_esize f)"
  shows "unat (off AND k_mask f) < kfifo_cap f"
    and "unat ((off AND k_mask f) * k_esize f) = unat (off AND k_mask f) * e"
    and "unat (len * k_esize f) = unat len * e"
    and "unat (min (len * k_esize f) ((k_mask f + 1) * k_esize f - (off AND k_mask f) * k_esize f)) =
         min (unat len * e) (kfifo_cap f * e - unat (off AND k_mask f) * e)"
    and "unat (len * k_esize f - min (len * k_esize f)
           ((k_mask f + 1) * k_esize f - (off AND k_mask f) * k_esize f)) =
         unat len * e - min (unat len * e) (kfifo_cap f * e - unat (off AND k_mask f) * e)"
proof -
  obtain k where k: "k < 32" "k_mask f = mask k" "kfifo_cap f = 2 ^ k" "unat (k_mask f + 1) = 2 ^ k"
    using sh by (rule kfifo_shapeE)
  let ?o = "off AND k_mask f"
  have Se: "kfifo_cap f * e < 2 ^ 32"
    using sh by (simp add: kfifo_shape_def e_def)
  show o: "unat ?o < kfifo_cap f"
    using k by (simp add: unat_and_mask)
  have scale: "unat (x * k_esize f) = unat x * e" if "unat x \<le> kfifo_cap f" for x
  proof -
    have "unat x * e \<le> kfifo_cap f * e" using that by (rule mult_le_mono1)
    then have "unat x * e < 2 ^ 32" using Se by (rule le_less_trans)
    then show ?thesis by (simp add: unat_mult_no_wrap e_def)
  qed
  show uo: "unat (?o * k_esize f) = unat ?o * e" using o by (intro scale) simp
  show ul: "unat (len * k_esize f) = unat len * e" using n by (rule scale)
  have uS: "unat ((k_mask f + 1) * k_esize f) = kfifo_cap f * e"
    using k by (subst scale) simp_all
  have "unat ?o * e \<le> kfifo_cap f * e" using o by (intro mult_le_mono1) simp
  then have us: "unat ((k_mask f + 1) * k_esize f - ?o * k_esize f) = kfifo_cap f * e - unat ?o * e"
    by (simp only: unat_sub_le uo uS)
  then show um: "unat (min (len * k_esize f) ((k_mask f + 1) * k_esize f - ?o * k_esize f)) =
      min (unat len * e) (kfifo_cap f * e - unat ?o * e)"
    by (simp only: unat_min_word ul)
  then show "unat (len * k_esize f - min (len * k_esize f)
        ((k_mask f + 1) * k_esize f - ?o * k_esize f)) =
      unat len * e - min (unat len * e) (kfifo_cap f * e - unat ?o * e)"
    by (subst unat_sub_le) (simp_all only: ul min.cobounded1)
qed

text \<open>
  \<open>kfifo_stored f off xs f'\<close>: \<open>f'\<close> is \<open>f\<close> after the elements \<open>xs\<close> were written from the free-running
  position \<open>off\<close> on, the counters and every other cell being untouched.
\<close>

definition kfifo_stored :: "kfifo \<Rightarrow> u32 \<Rightarrow> byte list list \<Rightarrow> kfifo \<Rightarrow> bool" where
  "kfifo_stored f off xs f' \<longleftrightarrow>
     f' = f\<lparr>k_data := k_data f'\<rparr> \<and> length (k_data f') = length (k_data f) \<and>
     (\<forall>i<kfifo_cap f. kfifo_elem f' (off + of_nat i) =
        (if i < length xs then xs ! i else kfifo_elem f (off + of_nat i)))"

lemma kfifo_copy_in_spec:
  assumes sh: "kfifo_shape f" and n: "unat len \<le> kfifo_cap f"
    and src: "unat len * unat (k_esize f) \<le> length src"
  obtains d where "kfifo_copy_in f src len off = Some d"
    and "kfifo_stored f off (elems_of (unat (k_esize f)) (unat len) src) (f\<lparr>k_data := d\<rparr>)"
proof -
  define e o1 l where "e = unat (k_esize f)" and "o1 = unat (off AND k_mask f)"
    and "l = min (unat len * e) (kfifo_cap f * e - o1 * e)"
  note offs = kfifo_copy_offsets(1,2,4,5) [OF sh n, of off, folded e_def o1_def, folded l_def]
  obtain k where k: "k < 32" "k_mask f = mask k" "kfifo_cap f = 2 ^ k"
    using sh by (rule kfifo_shapeE)
  have Se: "kfifo_cap f * e \<le> length (k_data f)"
    using sh by (simp add: kfifo_shape_def e_def)
  have oe: "o1 * e \<le> kfifo_cap f * e" using offs(1) by (intro mult_le_mono1) simp
  have ne: "unat len * e \<le> kfifo_cap f * e" using n by (rule mult_le_mono1)
  have src': "unat len * e \<le> length src" using src by (simp add: e_def)
  have b: "o1 * e + l \<le> length (k_data f)" "l \<le> unat len * e" "l \<le> length src"
    "unat len * e - l \<le> length (k_data f)" "l + (unat len * e - l) \<le> length src"
    using Se oe ne src' unfolding l_def by linarith+
  obtain d1 where d1: "mem_write (k_data f) (o1 * e) (take l src) = Some d1"
    using b by (simp add: mem_write_def)
  have len1: "length d1 = length (k_data f)" using d1 by (rule mem_write_length)
  obtain d where d: "mem_write d1 0 (take (unat len * e - l) (drop l src)) = Some d"
    using b len1 by (simp add: mem_write_def)
  have "kfifo_copy_in f src len off = Some d"
    unfolding kfifo_copy_in_def Let_def scale_esize offs
    using b by (simp add: mem_read_def d1 d)
  moreover have "length d = length (k_data f)" using d len1 by (simp add: mem_write_length)
  moreover have "kfifo_elem (f\<lparr>k_data := d\<rparr>) (off + of_nat i) =
      (if i < unat len then take e (drop (i * e) src) else kfifo_elem f (off + of_nat i))"
    if i: "i < kfifo_cap f" for i
  proof -
    have idx: "unat ((off + of_nat i) AND k_mask f) = (o1 + i) mod kfifo_cap f"
      using k by (simp add: mask_add_of_nat o1_def)
    show ?thesis
      unfolding kfifo_elem_def idx
      using ring_write_elem [OF offs(1) n Se src' l_def d1 d i] by (simp add: idx flip: e_def)
  qed
  ultimately show ?thesis using that by (simp add: kfifo_stored_def elems_of_def e_def)
qed

lemma kfifo_elem_length: "kfifo_shape f \<Longrightarrow> length (kfifo_elem f j) = unat (k_esize f)"
proof -
  assume sh: "kfifo_shape f"
  then obtain k where k: "k_mask f = mask k" "kfifo_cap f = 2 ^ k" by (rule kfifo_shapeE)
  have "unat (j AND k_mask f) < kfifo_cap f" using k by (simp add: unat_and_mask)
  then have "Suc (unat (j AND k_mask f)) * unat (k_esize f) \<le> kfifo_cap f * unat (k_esize f)"
    by (intro mult_le_mono1) simp
  moreover have "kfifo_cap f * unat (k_esize f) \<le> length (k_data f)"
    using sh by (simp add: kfifo_shape_def)
  ultimately show ?thesis by (simp add: kfifo_elem_def)
qed

lemma kfifo_copy_out_spec:
  assumes sh: "kfifo_shape f" and n: "unat len \<le> kfifo_cap f"
  shows "kfifo_copy_out f len off =
         Some (concat (map (\<lambda>i. kfifo_elem f (off + of_nat i)) [0..<unat len]))"
proof -
  define e o1 l where "e = unat (k_esize f)" and "o1 = unat (off AND k_mask f)"
    and "l = min (unat len * e) (kfifo_cap f * e - o1 * e)"
  note offs = kfifo_copy_offsets(1,2,4,5) [OF sh n, of off, folded e_def o1_def, folded l_def]
  obtain k where k: "k < 32" "k_mask f = mask k" "kfifo_cap f = 2 ^ k"
    using sh by (rule kfifo_shapeE)
  have Se: "kfifo_cap f * e \<le> length (k_data f)"
    using sh by (simp add: kfifo_shape_def e_def)
  have oe: "o1 * e \<le> kfifo_cap f * e" using offs(1) by (intro mult_le_mono1) simp
  have ne: "unat len * e \<le> kfifo_cap f * e" using n by (rule mult_le_mono1)
  have b: "o1 * e + l \<le> length (k_data f)" "unat len * e - l \<le> length (k_data f)"
    using Se oe ne unfolding l_def by linarith+
  have idx: "unat ((off + of_nat i) AND k_mask f) = (o1 + i) mod kfifo_cap f" for i
    using k by (simp add: mask_add_of_nat o1_def)
  show ?thesis
    unfolding kfifo_copy_out_def Let_def scale_esize offs
    using b ring_read_cells [OF offs(1) Se n, folded l_def]
    by (simp add: mem_read_def kfifo_elem_def idx flip: e_def)
qed

lemma unat_kfifo_unused: "kfifo_wf f \<Longrightarrow> unat (kfifo_unused f) = kfifo_cap f - kfifo_count f"
proof -
  assume wf: "kfifo_wf f"
  then obtain k where "unat (k_mask f + 1) = 2 ^ k" "kfifo_cap f = 2 ^ k"
    unfolding kfifo_wf_def by (blast elim: kfifo_shapeE)
  then have "unat (k_mask f + 1) = kfifo_cap f" by simp
  then show ?thesis
    using wf by (simp add: kfifo_wf_def kfifo_unused_def kfifo_count_def unat_sub_le)
qed

lemma kfifo_cap_bound: "kfifo_shape f \<Longrightarrow> kfifo_cap f \<le> 2 ^ 31"
proof -
  assume "kfifo_shape f"
  then obtain k where "k < 32" "kfifo_cap f = 2 ^ k" by (rule kfifo_shapeE)
  moreover from this have "(2::nat) ^ k \<le> 2 ^ 31" by (intro power_increasing) simp_all
  ultimately show ?thesis by simp
qed

lemma length_kfifo_contents [simp]: "length (kfifo_contents f) = kfifo_count f"
  by (simp add: kfifo_contents_def)

lemma kfifo_elem_wrap:
  assumes "kfifo_shape f"
  shows "kfifo_elem f (x + of_nat (kfifo_cap f + i)) = kfifo_elem f (x + of_nat i)"
proof -
  obtain k where k: "k < 32" "k_mask f = mask k" "kfifo_cap f = 2 ^ k"
    using assms by (rule kfifo_shapeE)
  have "unat ((x + of_nat (kfifo_cap f + i)) AND k_mask f) = unat ((x + of_nat i) AND k_mask f)"
    unfolding k(2) mask_add_of_nat [OF k(1)] k(3)
    by (simp only: add.left_commute [of _ "2 ^ k"] mod_add_self1)
  then show ?thesis by (simp add: kfifo_elem_def)
qed

lemma kfifo_stored_simps:
  assumes "kfifo_stored f off xs f'"
  shows "k_in f' = k_in f" "k_out f' = k_out f" "k_mask f' = k_mask f" "k_esize f' = k_esize f"
    "kfifo_cap f' = kfifo_cap f" "kfifo_count f' = kfifo_count f" "kfifo_shape f' = kfifo_shape f"
proof -
  have f: "f' = f\<lparr>k_data := k_data f'\<rparr>" "length (k_data f') = length (k_data f)"
    using assms by (simp_all add: kfifo_stored_def)
  then show "k_in f' = k_in f" "k_out f' = k_out f" "k_mask f' = k_mask f" "k_esize f' = k_esize f"
    by (metis kfifo.ext_inject kfifo.surjective kfifo.update_convs(5))+
  then show "kfifo_cap f' = kfifo_cap f" "kfifo_count f' = kfifo_count f"
    "kfifo_shape f' = kfifo_shape f"
    using f(2) by (simp_all add: kfifo_cap_def kfifo_count_def kfifo_shape_def)
qed

lemma kfifo_stored_append:
  assumes s1: "kfifo_stored f off xs f1" and s2: "kfifo_stored f1 (off + of_nat (length xs)) ys f2"
    and sh: "kfifo_shape f" and le: "length xs + length ys \<le> kfifo_cap f"
  shows "kfifo_stored f off (xs @ ys) f2"
proof -
  note sim = kfifo_stored_simps [OF s1] kfifo_stored_simps [OF s2]
  have sh2: "kfifo_shape f1" "kfifo_shape f2" using sh sim by simp_all
  have elem: "kfifo_elem f2 (off + of_nat i) =
      (if i < length (xs @ ys) then (xs @ ys) ! i else kfifo_elem f (off + of_nat i))"
    if i: "i < kfifo_cap f" for i
  proof (cases "i < length xs")
    case True
    define j where "j = kfifo_cap f - length xs + i"
    have j: "j < kfifo_cap f1" "\<not> j < length ys" using True i le sim unfolding j_def by linarith+
    have "off + of_nat (length xs) + of_nat j = (off + of_nat (kfifo_cap f + i) :: u32)"
      using le unfolding j_def by (simp add: of_nat_diff)
    then have "kfifo_elem f2 (off + of_nat (kfifo_cap f + i)) = kfifo_elem f1 (off + of_nat (kfifo_cap f + i))"
      using s2 j unfolding kfifo_stored_def by metis
    then have "kfifo_elem f2 (off + of_nat i) = kfifo_elem f1 (off + of_nat i)"
      using kfifo_elem_wrap [OF sh2(1)] kfifo_elem_wrap [OF sh2(2)] sim by metis
    then show ?thesis using s1 i True by (simp add: kfifo_stored_def nth_append)
  next
    case False
    then have "off + of_nat i = (off + of_nat (length xs) + of_nat (i - length xs) :: u32)"
      by (simp add: of_nat_diff)
    moreover have "i - length xs < kfifo_cap f1" using i sim by simp
    ultimately have "kfifo_elem f2 (off + of_nat i) =
        (if i - length xs < length ys then ys ! (i - length xs) else kfifo_elem f1 (off + of_nat i))"
      using s2 unfolding kfifo_stored_def by metis
    then show ?thesis using s1 i False by (auto simp: kfifo_stored_def nth_append)
  qed
  have "f2 = f\<lparr>k_data := k_data f2\<rparr>" "length (k_data f2) = length (k_data f)"
    using s1 s2 unfolding kfifo_stored_def by (metis kfifo.fold_congs(5) kfifo.update_convs(5) kfifo.surjective, metis)
  then show ?thesis using elem by (simp add: kfifo_stored_def)
qed

lemma kfifo_commit:
  assumes wf: "kfifo_wf f" and st: "kfifo_stored f (k_in f) xs f'"
    and le: "length xs \<le> kfifo_cap f - kfifo_count f"
  defines "g \<equiv> f'\<lparr>k_in := k_in f + of_nat (length xs)\<rparr>"
  shows "kfifo_wf g" and "kfifo_contents g = kfifo_contents f @ xs"
proof -
  note sim = kfifo_stored_simps [OF st]
  have sh: "kfifo_shape f" and cnt: "kfifo_count f \<le> kfifo_cap f" using wf by (simp_all add: kfifo_wf_def)
  have cap: "kfifo_cap g = kfifo_cap f" using sim by (simp add: g_def kfifo_cap_def)
  have shg: "kfifo_shape g" using sh sim by (simp add: g_def kfifo_shape_def kfifo_cap_def)
  have out: "k_out g = k_out f" using sim by (simp add: g_def)
  have ee: "kfifo_elem g j = kfifo_elem f' j" for j by (simp add: g_def kfifo_elem_def)
  have cin: "k_in f = k_out f + of_nat (kfifo_count f)" by (simp add: kfifo_count_def)
  have el: "kfifo_elem g (k_in f + of_nat i) =
      (if i < length xs then xs ! i else kfifo_elem f (k_in f + of_nat i))" if "i < kfifo_cap f" for i
    using st that by (simp add: kfifo_stored_def ee)
  have lt: "kfifo_count f + length xs < 2 ^ 32"
    using le cnt kfifo_cap_bound [OF sh] by simp
  have "kfifo_count g = unat (of_nat (kfifo_count f + length xs) :: u32)"
    using sim by (simp add: g_def kfifo_count_def algebra_simps)
  then have cnt': "kfifo_count g = kfifo_count f + length xs"
    using lt by (simp only: unat_of_nat_u32)
  show "kfifo_wf g" unfolding kfifo_wf_def cap cnt' using shg le cnt by auto
  have old: "kfifo_elem g (k_out f + of_nat i) = kfifo_elem f (k_out f + of_nat i)"
    if i: "i < kfifo_count f" for i
  proof -
    define j where "j = kfifo_cap f - kfifo_count f + i"
    have j: "j < kfifo_cap f" "\<not> j < length xs" using i cnt le unfolding j_def by linarith+
    have "kfifo_count f + j = kfifo_cap f + i" using cnt by (simp add: j_def)
    then have kj: "k_in f + of_nat j = k_out f + of_nat (kfifo_cap f + i)"
      unfolding cin by (metis add.assoc of_nat_add)
    have "kfifo_elem g (k_out f + of_nat (kfifo_cap f + i)) =
        kfifo_elem f (k_out f + of_nat (kfifo_cap f + i))"
      using el [OF j(1)] j(2) by (simp only: kj if_False)
    then show ?thesis
      using kfifo_elem_wrap [OF sh] kfifo_elem_wrap [OF shg] by (simp only: cap)
  qed
  have new: "kfifo_elem g (k_out f + of_nat (kfifo_count f + i)) = xs ! i" if i: "i < length xs" for i
  proof -
    have "i < kfifo_cap f" using i le by linarith
    moreover have "k_out f + of_nat (kfifo_count f + i) = k_in f + of_nat i"
      unfolding cin by (simp add: add.assoc)
    ultimately show ?thesis using el [of i] i by (simp only: if_True)
  qed
  show "kfifo_contents g = kfifo_contents f @ xs"
  proof (rule nth_equalityI)
    fix i assume "i < length (kfifo_contents g)"
    then have i: "i < kfifo_count f + length xs" by (simp add: cnt')
    then have "i - kfifo_count f < length xs" if "\<not> i < kfifo_count f" using that by simp
    then show "kfifo_contents g ! i = (kfifo_contents f @ xs) ! i"
      using i old [of i] new [of "i - kfifo_count f"]
      by (cases "i < kfifo_count f") (simp_all add: kfifo_contents_def nth_append cnt' out)
  qed (simp add: cnt')
qed

lemma length_elems_of [simp]: "length (elems_of e n buf) = n"
  by (simp add: elems_of_def)

lemma kfifo_in_raw_spec:
  assumes wf: "kfifo_wf f" and m: "m = min (unat len) (kfifo_cap f - kfifo_count f)"
    and src: "m * unat (k_esize f) \<le> length buf"
  obtains f' where "kfifo_in_raw f buf len = Some (of_nat m, f')" and "kfifo_wf f'"
    and "kfifo_contents f' = kfifo_contents f @ elems_of (unat (k_esize f)) m buf"
    and "kfifo_cap f' = kfifo_cap f" and "k_esize f' = k_esize f" and "k_out f' = k_out f"
proof -
  define len' where "len' = (if len > kfifo_unused f then kfifo_unused f else len)"
  have um: "unat len' = m"
    unfolding len'_def m using unat_kfifo_unused [OF wf] by (simp add: word_less_nat_alt min_def)
  then have lm: "len' = of_nat m" by (simp flip: um)
  have sh: "kfifo_shape f" using wf by (simp add: kfifo_wf_def)
  have "unat len' \<le> kfifo_cap f" using um m by simp
  from kfifo_copy_in_spec [OF sh this, of buf "k_in f"] src um
  obtain d where d: "kfifo_copy_in f buf len' (k_in f) = Some d"
    and st: "kfifo_stored f (k_in f) (elems_of (unat (k_esize f)) m buf) (f\<lparr>k_data := d\<rparr>)" by metis
  have le: "length (elems_of (unat (k_esize f)) m buf) \<le> kfifo_cap f - kfifo_count f" using m by simp
  have "kfifo_in_raw f buf len = Some (of_nat m, f\<lparr>k_data := d, k_in := k_in f + of_nat m\<rparr>)"
    unfolding kfifo_in_raw_def Let_def len'_def [symmetric] using d by (simp add: lm)
  then show ?thesis
    using that kfifo_commit [OF wf st le] by (simp add: kfifo_cap_def)
qed

lemma kfifo_out_peek_raw_spec:
  assumes wf: "kfifo_wf f" and m: "m = min (unat len) (kfifo_count f)"
  shows "kfifo_out_peek_raw f len = Some (of_nat m, concat (take m (kfifo_contents f)))"
proof -
  define len' where "len' = (if len > k_in f - k_out f then k_in f - k_out f else len)"
  have um: "unat len' = m"
    unfolding len'_def m kfifo_count_def by (simp add: word_less_nat_alt min_def)
  then have lm: "len' = of_nat m" by (simp flip: um)
  have sh: "kfifo_shape f" and "m \<le> kfifo_cap f" using wf m by (auto simp: kfifo_wf_def)
  then have c: "kfifo_copy_out f len' (k_out f) =
      Some (concat (map (\<lambda>i. kfifo_elem f (k_out f + of_nat i)) [0..<m]))"
    using kfifo_copy_out_spec [OF sh, of len'] um by simp
  have "take m (kfifo_contents f) = map (\<lambda>i. kfifo_elem f (k_out f + of_nat i)) [0..<m]"
    using m by (simp add: kfifo_contents_def take_map)
  then show ?thesis
    unfolding kfifo_out_peek_raw_def Let_def len'_def [symmetric] using c by (simp add: lm)
qed

lemma kfifo_advance_out:
  assumes wf: "kfifo_wf f" and m: "m \<le> kfifo_count f"
  shows "kfifo_wf (f\<lparr>k_out := k_out f + of_nat m\<rparr>)"
    and "kfifo_contents (f\<lparr>k_out := k_out f + of_nat m\<rparr>) = drop m (kfifo_contents f)"
proof -
  let ?f = "f\<lparr>k_out := k_out f + of_nat m\<rparr>"
  have "k_in f - (k_out f + of_nat m) = of_nat (kfifo_count f - m)"
    using m by (simp add: kfifo_count_def of_nat_diff)
  moreover have "kfifo_count f < 2 ^ 32"
    unfolding kfifo_count_def using unsigned_less [of "k_in f - k_out f"] by simp
  ultimately have cnt: "kfifo_count ?f = kfifo_count f - m"
    by (simp add: kfifo_count_def [of ?f] unat_of_nat_u32)
  show "kfifo_wf ?f"
    using wf unfolding kfifo_wf_def cnt by (auto simp: kfifo_shape_def kfifo_cap_def)
  show "kfifo_contents ?f = drop m (kfifo_contents f)"
    by (rule nth_equalityI) (auto simp: cnt kfifo_contents_def kfifo_elem_def add.assoc)
qed

lemma kfifo_out_raw_spec:
  assumes wf: "kfifo_wf f" and m: "m = min (unat len) (kfifo_count f)"
  shows "kfifo_out_raw f len =
         Some (of_nat m, concat (take m (kfifo_contents f)), f\<lparr>k_out := k_out f + of_nat m\<rparr>)"
  unfolding kfifo_out_raw_def by (simp add: kfifo_out_peek_raw_spec [OF wf m])

lemma concat_elems_of:
  "n * e \<le> length buf \<Longrightarrow> concat (elems_of e n buf) = take (n * e) buf"
proof (induction n)
  case (Suc n)
  then show ?case by (simp add: elems_of_def add.commute [of e] take_add)
qed (simp add: elems_of_def)

lemma elems_of_Suc: "elems_of e (Suc n) buf = take e buf # elems_of e n (drop e buf)"
  by (simp add: elems_of_def map_upt_Suc add.commute del: upt_Suc)

lemma elems_of_concat:
  "\<forall>x\<in>set xs. length x = e \<Longrightarrow> elems_of e (length xs) (concat xs) = xs"
  by (induction xs) (simp_all add: elems_of_Suc elems_of_def [of e 0])

subsection \<open>Record mode\<close>

text \<open>
  A record fifo is an element fifo of bytes.  \<open>rec_header r n\<close> are the \<open>r\<close> length bytes of a record
  and \<open>rec_encode r bs\<close> a whole record; \<open>rec_queue r f recs\<close> says that \<open>f\<close> holds exactly \<open>recs\<close>.
\<close>

definition rec_header :: "nat \<Rightarrow> u32 \<Rightarrow> byte list list" where
  "rec_header r n = map (\<lambda>i. [ucast (drop_bit (8 * i) n)]) [0..<r]"

definition rec_encode :: "nat \<Rightarrow> byte list \<Rightarrow> byte list list" where
  "rec_encode r bs = rec_header r (of_nat (length bs)) @ map (\<lambda>b. [b]) bs"

definition rec_queue :: "nat \<Rightarrow> kfifo \<Rightarrow> byte list list \<Rightarrow> bool" where
  "rec_queue r f recs \<longleftrightarrow>
     kfifo_wf f \<and> k_esize f = 1 \<and> kfifo_contents f = concat (map (rec_encode r) recs) \<and>
     (\<forall>bs\<in>set recs. length bs < 2 ^ (8 * r))"

lemma elems_of_one: "n \<le> length buf \<Longrightarrow> elems_of 1 n buf = map (\<lambda>b. [b]) (take n buf)"
  by (rule nth_equalityI) (auto simp: elems_of_def take_Suc_conv_app_nth intro!: nth_equalityI)

lemma kfifo_poke_spec:
  assumes sh: "kfifo_shape f" and e: "k_esize f = 1"
  obtains f' where "kfifo_poke f pos val = Some f'" and "kfifo_stored f pos [[ucast val]] f'"
proof -
  define o1 where "o1 = unat (pos AND k_mask f)"
  have cap: "unat (1::u32) \<le> kfifo_cap f" by (simp add: kfifo_cap_def)
  note offs = kfifo_copy_offsets(1,2,4,5) [OF sh cap, of pos, folded o1_def]
  have len: "o1 < length (k_data f)" using offs(1) sh e by (simp add: kfifo_shape_def)
  have one: "min 1 (kfifo_cap f - o1) = 1" using offs(1) by simp
  obtain d where d: "kfifo_copy_in f [ucast val] 1 pos = Some d"
    and st: "kfifo_stored f pos (elems_of (unat (k_esize f)) (unat (1::u32)) [ucast val]) (f\<lparr>k_data := d\<rparr>)"
    using kfifo_copy_in_spec [OF sh cap, of "[ucast val]" pos] e by auto
  have "kfifo_copy_in f [ucast val] 1 pos = Some ((k_data f)[o1 := ucast val])"
    unfolding kfifo_copy_in_def Let_def scale_esize offs
    using len one by (simp add: e mem_read_def mem_write_def upd_conv_take_nth_drop flip: o1_def)
  with d have "kfifo_poke f pos val = Some (f\<lparr>k_data := d\<rparr>)"
    using len by (simp add: kfifo_poke_def flip: o1_def)
  moreover have "kfifo_stored f pos [[ucast val]] (f\<lparr>k_data := d\<rparr>)"
    using st e by (simp add: elems_of_def)
  ultimately show ?thesis by (rule that)
qed

lemma kfifo_poke_n_spec:
  assumes sh: "kfifo_shape f" and e: "k_esize f = 1" and r: "r \<in> {1, 2}"
  obtains f' where "kfifo_poke_n f n r = Some f'" and "kfifo_stored f (k_in f) (rec_header r n) f'"
proof -
  obtain f1 where f1: "kfifo_poke f (k_in f) n = Some f1" and s1: "kfifo_stored f (k_in f) [[ucast n]] f1"
    using kfifo_poke_spec [OF sh e] by blast
  note sim = kfifo_stored_simps [OF s1]
  obtain f2 where f2: "kfifo_poke f1 (k_in f1 + 1) (drop_bit 8 n) = Some f2"
    and s2: "kfifo_stored f1 (k_in f1 + 1) [[ucast (drop_bit 8 n)]] f2"
    using kfifo_poke_spec [of f1] sh e sim by metis
  have "2 \<le> kfifo_cap f"
    using sh by (rule kfifo_shapeE) (metis One_nat_def Suc_leI power_increasing power_one_right one_le_numeral)
  then have "kfifo_stored f (k_in f) ([[ucast n]] @ [[ucast (drop_bit 8 n)]]) f2"
    using kfifo_stored_append [OF s1 _ sh] s2 sim by simp
  then show ?thesis
    using that f1 f2 s1 r by (auto simp: kfifo_poke_n_def rec_header_def upt_rec)
qed

lemma kfifo_in_r_spec:
  assumes wf: "kfifo_wf f" and e: "k_esize f = 1" and r: "r \<in> {1, 2}"
    and fits: "unat len + r \<le> kfifo_cap f - kfifo_count f" and src: "unat len \<le> length buf"
  obtains f' where "kfifo_in_r f buf len r = Some (len, f')" and "kfifo_wf f'" and "k_esize f' = 1"
    and "kfifo_contents f' = kfifo_contents f @ rec_header r len @ map (\<lambda>b. [b]) (take (unat len) buf)"
proof -
  have sh: "kfifo_shape f" using wf by (simp add: kfifo_wf_def)
  obtain f1 where f1: "kfifo_poke_n f len r = Some f1" and s1: "kfifo_stored f (k_in f) (rec_header r len) f1"
    using kfifo_poke_n_spec [OF sh e r] by blast
  note sim = kfifo_stored_simps [OF s1]
  have sh1: "kfifo_shape f1" using sim sh by simp
  have lr: "length (rec_header r len) = r" by (simp add: rec_header_def)
  have "unat len \<le> kfifo_cap f1" using fits sim by simp
  then obtain d where d: "kfifo_copy_in f1 buf len (k_in f1 + of_nat r) = Some d"
    and s2: "kfifo_stored f1 (k_in f1 + of_nat r) (map (\<lambda>b. [b]) (take (unat len) buf)) (f1\<lparr>k_data := d\<rparr>)"
    using kfifo_copy_in_spec [OF sh1, of len buf "k_in f1 + of_nat r"] src sim e
    by (metis elems_of_one mult.right_neutral unat_1)
  have st: "kfifo_stored f (k_in f) (rec_header r len @ map (\<lambda>b. [b]) (take (unat len) buf)) (f1\<lparr>k_data := d\<rparr>)"
    using s2 sim lr fits src by (intro kfifo_stored_append [OF s1 _ sh]) auto
  have "\<not> unat len + r > unat (kfifo_unused f)" using fits by (simp add: unat_kfifo_unused [OF wf])
  then have "kfifo_in_r f buf len r = Some (len, f1\<lparr>k_data := d, k_in := k_in f + (len + of_nat r)\<rparr>)"
    unfolding kfifo_in_r_def using f1 d sim by simp
  moreover have "of_nat (length (rec_header r len @ map (\<lambda>b. [b]) (take (unat len) buf))) = len + of_nat r"
    using src lr by simp
  ultimately show ?thesis
    using that kfifo_commit [OF wf st] fits src lr sim e by (simp del: of_nat_add)
qed

lemma kfifo_elem_contents: "i < kfifo_count f \<Longrightarrow> kfifo_elem f (k_out f + of_nat i) = kfifo_contents f ! i"
  by (simp add: kfifo_contents_def)

lemma kfifo_peek_byte_spec:
  assumes sh: "kfifo_shape f" and e: "k_esize f = 1" and b: "kfifo_elem f p = [b]"
  shows "kfifo_peek_byte f p = Some (ucast b)"
proof -
  define i where "i = unat (p AND k_mask f)"
  have "take 1 (drop i (k_data f)) = [b]"
    using b e by (simp add: kfifo_elem_def i_def)
  then have "i < length (k_data f)" "k_data f ! i = b"
    by (cases "i < length (k_data f)"; simp add: take_Suc_conv_app_nth hd_drop_conv_nth take_Suc)+
  then show ?thesis by (simp add: kfifo_peek_byte_def i_def)
qed

lemma bit_below:
  assumes "unat (n :: u32) < 2 ^ k" and "bit n j"
  shows "j < k"
proof (rule ccontr)
  assume "\<not> j < k"
  then have "unat n < 2 ^ j" using less_le_trans [OF assms(1) power_increasing [of k j "2::nat"]] by simp
  moreover have "bit (unat n) j" using assms(2) bit_imp_le_length [OF assms(2)] by (simp add: bit_unsigned_iff)
  ultimately show False by (simp add: bit_iff_odd)
qed

lemma header_byte: "unat (n :: u32) < 2 ^ 8 \<Longrightarrow> ucast (ucast n :: byte) = n"
  by (rule bit_word_eqI) (auto simp: bit_unsigned_iff dest: bit_below [of n 8, simplified])

lemma header_bytes:
  assumes "unat (n :: u32) < 2 ^ 16"
  shows "ucast (ucast n :: byte) OR push_bit 8 (ucast (ucast (drop_bit 8 n) :: byte)) = n"
proof (rule bit_word_eqI)
  fix i assume "i < LENGTH(32)"
  then show "bit (ucast (ucast n :: byte) OR push_bit 8 (ucast (ucast (drop_bit 8 n) :: byte)) :: u32) i = bit n i"
    using bit_below [OF assms, of i]
    by (cases "i < 8") (auto simp: bit_or_iff bit_push_bit_iff bit_unsigned_iff bit_drop_bit_eq)
qed

lemma kfifo_peek_n_spec:
  assumes sh: "kfifo_shape f" and e: "k_esize f = 1" and r: "r \<in> {1, 2}"
    and c: "kfifo_contents f = rec_header r n @ rest" and n: "unat n < 2 ^ (8 * r)"
  shows "kfifo_peek_n f r = Some n"
proof -
  have cnt: "r \<le> kfifo_count f"
    using arg_cong [OF c, of length] by (simp add: rec_header_def)
  have el: "kfifo_elem f (k_out f + of_nat i) = [ucast (drop_bit (8 * i) n)]" if "i < r" for i
    using that cnt c by (simp add: kfifo_elem_contents rec_header_def nth_append)
  have b0: "kfifo_peek_byte f (k_out f) = Some (ucast (ucast n :: byte))"
    using el [of 0] r by (intro kfifo_peek_byte_spec [OF sh e]) auto
  show ?thesis
  proof (cases "r = 1")
    case True
    then have "ucast (ucast n :: byte) = n"
      using n by (intro header_byte) simp
    then show ?thesis using True b0 by (simp add: kfifo_peek_n_def)
  next
    case False
    then have r2: "r = 2" using r by simp
    have "kfifo_peek_byte f (k_out f + 1) = Some (ucast (ucast (drop_bit 8 n) :: byte))"
      using el [of 1] r2 by (intro kfifo_peek_byte_spec [OF sh e]) simp
    then show ?thesis using b0 r2 header_bytes [of n] n by (simp add: kfifo_peek_n_def)
  qed
qed

lemma kfifo_out_r_spec:
  assumes wf: "kfifo_wf f" and e: "k_esize f = 1" and r: "r \<in> {1, 2}"
    and c: "kfifo_contents f = rec_encode r bs @ rest" and n: "length bs < 2 ^ (8 * r)"
  obtains f' where "kfifo_out_r f len r =
      Some (of_nat (min (unat len) (length bs)), take (unat len) bs, f')"
    and "kfifo_wf f'" and "k_esize f' = 1" and "kfifo_contents f' = rest"
proof -
  define k where "k = (of_nat (length bs) :: u32)"
  define f' where "f' = f\<lparr>k_out := k_out f + of_nat (length bs + r)\<rparr>"
  define len' where "len' = (if len > k then k else len)"
  have sh: "kfifo_shape f" and cc: "kfifo_count f \<le> kfifo_cap f" using wf by (simp_all add: kfifo_wf_def)
  have "length bs < 2 ^ 32"
    using n r power_increasing [of "8 * r" 32 "2::nat"] by auto
  then have uk: "unat k = length bs" unfolding k_def by (rule unat_of_nat_u32)
  have cnt: "r + length bs \<le> kfifo_count f"
    using arg_cong [OF c, of length] by (simp add: rec_encode_def rec_header_def)
  have peek: "kfifo_peek_n f r = Some k"
    using c n uk by (intro kfifo_peek_n_spec [OF sh e r]) (simp_all add: rec_encode_def k_def)
  have ul: "unat len' = min (unat len) (length bs)"
    unfolding len'_def by (simp add: word_less_nat_alt uk min_def)
  then have lb: "len' = of_nat (min (unat len) (length bs))" by (simp flip: ul)
  have el: "kfifo_elem f (k_out f + of_nat r + of_nat i) = [bs ! i]" if "i < length bs" for i
  proof -
    have "kfifo_elem f (k_out f + of_nat (r + i)) = [bs ! i]"
      using that cnt c by (subst kfifo_elem_contents) (simp_all add: rec_encode_def rec_header_def nth_append)
    then show ?thesis by (simp add: add.assoc)
  qed
  have "map (\<lambda>i. kfifo_elem f (k_out f + of_nat r + of_nat i)) [0..<unat len'] = map (\<lambda>b. [b]) (take (unat len) bs)"
    by (rule nth_equalityI) (use ul el in auto)
  then have out: "kfifo_copy_out f len' (k_out f + of_nat r) = Some (take (unat len) bs)"
    using kfifo_copy_out_spec [OF sh, of len'] ul cnt cc by simp
  have ne: "k_in f \<noteq> k_out f" using cnt r by (auto simp: kfifo_count_def)
  have "kfifo_out_r f len r = Some (of_nat (min (unat len) (length bs)), take (unat len) bs, f')"
    using ne peek out lb by (simp add: kfifo_out_r_def kfifo_out_copy_r_def f'_def flip: len'_def)
      (simp add: k_def)
  moreover have "kfifo_contents f' = rest" "kfifo_wf f'"
    using kfifo_advance_out [OF wf, of "length bs + r"] cnt c
    by (simp_all add: f'_def rec_encode_def rec_header_def)
  moreover have "k_esize f' = 1" using e by (simp add: f'_def)
  ultimately show ?thesis by (intro that)
qed

section \<open>Powers of two\<close>

text \<open>
  The shift-and-or cascade of both rounding functions: after the step of width \<open>w\<close>, bit \<open>i\<close> is set
  iff one of the bits \<open>i .. i + 2 * w - 1\<close> of the argument is.
\<close>

definition smeared :: "u32 \<Rightarrow> nat \<Rightarrow> u32 \<Rightarrow> bool" where
  "smeared n w v \<longleftrightarrow> (\<forall>i. bit v i \<longleftrightarrow> (\<exists>j\<in>{i..<i + w}. bit n j))"

definition smear :: "u32 \<Rightarrow> u32" where
  "smear n0 =
     (let n = n0 OR drop_bit 1 n0;
          n = n OR drop_bit 2 n;
          n = n OR drop_bit 4 n;
          n = n OR drop_bit 8 n
      in n OR drop_bit 16 n)"

lemma smeared_init: "smeared n 1 n"
  by (auto simp: smeared_def le_less_Suc_eq)

lemma smeared_step:
  assumes "smeared n w v" shows "smeared n (2 * w) (v OR drop_bit w v)"
proof -
  have "{i..<i + 2 * w} = {i..<i + w} \<union> {i + w..<i + w + w}" for i
    by auto
  then show ?thesis
    using assms by (simp add: smeared_def bit_or_iff bit_drop_bit_eq bex_Un add.commute)
qed

lemma smear_bits: "bit (smear n) i \<longleftrightarrow> (\<exists>j. i \<le> j \<and> bit n j)"
proof -
  have "smeared n 32 (smear n)"
    using smeared_init [of n, THEN smeared_step, THEN smeared_step, THEN smeared_step,
      THEN smeared_step, THEN smeared_step] by (simp add: smear_def Let_def)
  moreover have "j < i + 32" if "bit n j" for j
    using bit_imp_le_length [OF that] by simp
  ultimately show ?thesis by (auto simp: smeared_def)
qed

lemma smear_mask:
  assumes lo: "2 ^ k \<le> unat n" and hi: "unat n < 2 ^ Suc k"
  shows "smear n = mask (Suc k)"
proof (rule bit_word_eqI)
  fix i assume "i < LENGTH(32)"
  have "bit n j \<longleftrightarrow> bit (unat n) j" for j
    by (simp add: bit_unsigned_iff)
  then have bo: "bit n j \<longleftrightarrow> odd (unat n div 2 ^ j)" for j
    by (simp only: bit_iff_odd)
  moreover have "unat n div 2 ^ k = 1"
    by (rule div_nat_eqI) (use lo hi in simp_all)
  moreover have "unat n div 2 ^ j = 0" if "k < j" for j
    using hi power_increasing [of "Suc k" j "2::nat"] that by simp
  ultimately have b: "bit n k" "\<And>j. bit n j \<Longrightarrow> j \<le> k"
    unfolding bo by (simp, metis even_zero leI)
  then have "bit (smear n) i \<longleftrightarrow> i \<le> k"
    by (metis le_trans smear_bits)
  then show "bit (smear n) i \<longleftrightarrow> bit (mask (Suc k) :: u32) i"
    using bit_imp_le_length [OF b(1)] by (auto simp: bit_mask_iff less_Suc_eq_le)
qed

lemma smear_zero: "smear 0 = 0"
  by (simp add: smear_def)

lemma rounddown_smear: "rounddown_pow_of_two n = drop_bit 1 (smear n + 1)"
  by (simp only: rounddown_pow_of_two_def smear_def Let_def)

lemma roundup_smear: "roundup_pow_of_two n = smear (n - 1) + 1"
  by (simp only: roundup_pow_of_two_def smear_def Let_def)

lemma mask_plus_one: "mask k + 1 = (2 ^ k :: u32)"
  by (simp add: mask_eq_exp_minus_1)

lemma rounddown_pow_of_two_correct:
  assumes "k < 31" and "2 ^ k \<le> unat n" and "unat n < 2 ^ Suc k"
  shows "rounddown_pow_of_two n = 2 ^ k"
proof -
  have "rounddown_pow_of_two n = drop_bit 1 (2 ^ Suc k)"
    using assms(2,3) by (simp only: rounddown_smear smear_mask mask_plus_one)
  also have "\<dots> = 2 ^ k"
    using assms(1) by (intro bit_word_eqI) (auto simp: bit_drop_bit_eq bit_exp_iff simp del: power_Suc)
  finally show ?thesis .
qed

lemma rounddown_pow_of_two_overflow:
  assumes "2 ^ 31 \<le> unat n"
  shows "rounddown_pow_of_two n = 0"
proof -
  have "unat n < 2 ^ Suc 31" using unsigned_less [of n] by simp
  with assms have "smear n = mask (Suc 31)" by (intro smear_mask)
  then show ?thesis by (simp add: rounddown_smear mask_plus_one)
qed

lemma roundup_pow_of_two_correct:
  assumes "2 ^ k < unat n" and "unat n \<le> 2 ^ Suc k"
  shows "roundup_pow_of_two n = 2 ^ Suc k"
proof -
  have "unat (n - 1) = unat n - 1"
    using assms(1) by (subst unat_sub_le) auto
  then have "2 ^ k \<le> unat (n - 1)" "unat (n - 1) < 2 ^ Suc k" using assms by auto
  then show ?thesis by (simp only: roundup_smear smear_mask mask_plus_one)
qed

section \<open>The contract offered to clients\<close>

definition kfifo_bytes :: "kfifo \<Rightarrow> byte list" where
  "kfifo_bytes f = concat (kfifo_contents f)"

definition kfifo_room :: "kfifo \<Rightarrow> nat" where
  "kfifo_room f = kfifo_cap f - kfifo_count f"

definition kfifo_byte_wf :: "kfifo \<Rightarrow> bool" where
  "kfifo_byte_wf f \<longleftrightarrow> kfifo_wf f \<and> k_esize f = 1"

lemma concat_singletons: "\<forall>x\<in>set xs. length x = 1 \<Longrightarrow> map (\<lambda>b. [b]) (concat xs) = xs"
  by (induction xs) (auto simp: length_Suc_conv)

lemma kfifo_contents_singletons:
  assumes "kfifo_byte_wf f"
  shows "kfifo_contents f = map (\<lambda>b. [b]) (kfifo_bytes f)"
proof -
  have "\<forall>x\<in>set (kfifo_contents f). length x = 1"
    using assms kfifo_elem_length [of f] by (auto simp: kfifo_byte_wf_def kfifo_wf_def kfifo_contents_def)
  then show ?thesis by (simp only: kfifo_bytes_def concat_singletons)
qed

lemma length_kfifo_bytes: "kfifo_byte_wf f \<Longrightarrow> length (kfifo_bytes f) = kfifo_count f"
  by (metis kfifo_contents_singletons length_kfifo_contents length_map)

lemma kfifo_put_law:
  assumes wf: "kfifo_byte_wf f" and room: "unat n \<le> kfifo_room f" and src: "unat n \<le> length buf"
  shows "\<exists>f'. kfifo_put f buf n 0 = Some (n, f') \<and> kfifo_byte_wf f' \<and>
    kfifo_bytes f' = kfifo_bytes f @ take (unat n) buf \<and> kfifo_room f' + unat n = kfifo_room f"
proof -
  have m: "unat n = min (unat n) (kfifo_cap f - kfifo_count f)"
    using room by (simp add: kfifo_room_def)
  have wf': "kfifo_wf f" and e: "unat (k_esize f) = 1" using wf by (simp_all add: kfifo_byte_wf_def)
  obtain f' where f': "kfifo_in_raw f buf n = Some (of_nat (unat n), f')" "kfifo_wf f'"
    "kfifo_contents f' = kfifo_contents f @ elems_of (unat (k_esize f)) (unat n) buf"
    "kfifo_cap f' = kfifo_cap f" "k_esize f' = k_esize f"
    using kfifo_in_raw_spec [OF wf' m, of buf] src e by auto
  have "kfifo_count f' = kfifo_count f + unat n"
    using arg_cong [OF f'(3), of length] by simp
  moreover have "kfifo_bytes f' = kfifo_bytes f @ take (unat n) buf"
    using f'(3) src e by (simp add: kfifo_bytes_def concat_elems_of)
  ultimately show ?thesis
    using f' wf room by (simp add: kfifo_put_def kfifo_byte_wf_def kfifo_room_def)
qed

lemma kfifo_take_bytes:
  assumes "kfifo_byte_wf f"
  shows "concat (take n (kfifo_contents f)) = take n (kfifo_bytes f)"
    and "concat (drop n (kfifo_contents f)) = drop n (kfifo_bytes f)"
  by (simp_all add: kfifo_contents_singletons [OF assms] take_map drop_map)

lemma kfifo_peek_law:
  assumes wf: "kfifo_byte_wf f" and n: "unat n \<le> length (kfifo_bytes f)"
  shows "kfifo_out_peek f n 0 = Some (n, take (unat n) (kfifo_bytes f))"
proof -
  have m: "unat n = min (unat n) (kfifo_count f)" using n length_kfifo_bytes [OF wf] by simp
  show ?thesis
    using kfifo_out_peek_raw_spec [OF _ m] wf kfifo_take_bytes [OF wf]
    by (simp add: kfifo_out_peek_def kfifo_byte_wf_def)
qed

lemma kfifo_get_law:
  assumes wf: "kfifo_byte_wf f" and n: "unat n \<le> length (kfifo_bytes f)"
  shows "kfifo_get f n 0 = Some (n, take (unat n) (kfifo_bytes f), kfifo_skip_n f n)"
proof -
  have m: "unat n = min (unat n) (kfifo_count f)" using n length_kfifo_bytes [OF wf] by simp
  show ?thesis
    using kfifo_out_raw_spec [OF _ m] wf kfifo_take_bytes [OF wf]
    by (simp add: kfifo_get_def kfifo_byte_wf_def kfifo_skip_n_def)
qed

lemma kfifo_skip_law:
  assumes wf: "kfifo_byte_wf f" and n: "unat n \<le> length (kfifo_bytes f)"
  shows "kfifo_byte_wf (kfifo_skip_n f n)"
    and "kfifo_bytes (kfifo_skip_n f n) = drop (unat n) (kfifo_bytes f)"
    and "kfifo_room (kfifo_skip_n f n) = kfifo_room f + unat n"
proof -
  have m: "unat n \<le> kfifo_count f" using n length_kfifo_bytes [OF wf] by simp
  have w: "kfifo_wf f" using wf by (simp add: kfifo_byte_wf_def)
  note adv = kfifo_advance_out [OF w m]
  show *: "kfifo_byte_wf (kfifo_skip_n f n)"
    using adv(1) wf by (simp add: kfifo_byte_wf_def kfifo_skip_n_def)
  show b: "kfifo_bytes (kfifo_skip_n f n) = drop (unat n) (kfifo_bytes f)"
    using adv(2) kfifo_take_bytes(2) [OF wf] by (simp add: kfifo_bytes_def kfifo_skip_n_def)
  have "kfifo_count (kfifo_skip_n f n) = kfifo_count f - unat n"
    using b length_kfifo_bytes [OF *] length_kfifo_bytes [OF wf] by simp
  moreover have "kfifo_cap (kfifo_skip_n f n) = kfifo_cap f"
    by (simp add: kfifo_cap_def kfifo_skip_n_def)
  ultimately show "kfifo_room (kfifo_skip_n f n) = kfifo_room f + unat n"
    using m w by (simp add: kfifo_room_def kfifo_wf_def)
qed

interpretation kf: byte_fifo kfifo_byte_wf kfifo_bytes kfifo_room
  "\<lambda>f buf n. kfifo_put f buf n 0" "\<lambda>f n. kfifo_get f n 0" "\<lambda>f n. kfifo_out_peek f n 0" kfifo_skip_n
  by unfold_locales (simp_all add: kfifo_put_law kfifo_get_law kfifo_peek_law kfifo_skip_law)

section \<open>Operation sequences\<close>

text \<open>
  A client of an element fifo as a sequence of calls.  \<open>kfifo_run\<close> executes it on the C structure and
  collects what every call returns; \<open>queue_run\<close> is the same sequence on a plain list of at most
  \<open>cap\<close> elements.
\<close>

datatype kop = KIn "byte list" u32 | KOut u32 | KPeek u32 | KReset | KResetOut

fun kfifo_step :: "kop \<Rightarrow> kfifo \<Rightarrow> (u32 \<times> byte list \<times> kfifo) option" where
  "kfifo_step (KIn buf n) f = map_option (\<lambda>(r, f'). (r, [], f')) (kfifo_put f buf n 0)"
| "kfifo_step (KOut n) f = kfifo_get f n 0"
| "kfifo_step (KPeek n) f = map_option (\<lambda>(r, d). (r, d, f)) (kfifo_out_peek f n 0)"
| "kfifo_step KReset f = Some (0, [], kfifo_reset f)"
| "kfifo_step KResetOut f = Some (0, [], kfifo_reset_out f)"

fun kfifo_run :: "kop list \<Rightarrow> kfifo \<Rightarrow> ((u32 \<times> byte list) list \<times> kfifo) option" where
  "kfifo_run [] f = Some ([], f)"
| "kfifo_run (c # cs) f =
     do {
       (r, d, f1) \<leftarrow> kfifo_step c f;
       (rs, f2) \<leftarrow> kfifo_run cs f1;
       Some ((r, d) # rs, f2)
     }"

fun queue_step :: "nat \<Rightarrow> nat \<Rightarrow> kop \<Rightarrow> byte list list \<Rightarrow> u32 \<times> byte list \<times> byte list list" where
  "queue_step cap e (KIn buf n) q =
     (let m = min (unat n) (cap - length q) in (of_nat m, [], q @ elems_of e m buf))"
| "queue_step cap e (KOut n) q =
     (let m = min (unat n) (length q) in (of_nat m, concat (take m q), drop m q))"
| "queue_step cap e (KPeek n) q =
     (let m = min (unat n) (length q) in (of_nat m, concat (take m q), q))"
| "queue_step cap e KReset q = (0, [], [])"
| "queue_step cap e KResetOut q = (0, [], [])"

fun queue_run :: "nat \<Rightarrow> nat \<Rightarrow> kop list \<Rightarrow> byte list list \<Rightarrow> (u32 \<times> byte list) list \<times> byte list list" where
  "queue_run cap e [] q = ([], q)"
| "queue_run cap e (c # cs) q =
     (let (r, d, q1) = queue_step cap e c q; (rs, q2) = queue_run cap e cs q1 in ((r, d) # rs, q2))"

fun kop_ok :: "nat \<Rightarrow> kop \<Rightarrow> bool" where
  "kop_ok e (KIn buf n) \<longleftrightarrow> unat n * e \<le> length buf"
| "kop_ok e c \<longleftrightarrow> True"

lemma kfifo_step_simulation:
  assumes wf: "kfifo_wf f" and ok: "kop_ok (unat (k_esize f)) c"
  shows "\<exists>r d f'. kfifo_step c f = Some (r, d, f') \<and> kfifo_wf f' \<and> k_esize f' = k_esize f \<and>
    kfifo_cap f' = kfifo_cap f \<and>
    queue_step (kfifo_cap f) (unat (k_esize f)) c (kfifo_contents f) = (r, d, kfifo_contents f')"
proof (cases c)
  case (KIn buf n)
  define m where "m = min (unat n) (kfifo_cap f - kfifo_count f)"
  have "m * unat (k_esize f) \<le> unat n * unat (k_esize f)" unfolding m_def by (intro mult_le_mono1) simp
  also have "\<dots> \<le> length buf" using ok KIn by simp
  finally have "m * unat (k_esize f) \<le> length buf" .
  from kfifo_in_raw_spec [OF wf m_def this] obtain f' where
    "kfifo_in_raw f buf n = Some (of_nat m, f')" "kfifo_wf f'" "k_esize f' = k_esize f" "kfifo_cap f' = kfifo_cap f"
    "kfifo_contents f' = kfifo_contents f @ elems_of (unat (k_esize f)) m buf" by metis
  then show ?thesis using KIn by (simp add: kfifo_put_def Let_def flip: m_def)
next
  case (KOut n)
  define m where "m = min (unat n) (kfifo_count f)"
  have "m \<le> kfifo_count f" by (simp add: m_def)
  from kfifo_advance_out [OF wf this] kfifo_out_raw_spec [OF wf m_def] show ?thesis
    using KOut by (simp add: kfifo_get_def Let_def kfifo_cap_def flip: m_def)
next
  case (KPeek n)
  then show ?thesis using wf kfifo_out_peek_raw_spec [OF wf refl, of n]
    by (simp add: kfifo_out_peek_def Let_def)
qed (use wf in \<open>simp_all add: kfifo_reset_def kfifo_reset_out_def kfifo_wf_def kfifo_shape_def
       kfifo_cap_def kfifo_count_def kfifo_contents_def\<close>)

lemma kfifo_run_simulation:
  "kfifo_wf f \<Longrightarrow> list_all (kop_ok (unat (k_esize f))) cs \<Longrightarrow>
   \<exists>rs f'. kfifo_run cs f = Some (rs, f') \<and> kfifo_wf f' \<and>
     queue_run (kfifo_cap f) (unat (k_esize f)) cs (kfifo_contents f) = (rs, kfifo_contents f')"
proof (induction cs arbitrary: f)
  case (Cons c cs)
  obtain r d f1 where 1: "kfifo_step c f = Some (r, d, f1)" "kfifo_wf f1" "k_esize f1 = k_esize f"
    "kfifo_cap f1 = kfifo_cap f"
    "queue_step (kfifo_cap f) (unat (k_esize f)) c (kfifo_contents f) = (r, d, kfifo_contents f1)"
    using kfifo_step_simulation [of f c] Cons.prems by auto
  then show ?case using Cons.IH [of f1] Cons.prems by auto
qed simp

lemma INIT_KFIFO_wf:
  assumes k: "0 < k" "k < 32" and e: "0 < e" and len: "length buf = 2 ^ k * e" "length buf < 2 ^ 32"
  shows "kfifo_wf (INIT_KFIFO (2 ^ k) e buf)" and "kfifo_contents (INIT_KFIFO (2 ^ k) e buf) = []"
    and "kfifo_cap (INIT_KFIFO (2 ^ k) e buf) = 2 ^ k" and "unat (k_esize (INIT_KFIFO (2 ^ k) e buf)) = e"
proof -
  let ?f = "INIT_KFIFO (2 ^ k) e buf"
  have m: "k_mask ?f = mask k" by (simp add: INIT_KFIFO_def mask_eq_exp_minus_1)
  show c: "kfifo_cap ?f = 2 ^ k" using k unat_mask_word [of k, where 'a = 32] by (simp add: kfifo_cap_def m)
  have "1 * e \<le> 2 ^ k * e" by (intro mult_le_mono1) simp
  then have "e < 2 ^ 32" using len by linarith
  then show u: "unat (k_esize ?f) = e" by (simp only: INIT_KFIFO_def unat_of_nat_u32 kfifo.select_convs)
  have "k_data ?f = buf" by (simp add: INIT_KFIFO_def)
  then show "kfifo_wf ?f"
    unfolding kfifo_wf_def kfifo_shape_def c u m using k e len by (auto simp: kfifo_count_def INIT_KFIFO_def)
  show "kfifo_contents ?f = []" by (simp add: kfifo_contents_def kfifo_count_def INIT_KFIFO_def)
qed

lemma kfifo_init_raw_spec:
  assumes e: "0 < unat esize" "unat esize < 2 ^ 32" and len: "length buffer = unat sz"
    and q: "2 ^ k \<le> unat sz div unat esize" "unat sz div unat esize < 2 ^ Suc k" and k: "0 < k" "k < 31"
  shows "kfifo_init_raw buffer sz esize =
    Some (0, \<lparr>k_in = 0, k_out = 0, k_mask = mask k, k_esize = ucast esize, k_data = buffer\<rparr>)"
proof -
  define n where "n = (ucast ((ucast sz :: u64) div esize) :: u32)"
  have "unat sz < 4294967296" using unat_bound [of sz] by simp
  then have "unat sz < 18446744073709551616" "unat sz div unat esize < 4294967296"
    using div_le_dividend [of "unat sz" "unat esize"] by linarith+
  then have un: "unat n = unat sz div unat esize"
    by (simp add: n_def unat_ucast unat_div)
  have rd: "rounddown_pow_of_two n = 2 ^ k"
    using q k by (intro rounddown_pow_of_two_correct) (simp_all add: un)
  have "(2::nat) ^ k < 2 ^ 32" using k by (intro power_strict_increasing) simp_all
  from unat_of_nat_u32 [OF this] have u2: "unat (2 ^ k :: u32) = 2 ^ k" by simp
  have "2 ^ 1 \<le> (2::nat) ^ k" using k by (intro power_increasing) auto
  then have "\<not> (2 ^ k :: u32) < 2" by (simp add: word_less_nat_alt u2)
  then show ?thesis
    using e rd by (auto simp: kfifo_init_raw_def mask_eq_exp_minus_1 unat_eq_0 simp flip: n_def)
qed

lemma kfifo_wfI:
  assumes "k_mask f = mask k" and "0 < k" and "k < 32" and "0 < unat (k_esize f)"
    and "2 ^ k * unat (k_esize f) \<le> length (k_data f)" and "length (k_data f) < 2 ^ 32"
    and "kfifo_count f \<le> 2 ^ k"
  shows "kfifo_wf f"
proof -
  have "kfifo_cap f = 2 ^ k"
    using assms unat_mask_word [of k, where 'a = 32] by (simp add: kfifo_cap_def)
  then show ?thesis using assms by (auto simp: kfifo_wf_def kfifo_shape_def)
qed

section \<open>Properties\<close>

text \<open>
  C2.  Refinement of a bounded queue.  From any well-formed state, including states whose
  free-running counters are about to wrap around \<open>2 ^ 32\<close>, every sequence of \<open>kfifo_in\<close>,
  \<open>kfifo_out\<close>, \<open>kfifo_out_peek\<close>, \<open>kfifo_reset\<close> and \<open>kfifo_reset_out\<close> calls whose source buffers
  hold the elements they announce runs without leaving the array, keeps the invariant, and returns
  exactly what the same calls return on a list of at most \<open>kfifo_cap\<close> elements.
\<close>

theorem kfifo_refines_queue:
  assumes "kfifo_wf f" and "list_all (kop_ok (unat (k_esize f))) cs"
  shows "\<exists>rs f'. kfifo_run cs f = Some (rs, f') \<and> kfifo_wf f' \<and>
    queue_run (kfifo_cap f) (unat (k_esize f)) cs (kfifo_contents f) = (rs, kfifo_contents f')"
  using assms by (rule kfifo_run_simulation)

definition kfifo_sample :: kfifo where
  "kfifo_sample = \<lparr>k_in = 0xFFFFFFFE, k_out = 0xFFFFFFFD, k_mask = 3, k_esize = 2,
     k_data = [1, 2, 3, 4, 5, 6, 7, 8]\<rparr>"

theorem kfifo_refines_queue_witness:
  "\<exists>rs f'. kfifo_run [KIn [9, 10, 11, 12, 13, 14] 3, KPeek 2, KOut 9] kfifo_sample = Some (rs, f') \<and>
     kfifo_wf f' \<and>
     queue_run (kfifo_cap kfifo_sample) (unat (k_esize kfifo_sample))
       [KIn [9, 10, 11, 12, 13, 14] 3, KPeek 2, KOut 9] (kfifo_contents kfifo_sample) =
     (rs, kfifo_contents f')"
proof -
  have "kfifo_wf kfifo_sample"
    by (rule kfifo_wfI [of _ 2]) (simp_all add: kfifo_sample_def kfifo_count_def mask_eq_exp_minus_1)
  moreover have "list_all (kop_ok (unat (k_esize kfifo_sample)))
      [KIn [9, 10, 11, 12, 13, 14] 3, KPeek 2, KOut 9]" by (simp add: kfifo_sample_def)
  ultimately show ?thesis by (rule kfifo_refines_queue)
qed

text \<open>
  C25.  Record mode.  A fifo that holds the records \<open>recs\<close> accepts a further record exactly when its
  bytes and its length field fit, and then holds \<open>recs @ [bs]\<close>, otherwise it is unchanged; reading
  returns the oldest record, cut to the size of the caller's buffer, and removes it whole.
\<close>

theorem kfifo_record_mode:
  assumes "rec_queue r f recs" and "r \<in> {1, 2}" and "length bs < 2 ^ (8 * r)"
  shows "(\<exists>f'. kfifo_put f bs (of_nat (length bs)) r =
        Some (if length bs + r \<le> kfifo_room f then of_nat (length bs) else 0, f') \<and>
      rec_queue r f' (if length bs + r \<le> kfifo_room f then recs @ [bs] else recs)) \<and>
    (\<exists>f'. kfifo_get f n r =
        Some (case recs of [] \<Rightarrow> (0, [], f')
              | x # _ \<Rightarrow> (of_nat (min (unat n) (length x)), take (unat n) x, f')) \<and>
      rec_queue r f' (tl recs))"
proof -
  have wf: "kfifo_wf f" and e: "k_esize f = 1" and c: "kfifo_contents f = concat (map (rec_encode r) recs)"
    and small: "\<forall>x\<in>set recs. length x < 2 ^ (8 * r)"
    using assms by (simp_all add: rec_queue_def)
  have "(2::nat) ^ (8 * r) < 2 ^ 32" using assms(2) by (intro power_strict_increasing) auto
  then have u: "unat (of_nat (length bs) :: u32) = length bs" using assms(3) by (intro unat_of_nat_u32) linarith
  have r0: "r \<noteq> 0" using assms(2) by auto
  show ?thesis
  proof (intro conjI)
    show "\<exists>f'. kfifo_put f bs (of_nat (length bs)) r =
        Some (if length bs + r \<le> kfifo_room f then of_nat (length bs) else 0, f') \<and>
      rec_queue r f' (if length bs + r \<le> kfifo_room f then recs @ [bs] else recs)"
    proof (cases "length bs + r \<le> kfifo_room f")
      case True
      then obtain f' where "kfifo_in_r f bs (of_nat (length bs)) r = Some (of_nat (length bs), f')"
        "kfifo_wf f'" "k_esize f' = 1" "kfifo_contents f' = kfifo_contents f @ rec_encode r bs"
        using kfifo_in_r_spec [OF wf e assms(2), of "of_nat (length bs)" bs]
        by (auto simp: u kfifo_room_def rec_encode_def)
      then show ?thesis using True r0 c small assms(3) by (simp add: kfifo_put_def rec_queue_def)
    next
      case False
      then show ?thesis
        using assms(1) r0 unat_kfifo_unused [OF wf] u by (simp add: kfifo_put_def kfifo_in_r_def kfifo_room_def)
    qed
    show "\<exists>f'. kfifo_get f n r =
        Some (case recs of [] \<Rightarrow> (0, [], f')
              | x # _ \<Rightarrow> (of_nat (min (unat n) (length x)), take (unat n) x, f')) \<and>
      rec_queue r f' (tl recs)"
    proof (cases recs)
      case Nil
      then have "kfifo_count f = 0" using c by (metis concat.simps(1) length_kfifo_contents list.size(3) list.simps(8))
      then have "k_in f = k_out f" by (simp add: kfifo_count_def unat_eq_0)
      then show ?thesis using Nil assms(1) r0 by (simp add: kfifo_get_def kfifo_out_r_def)
    next
      case (Cons x xs)
      then show ?thesis
        using kfifo_out_r_spec [OF wf e assms(2), of x "concat (map (rec_encode r) xs)" n] c small r0
        by (auto simp: kfifo_get_def rec_queue_def)
    qed
  qed
qed

definition kfifo_record_sample :: kfifo where
  "kfifo_record_sample = \<lparr>k_in = 1, k_out = 0xFFFFFFFE, k_mask = 7, k_esize = 1,
     k_data = [44, 0, 0, 0, 0, 0, 2, 33]\<rparr>"

theorem kfifo_record_mode_witness:
  "\<exists>f'. kfifo_get kfifo_record_sample 10 1 = Some (2, [33, 44], f') \<and> rec_queue 1 f' []"
proof -
  have "kfifo_wf kfifo_record_sample"
    by (rule kfifo_wfI [of _ 3]) (simp_all add: kfifo_record_sample_def kfifo_count_def mask_eq_exp_minus_1)
  moreover have "kfifo_contents kfifo_record_sample = [[2], [33], [44]]"
    by (simp add: kfifo_contents_def kfifo_count_def kfifo_elem_def kfifo_record_sample_def upt_rec)
  ultimately have q: "rec_queue 1 kfifo_record_sample [[33, 44]]"
    by (simp add: rec_queue_def rec_encode_def rec_header_def kfifo_record_sample_def)
  show ?thesis
    using kfifo_record_mode [OF q, of "[5]" 10] by simp
qed

text \<open>
   Initialisation with a caller-supplied buffer of \<open>sz\<close> bytes.  When \<open>sz div esize\<close> lies in
  \<open>2 ^ k .. 2 ^ Suc k - 1\<close> for \<open>0 < k < 31\<close>, \<open>__kfifo_init\<close> returns 0 and an empty well-formed
  fifo of \<open>2 ^ k\<close> elements: the size is rounded \<^emph>\<open>down\<close> to a power of two.
\<close>

theorem kfifo_init_rounds_down:
  assumes "0 < unat esize" and "unat esize < 2 ^ 32" and "length buffer = unat sz"
    and "2 ^ k \<le> unat sz div unat esize" and "unat sz div unat esize < 2 ^ Suc k"
    and "0 < k" and "k < 31"
  shows "\<exists>f. kfifo_init True buffer sz esize = Some (0, Some f) \<and> kfifo_wf f \<and>
    kfifo_contents f = [] \<and> kfifo_cap f = 2 ^ k \<and> k_data f = buffer"
proof -
  let ?f = "\<lparr>k_in = 0, k_out = 0, k_mask = mask k, k_esize = ucast esize, k_data = buffer\<rparr>"
  have c: "kfifo_cap ?f = 2 ^ k"
    using assms unat_mask_word [of k, where 'a = 32] by (simp add: kfifo_cap_def)
  have ue: "unat (ucast esize :: u32) = unat esize" using assms(2) by (simp add: unat_ucast)
  have "2 ^ k * unat esize \<le> (unat sz div unat esize) * unat esize" using assms(4) by (rule mult_le_mono1)
  also have "\<dots> \<le> unat sz" by simp
  finally have "2 ^ k * unat esize \<le> length buffer" using assms(3) by simp
  moreover have "length buffer < 2 ^ 32" using unat_bound [of sz] assms(3) by simp
  ultimately have "kfifo_wf ?f"
    unfolding kfifo_wf_def kfifo_shape_def c using assms(1,6,7) ue by (auto simp: kfifo_count_def)
  then show ?thesis
    using kfifo_init_raw_spec [OF assms] c
    by (simp add: kfifo_init_def kfifo_contents_def kfifo_count_def)
qed

theorem kfifo_init_rounds_down_witness:
  "\<exists>f. kfifo_init True (replicate 13 0) 13 2 = Some (0, Some f) \<and> kfifo_wf f \<and>
    kfifo_contents f = [] \<and> kfifo_cap f = 2 ^ 2 \<and> k_data f = replicate 13 0"
  by (rule kfifo_init_rounds_down) simp_all

end
