(* ===== verification/C_String.thy ===== *)
theory C_String
  imports Prelude
begin

text \<open>
  NUL-terminated strings in byte arrays, as the C library functions used by the logger and the
  timer service treat them.  \<open>c_str s\<close> is the string that starts at the beginning of the array
  \<open>s\<close>, so \<open>strlen\<close> is its length.
\<close>

definition c_str :: "byte list \<Rightarrow> byte list" where
  "c_str s = takeWhile (\<lambda>b. b \<noteq> 0) s"

definition c_strncpy :: "byte list \<Rightarrow> byte list \<Rightarrow> nat \<Rightarrow> byte list option" where
  "c_strncpy dest src n = mem_write dest 0 (take n (c_str src @ replicate n 0))"

definition mem_set :: "byte list \<Rightarrow> nat \<Rightarrow> byte \<Rightarrow> byte list option" where
  "mem_set dest i b = (if i < length dest then Some (dest[i := b]) else None)"

lemma c_str_take_nul: "0 \<notin> set s \<Longrightarrow> c_str (s @ 0 # t) = s"
  by (simp add: c_str_def takeWhile_append)

lemma c_str_no_nul: "0 \<notin> set (c_str s)"
  by (auto simp: c_str_def dest: set_takeWhileD)

text \<open>What an array holds after \<open>strncpy(dest, src, n); dest[n] = 0\<close>.\<close>

lemma strncpy_terminated:
  assumes "n < length dest"
  obtains d where "c_strncpy dest src n = Some d" and "length d = length dest"
    and "mem_set d n 0 = Some (take n (c_str src @ replicate n 0) @ 0 # drop (Suc n) dest)"
proof -
  define s where "s = take n (c_str src @ replicate n 0)"
  have l: "length s = n" by (simp add: s_def)
  let ?d = "s @ drop n dest"
  have "c_strncpy dest src n = Some ?d"
    unfolding c_strncpy_def mem_write_def s_def [symmetric] using assms by (simp add: l)
  moreover have "length ?d = length dest" using assms l by simp
  moreover have "mem_set ?d n 0 = Some (s @ 0 # drop (Suc n) dest)"
  proof -
    have "drop n dest = dest ! n # drop (Suc n) dest" using assms by (simp add: Cons_nth_drop_Suc)
    then have "?d[n := 0] = s @ 0 # drop (Suc n) dest"
      using l by (simp only: list_update_append) simp
    then show ?thesis using assms l by (simp add: mem_set_def)
  qed
  ultimately show ?thesis unfolding s_def by (rule that)
qed

lemma c_str_cut: "c_str (take n (c_str src @ replicate n 0) @ 0 # t) = take n (c_str src)"
proof (cases "n \<le> length (c_str src)")
  case True
  have "0 \<notin> set (take n (c_str src))" using c_str_no_nul in_set_takeD by metis
  then show ?thesis using True by (simp add: c_str_take_nul)
next
  case False
  then obtain k where k: "n - length (c_str src) = Suc k" by (metis Suc_diff_Suc not_le)
  have "take n (c_str src @ replicate n 0) = c_str src @ 0 # replicate k 0"
    using False k by (simp add: take_replicate min_absorb1)
  then show ?thesis using False by (simp add: c_str_take_nul c_str_no_nul)
qed

lemma c_str_append_nul: "c_str (s @ 0 # t) = c_str s"
  by (induction s) (simp_all add: c_str_def)

lemma c_str_take [simp]: "c_str (take n (c_str s)) = take n (c_str s)"
proof -
  have "\<forall>b\<in>set (take n (c_str s)). b \<noteq> 0" using c_str_no_nul in_set_takeD by metis
  then show ?thesis unfolding c_str_def [of "take n (c_str s)"] takeWhile_eq_all_conv .
qed

end
