(* ===== verification/Buffer_Log.thy ===== *)
theory Buffer_Log
  imports Kfifo C_String
begin

text \<open>
  The asynchronous logger of \<open>src/common/log/bufferlog.h\<close> and \<open>bufferlog.cpp\<close>.  The logic thread
  writes a fixed-size block followed by the formatted text into the kfifo; the log thread reads
  the block, checks its tokens, reads the text and hands both to spdlog.  What spdlog and
  \<open>gettimeofday\<close> do is visible as an effect list and as arguments.
\<close>

section \<open>Little-endian images of the fields\<close>

definition le_enc :: "nat \<Rightarrow> 'a::len word \<Rightarrow> byte list" where
  "le_enc n w = map (\<lambda>i. ucast (drop_bit (8 * i) w)) [0..<n]"

fun le_dec :: "byte list \<Rightarrow> 'a::len word" where
  "le_dec [] = 0"
| "le_dec (b # bs) = ucast b OR push_bit 8 (le_dec bs)"

section \<open>The log block\<close>

definition BUFFER_LOG_BLOCK_MAX_SIZE :: nat where
  "BUFFER_LOG_BLOCK_MAX_SIZE = 1024 * 1024"

definition BUFFER_LOG_SPACE_SIZE :: nat where
  "BUFFER_LOG_SPACE_SIZE = 256 * 1024 * 1024"

definition BUFFER_LOG_FILE_FUNC_MAX_LENGTH :: nat where
  "BUFFER_LOG_FILE_FUNC_MAX_LENGTH = 128"

definition E_BUFFER_LOG_CMD_NULL :: u32 where "E_BUFFER_LOG_CMD_NULL = 0"
definition E_BUFFER_LOG_CMD_LOG :: u32 where "E_BUFFER_LOG_CMD_LOG = 1"
definition E_BUFFER_LOG_TOKEN_START :: u64 where "E_BUFFER_LOG_TOKEN_START = 0x123456789"
definition E_BUFFER_LOG_TOKEN_END :: u64 where "E_BUFFER_LOG_TOKEN_END = 0xfedcba987"

definition E_BUFFER_LOG_TYPE_CRITICAL :: u32 where
  "E_BUFFER_LOG_TYPE_CRITICAL = 6"

record ST_SrcLocation =
  sl_iLine :: u32
  sl_pchFileName :: "byte list"
  sl_pchFuncName :: "byte list"

record ST_BufferLogBlock =
  m_iLogCmd :: u32
  m_iLogType :: u32
  m_iMsgLen :: u32
  m_ullStartToken :: u64
  m_ullEndToken :: u64
  tv_sec :: u64
  tv_usec :: u64
  m_iLine :: u32
  m_chFileName :: "byte list"
  m_chFuncName :: "byte list"

definition block_zero :: ST_BufferLogBlock where
  "block_zero = \<lparr>m_iLogCmd = 0, m_iLogType = 0, m_iMsgLen = 0, m_ullStartToken = 0,
     m_ullEndToken = 0, tv_sec = 0, tv_usec = 0, m_iLine = 0,
     m_chFileName = replicate BUFFER_LOG_FILE_FUNC_MAX_LENGTH 0,
     m_chFuncName = replicate BUFFER_LOG_FILE_FUNC_MAX_LENGTH 0\<rparr>"

text \<open>
  The memory image of the block under the x86-64 ABI: 312 bytes, with four bytes of padding after
  \<open>m_iMsgLen\<close> and four at the end, which stay zero since the constructor clears the object.
\<close>

definition SIZEOF_BLOCK :: nat where
  "SIZEOF_BLOCK = 312"

definition block_image :: "ST_BufferLogBlock \<Rightarrow> byte list" where
  "block_image b =
     le_enc 4 (m_iLogCmd b) @ le_enc 4 (m_iLogType b) @ le_enc 4 (m_iMsgLen b) @ replicate 4 0 @
     le_enc 8 (m_ullStartToken b) @ le_enc 8 (m_ullEndToken b) @
     le_enc 8 (tv_sec b) @ le_enc 8 (tv_usec b) @ le_enc 4 (m_iLine b) @
     m_chFileName b @ m_chFuncName b @ replicate 4 0"

definition block_of_image :: "byte list \<Rightarrow> ST_BufferLogBlock" where
  "block_of_image d =
     \<lparr>m_iLogCmd = le_dec (take 4 d), m_iLogType = le_dec (take 4 (drop 4 d)),
      m_iMsgLen = le_dec (take 4 (drop 8 d)), m_ullStartToken = le_dec (take 8 (drop 16 d)),
      m_ullEndToken = le_dec (take 8 (drop 24 d)), tv_sec = le_dec (take 8 (drop 32 d)),
      tv_usec = le_dec (take 8 (drop 40 d)), m_iLine = le_dec (take 4 (drop 48 d)),
      m_chFileName = take 128 (drop 52 d), m_chFuncName = take 128 (drop 180 d)\<rparr>"

definition COPY_STRING_TO_ARRAY :: "byte list \<Rightarrow> byte list \<Rightarrow> byte list option" where
  "COPY_STRING_TO_ARRAY dest src =
     (let iStrLen = (of_nat (length (c_str src)) :: u32);
          n = (if unat iStrLen \<ge> length dest then length dest - 1 else unat iStrLen)
      in do { d \<leftarrow> c_strncpy dest src n; mem_set d n 0 })"

definition block_construct ::
    "ST_BufferLogBlock \<Rightarrow> ST_SrcLocation \<Rightarrow> u32 \<Rightarrow> u32 \<Rightarrow> u32 \<Rightarrow> u64 \<times> u64 \<Rightarrow> ST_BufferLogBlock option" where
  "block_construct b loc iLogCmd iLogType iMsgLen now =
     do {
       file \<leftarrow> COPY_STRING_TO_ARRAY (m_chFileName b) (sl_pchFileName loc);
       func \<leftarrow> COPY_STRING_TO_ARRAY (m_chFuncName b) (sl_pchFuncName loc);
       Some \<lparr>m_iLogCmd = iLogCmd, m_iLogType = iLogType, m_iMsgLen = iMsgLen,
         m_ullStartToken = E_BUFFER_LOG_TOKEN_START, m_ullEndToken = E_BUFFER_LOG_TOKEN_END,
         tv_sec = fst now, tv_usec = snd now, m_iLine = sl_iLine loc,
         m_chFileName = file, m_chFuncName = func\<rparr>
     }"

section \<open>The logger\<close>

text \<open>
  \<open>SpdLoc\<close> and \<open>SpdPlain\<close> are calls of spdlog with and without source location; \<open>SpdFatal\<close> the
  logger's own complaints; \<open>ExitProcess\<close> the \<open>exit(2)\<close> after a critical message.
\<close>

datatype log_effect =
    SpdLoc u32 u32 "byte list" "byte list" "byte list"
  | SpdPlain u32 "byte list"
  | SpdFatal
  | ExitProcess
  | SleepMicro nat

record BufferLogKFiFo =
  m_bInited :: bool
  m_stThreadID :: nat
  g_stKFiFo :: kfifo
  chTempBuffer :: "byte list"
  stBufferLogBlock :: ST_BufferLogBlock

definition DoLogLoc :: "u32 \<Rightarrow> u32 \<Rightarrow> byte list \<Rightarrow> byte list \<Rightarrow> byte list \<Rightarrow> log_effect list" where
  "DoLogLoc iLogType iLine file func str =
     (if iLogType = E_BUFFER_LOG_TYPE_CRITICAL
      then [SpdLoc 5 iLine (c_str file) (c_str func) (c_str str), ExitProcess]
      else [SpdLoc iLogType iLine (c_str file) (c_str func) (c_str str)])"

definition DoLogPlain :: "u32 \<Rightarrow> byte list \<Rightarrow> log_effect list" where
  "DoLogPlain iLogType str = [SpdPlain iLogType (c_str str)]"

text \<open>
  \<open>kfifo_avail(...) > m_iMsgLen + sizeof(...)\<close> is evaluated in 64 bits: the signed length is
  widened to \<open>size_t\<close> before the addition.
\<close>

definition DoKFiFoPushMsg ::
    "BufferLogKFiFo \<Rightarrow> ST_BufferLogBlock \<Rightarrow> byte list \<Rightarrow> (log_effect list \<times> BufferLogKFiFo) option" where
  "DoKFiFoPushMsg s blk msg =
     (if \<not> m_bInited s then Some (DoLogPlain (m_iLogType blk) msg, s)
      else if sint (m_iMsgLen blk) > 0 then
        do {
          avail \<leftarrow> kfifo_avail (g_stKFiFo s) 0;
          if (ucast avail :: u64) > scast (m_iMsgLen blk) + of_nat SIZEOF_BLOCK then
            do {
              (_, f1) \<leftarrow> kfifo_put (g_stKFiFo s) (block_image blk) (of_nat SIZEOF_BLOCK) 0;
              (_, f2) \<leftarrow> kfifo_put f1 msg (m_iMsgLen blk) 0;
              Some ([], s\<lparr>g_stKFiFo := f2\<rparr>)
            }
          else Some ([SpdFatal], s)
        }
      else Some ([], s))"

definition BufferLog_Log ::
    "BufferLogKFiFo \<Rightarrow> ST_SrcLocation \<Rightarrow> u32 \<Rightarrow> byte list \<Rightarrow> u64 \<times> u64 \<Rightarrow>
     (log_effect list \<times> BufferLogKFiFo) option" where
  "BufferLog_Log s loc iLogType sLog now =
     (let iSize0 = (of_nat (length sLog) :: u32);
          iSize = (if (scast iSize0 :: u64) \<ge> of_nat (length (chTempBuffer s))
                   then of_nat (length (chTempBuffer s) - 1) else iSize0)
      in do {
           b1 \<leftarrow> c_strncpy (chTempBuffer s) sLog (unat iSize);
           b2 \<leftarrow> mem_set b1 (unat iSize) 0;
           blk \<leftarrow> block_construct (stBufferLogBlock s) loc E_BUFFER_LOG_CMD_LOG iLogType iSize now;
           DoKFiFoPushMsg (s\<lparr>chTempBuffer := b2, stBufferLogBlock := blk\<rparr>) blk b2
         })"

text \<open>
  Reading one message.  The result is the C return value, the block and the text buffer of the
  caller, the fifo and the effects.  \<open>(uint32_t)m_iMsgLen < 0\<close> is never true.
\<close>

definition DoKFiFoPopMsg ::
    "kfifo \<Rightarrow> ST_BufferLogBlock \<Rightarrow> byte list \<Rightarrow>
     (int \<times> ST_BufferLogBlock \<times> byte list \<times> kfifo \<times> log_effect list) option" where
  "DoKFiFoPopMsg f blk0 buf =
     (if unat (kfifo_len f) < SIZEOF_BLOCK then Some (0, blk0, buf, f, [])
      else do {
        (_, d) \<leftarrow> kfifo_out_peek f (of_nat SIZEOF_BLOCK) 0;
        let blk = block_of_image d;
        if m_ullStartToken blk \<noteq> E_BUFFER_LOG_TOKEN_START \<or>
           m_ullEndToken blk \<noteq> E_BUFFER_LOG_TOKEN_END \<or>
           sint (m_iMsgLen blk) \<ge> int BUFFER_LOG_BLOCK_MAX_SIZE
        then Some (-1, blk, buf, kfifo_reset_out f, [SpdFatal])
        else if kfifo_len f < ucast (scast (m_iMsgLen blk) + of_nat SIZEOF_BLOCK :: u64)
        then Some (0, blk, buf, f, [])
        else let f1 = kfifo_skip_n f (of_nat SIZEOF_BLOCK)
             in if m_iLogCmd blk = E_BUFFER_LOG_CMD_LOG
                then do {
                  (_, t, f2) \<leftarrow> kfifo_get f1 (m_iMsgLen blk) 0;
                  b1 \<leftarrow> mem_write buf 0 t;
                  b2 \<leftarrow> (if sint (m_iMsgLen blk) < 0 then None else mem_set b1 (unat (m_iMsgLen blk)) 0);
                  Some (sint (m_iMsgLen blk), blk, b2, f2, [])
                }
                else Some (sint (m_iMsgLen blk), blk, buf, f1, [])
      })"

text \<open>
  One round of the endless loop of \<open>DoDumpLogToDisk\<close>: the loop's variables are \<open>stBufferLogBlock\<close>,
  \<open>chTempRecvBuffer\<close> and \<open>iThreadIdleCnt\<close>.
\<close>

record dump_locals =
  d_block :: ST_BufferLogBlock
  d_recv :: "byte list"
  d_idle :: nat

definition DoDumpLog_round ::
    "kfifo \<Rightarrow> dump_locals \<Rightarrow> (log_effect list \<times> kfifo \<times> dump_locals) option" where
  "DoDumpLog_round f l =
     do {
       (iRet, blk, buf, f1, eff) \<leftarrow> DoKFiFoPopMsg f (d_block l) (d_recv l);
       let l1 = l\<lparr>d_block := blk, d_recv := buf\<rparr>;
       if iRet < 0 then Some (eff @ [SpdFatal], f1, l1)
       else if iRet = 0 then
         (let idle = d_idle l + 1
          in if idle > 10 then Some (eff @ [SleepMicro 10], f1, l1\<lparr>d_idle := 0\<rparr>)
             else Some (eff, f1, l1\<lparr>d_idle := idle\<rparr>))
       else if m_iLogCmd blk = E_BUFFER_LOG_CMD_LOG
       then Some (eff @ DoLogLoc (m_iLogType blk) (m_iLine blk) (m_chFileName blk) (m_chFuncName blk) buf,
                  f1, l1)
       else Some (eff @ [SpdFatal], f1, l1)
     }"

definition BindMainThread :: "BufferLogKFiFo \<Rightarrow> nat \<Rightarrow> BufferLogKFiFo" where
  "BindMainThread s self = s\<lparr>m_stThreadID := self, m_bInited := True\<rparr>"

definition IsMainThread :: "BufferLogKFiFo \<Rightarrow> nat \<Rightarrow> bool" where
  "IsMainThread s self \<longleftrightarrow> m_stThreadID s = self"

text \<open>
  \<open>BUFFERLOG_LOGGER_CALL\<close>: a thread other than the bound one bypasses the ring buffer.
\<close>

definition BUFFERLOG_LOGGER_CALL ::
    "BufferLogKFiFo \<Rightarrow> nat \<Rightarrow> ST_SrcLocation \<Rightarrow> u32 \<Rightarrow> byte list \<Rightarrow> u64 \<times> u64 \<Rightarrow>
     (log_effect list \<times> BufferLogKFiFo) option" where
  "BUFFERLOG_LOGGER_CALL s self loc level text now =
     (if \<not> IsMainThread s self
      then Some (DoLogLoc level (sl_iLine loc) (sl_pchFileName loc) (sl_pchFuncName loc) text, s)
      else BufferLog_Log s loc level text now)"

section \<open>Images and strings\<close>

lemma le_enc_length [simp]: "length (le_enc n w) = n"
  by (simp add: le_enc_def)

lemma le_enc_Suc: "le_enc (Suc n) w = ucast w # le_enc n (drop_bit 8 w)"
  by (simp add: le_enc_def map_upt_Suc ac_simps del: upt_Suc)

lemma le_dec_enc_take: "le_dec (le_enc n w) = take_bit (8 * n) w"
proof (induction n arbitrary: w)
  case 0
  show ?case by (simp add: le_enc_def)
next
  case (Suc n)
  show ?case
    unfolding le_enc_Suc le_dec.simps Suc
    by (rule bit_word_eqI) (auto simp: bit_or_iff bit_push_bit_iff bit_unsigned_iff bit_take_bit_iff bit_drop_bit_eq)
qed

lemma le_dec_enc [simp]: "le_dec (le_enc 4 w) = (w :: u32)" "le_dec (le_enc 8 v) = (v :: u64)"
  by (simp_all add: le_dec_enc_take take_bit_word_eq_self)

lemma block_image_length:
  "length (m_chFileName b) = 128 \<Longrightarrow> length (m_chFuncName b) = 128 \<Longrightarrow> length (block_image b) = SIZEOF_BLOCK"
  by (simp add: block_image_def SIZEOF_BLOCK_def)

lemma block_of_image_inverse:
  assumes "length (m_chFileName b) = 128" and "length (m_chFuncName b) = 128"
  shows "block_of_image (block_image b) = b"
  using assms by (simp add: block_image_def block_of_image_def)

lemma COPY_STRING_TO_ARRAY_spec:
  assumes "length src < 2 ^ 32" and "0 < length dest"
  obtains d where "COPY_STRING_TO_ARRAY dest src = Some d" and "length d = length dest"
    and "c_str d = take (length dest - 1) (c_str src)"
proof -
  define n where "n = min (length (c_str src)) (length dest - 1)"
  have "length (c_str src) < 2 ^ 32"
    using assms(1) length_takeWhile_le [of "\<lambda>b. b \<noteq> 0" src] by (simp add: c_str_def)
  then have u: "unat (of_nat (length (c_str src)) :: u32) = length (c_str src)" by (rule unat_of_nat_u32)
  have n: "(if length (c_str src) \<ge> length dest then length dest - 1 else length (c_str src)) = n"
    using assms(2) by (auto simp: n_def)
  have "n < length dest" using assms(2) by (cases dest) (auto simp: n_def)
  then obtain d where d: "c_strncpy dest src n = Some d"
    "mem_set d n 0 = Some (take n (c_str src @ replicate n 0) @ 0 # drop (Suc n) dest)"
    using strncpy_terminated by blast
  show ?thesis
  proof (rule that)
    show "COPY_STRING_TO_ARRAY dest src = Some (take n (c_str src @ replicate n 0) @ 0 # drop (Suc n) dest)"
      unfolding COPY_STRING_TO_ARRAY_def Let_def u n using d by simp
    show "length (take n (c_str src @ replicate n 0) @ 0 # drop (Suc n) dest) = length dest"
      using \<open>n < length dest\<close> by simp
    show "c_str (take n (c_str src @ replicate n 0) @ 0 # drop (Suc n) dest) = take (length dest - 1) (c_str src)"
      unfolding c_str_cut n_def by (simp add: min_def)
  qed
qed

section \<open>Frames in the ring buffer\<close>

type_synonym frame = "ST_BufferLogBlock \<times> byte list"

definition frame_bytes :: "frame \<Rightarrow> byte list" where
  "frame_bytes fr = block_image (fst fr) @ snd fr"

definition block_ok :: "ST_BufferLogBlock \<Rightarrow> bool" where
  "block_ok b \<longleftrightarrow> length (m_chFileName b) = 128 \<and> length (m_chFuncName b) = 128 \<and>
     m_ullStartToken b = E_BUFFER_LOG_TOKEN_START \<and> m_ullEndToken b = E_BUFFER_LOG_TOKEN_END \<and>
     m_iLogCmd b = E_BUFFER_LOG_CMD_LOG"

definition frame_ok :: "frame \<Rightarrow> bool" where
  "frame_ok fr \<longleftrightarrow> block_ok (fst fr) \<and> m_iMsgLen (fst fr) = of_nat (length (snd fr)) \<and>
     0 < length (snd fr) \<and> length (snd fr) < BUFFER_LOG_BLOCK_MAX_SIZE"

definition log_queue :: "kfifo \<Rightarrow> frame list \<Rightarrow> bool" where
  "log_queue f q \<longleftrightarrow> kfifo_byte_wf f \<and> kfifo_bytes f = concat (map frame_bytes q) \<and> list_all frame_ok q"

lemma frame_bytes_length: "block_ok (fst fr) \<Longrightarrow> length (frame_bytes fr) = SIZEOF_BLOCK + length (snd fr)"
  by (simp add: frame_bytes_def block_ok_def block_image_length)

lemma msg_len_values:
  assumes "l < BUFFER_LOG_BLOCK_MAX_SIZE"
  shows "unat (of_nat l :: u32) = l" and "sint (of_nat l :: u32) = int l"
    and "(scast (of_nat l :: u32) :: u64) = of_nat l"
    and "unat (scast (of_nat l :: u32) + of_nat SIZEOF_BLOCK :: u64) = l + SIZEOF_BLOCK"
    and "unat (ucast (scast (of_nat l :: u32) + of_nat SIZEOF_BLOCK :: u64) :: u32) = l + SIZEOF_BLOCK"
proof -
  have l: "l < 1048576" using assms by (simp add: BUFFER_LOG_BLOCK_MAX_SIZE_def)
  then show u: "unat (of_nat l :: u32) = l" by (intro unat_of_nat_u32) simp
  show s: "sint (of_nat l :: u32) = int l"
  proof -
    have "sint (of_nat l :: u32) = signed_take_bit 31 (int l)" by (simp add: signed_of_nat)
    also have "\<dots> = int l" by (rule signed_take_bit_int_eq_self) (use l in auto)
    finally show ?thesis .
  qed
  have "(scast (of_nat l :: u32) :: u64) = word_of_int (sint (of_nat l :: u32))"
    by (rule scast_eq)
  then show c: "(scast (of_nat l :: u32) :: u64) = of_nat l" by (simp only: s of_int_of_nat_eq)
  have sum: "scast (of_nat l :: u32) + of_nat SIZEOF_BLOCK = (of_nat (l + SIZEOF_BLOCK) :: u64)"
    by (simp only: c of_nat_add)
  show w: "unat (scast (of_nat l :: u32) + of_nat SIZEOF_BLOCK :: u64) = l + SIZEOF_BLOCK"
    unfolding sum unat_of_nat using l by (simp add: SIZEOF_BLOCK_def)
  show "unat (ucast (scast (of_nat l :: u32) + of_nat SIZEOF_BLOCK :: u64) :: u32) = l + SIZEOF_BLOCK"
    unfolding unat_ucast w using l by (simp add: SIZEOF_BLOCK_def)
qed

lemma kfifo_avail_room: "kfifo_byte_wf f \<Longrightarrow> \<exists>a. kfifo_avail f 0 = Some a \<and> unat a = kfifo_room f"
  using unat_kfifo_unused [of f]
  by (simp add: kfifo_avail_def kfifo_byte_wf_def kfifo_room_def kfifo_unused_def kfifo_size_def kfifo_len_def)

lemma unat_kfifo_len: "kfifo_byte_wf f \<Longrightarrow> unat (kfifo_len f) = length (kfifo_bytes f)"
  by (simp add: length_kfifo_bytes kfifo_len_def kfifo_count_def)

lemma SIZEOF_BLOCK_word: "unat (of_nat SIZEOF_BLOCK :: u32) = SIZEOF_BLOCK"
  by (simp add: SIZEOF_BLOCK_def)

lemma DoKFiFoPushMsg_spec:
  assumes init: "m_bInited s" and q: "log_queue (g_stKFiFo s) q"
    and blk: "block_ok blk" and len: "m_iMsgLen blk = of_nat l" "l < BUFFER_LOG_BLOCK_MAX_SIZE" "l \<le> length msg"
  obtains f' where "DoKFiFoPushMsg s blk msg =
      Some (if 0 < l \<and> kfifo_room (g_stKFiFo s) \<le> SIZEOF_BLOCK + l then [SpdFatal] else [], s\<lparr>g_stKFiFo := f'\<rparr>)"
    and "log_queue f' (if 0 < l \<and> SIZEOF_BLOCK + l < kfifo_room (g_stKFiFo s) then q @ [(blk, take l msg)] else q)"
    and "kfifo_room f' + (if 0 < l \<and> SIZEOF_BLOCK + l < kfifo_room (g_stKFiFo s) then SIZEOF_BLOCK + l else 0) =
         kfifo_room (g_stKFiFo s)"
proof -
  let ?f = "g_stKFiFo s"
  have wf: "kfifo_byte_wf ?f" using q by (simp add: log_queue_def)
  obtain a where a: "kfifo_avail ?f 0 = Some a" "unat a = kfifo_room ?f" using kfifo_avail_room [OF wf] by blast
  have ua: "unat (ucast a :: u64) = unat a" using unat_bound [of a] by (simp add: unat_ucast)
  have cmp: "(ucast a :: u64) > scast (m_iMsgLen blk) + of_nat SIZEOF_BLOCK \<longleftrightarrow> SIZEOF_BLOCK + l < kfifo_room ?f"
    unfolding word_less_nat_alt ua a(2) len(1) msg_len_values(4) [OF len(2)] by (simp add: add.commute)
  have pos: "sint (m_iMsgLen blk) > 0 \<longleftrightarrow> 0 < l" by (simp add: len msg_len_values)
  consider "l = 0" | "0 < l" "SIZEOF_BLOCK + l < kfifo_room ?f" | "0 < l" "\<not> SIZEOF_BLOCK + l < kfifo_room ?f" by blast
  then show ?thesis
  proof cases
    case 2
    have hdr: "unat (of_nat SIZEOF_BLOCK :: u32) = length (block_image blk)"
      using blk by (simp add: block_ok_def block_image_length SIZEOF_BLOCK_word)
    have n: "unat (m_iMsgLen blk) = l" using len by (simp add: msg_len_values)
    obtain f1 f2 where p: "kfifo_put ?f (block_image blk) (of_nat SIZEOF_BLOCK) 0 = Some (of_nat SIZEOF_BLOCK, f1)"
      "kfifo_put f1 msg (m_iMsgLen blk) 0 = Some (m_iMsgLen blk, f2)" "kfifo_byte_wf f2"
      "kfifo_bytes f2 = kfifo_bytes ?f @ block_image blk @ take l msg"
      "kfifo_room f2 + SIZEOF_BLOCK + l = kfifo_room ?f"
      using kf.put_frame [OF wf hdr, of "m_iMsgLen blk" msg] 2 n len SIZEOF_BLOCK_word by auto
    have "DoKFiFoPushMsg s blk msg = Some ([], s\<lparr>g_stKFiFo := f2\<rparr>)"
      using init 2 a cmp pos p by (simp add: DoKFiFoPushMsg_def)
    moreover have "log_queue f2 (q @ [(blk, take l msg)])"
      using q p blk len 2 by (simp add: log_queue_def frame_bytes_def frame_ok_def)
    ultimately show ?thesis using that [of f2] 2 p(5) by simp
  qed (use that [of ?f] init q a cmp pos in \<open>auto simp: DoKFiFoPushMsg_def not_less\<close>)
qed

lemma DoKFiFoPopMsg_spec:
  assumes q: "log_queue f ((blk, msg) # q)" and buf: "length buf = BUFFER_LOG_BLOCK_MAX_SIZE"
  obtains f' buf' where "DoKFiFoPopMsg f blk0 buf = Some (int (length msg), blk, buf', f', [])"
    and "log_queue f' q" and "length buf' = BUFFER_LOG_BLOCK_MAX_SIZE" and "c_str buf' = c_str msg"
    and "kfifo_room f' = kfifo_room f + SIZEOF_BLOCK + length msg"
proof -
  define h where "h = (of_nat SIZEOF_BLOCK :: u32)"
  define n where "n = m_iMsgLen blk"
  have wf: "kfifo_byte_wf f" and ok: "frame_ok (blk, msg)" and qs: "list_all frame_ok q"
    and bytes: "kfifo_bytes f = block_image blk @ msg @ concat (map frame_bytes q)"
    using q by (simp_all add: log_queue_def frame_bytes_def)
  have bok: "block_ok blk" and n_len: "n = of_nat (length msg)" and ml: "length msg < BUFFER_LOG_BLOCK_MAX_SIZE"
    using ok by (simp_all add: frame_ok_def n_def)
  note vals = msg_len_values [OF ml, folded n_len]
  have uh: "unat h = length (block_image blk)" "unat h = SIZEOF_BLOCK"
    using bok by (simp_all add: block_ok_def block_image_length SIZEOF_BLOCK_word h_def)
  note fr = kf.get_frame [OF wf uh(1) vals(1) bytes]
  define f' where "f' = kfifo_skip_n (kfifo_skip_n f h) n"
  have len: "unat (kfifo_len f) \<ge> SIZEOF_BLOCK + length msg"
    using unat_kfifo_len [OF wf] bytes uh by simp
  have inv: "block_of_image (block_image blk) = blk"
    using bok by (simp add: block_ok_def block_of_image_inverse)
  have small: "\<not> sint n \<ge> int BUFFER_LOG_BLOCK_MAX_SIZE" using ml vals(2) by simp
  have full: "\<not> kfifo_len f < ucast (scast n + of_nat SIZEOF_BLOCK :: u64)"
    unfolding word_less_nat_alt vals(5) using len by simp
  define b1 where "b1 = msg @ drop (length msg) buf"
  have w: "mem_write buf 0 msg = Some b1" using ml buf by (simp add: mem_write_def b1_def)
  have lb: "length b1 = BUFFER_LOG_BLOCK_MAX_SIZE" using ml buf by (simp add: b1_def)
  have s: "mem_set b1 (length msg) 0 = Some (b1[length msg := 0])" using ml lb by (simp add: mem_set_def)
  have "DoKFiFoPopMsg f blk0 buf = Some (int (length msg), blk, b1[length msg := 0], f', [])"
    unfolding DoKFiFoPopMsg_def h_def [symmetric] f'_def
    using len small full bok fr(1,2) inv w s vals(1,2)
    by (simp add: block_ok_def Let_def flip: n_def)
  moreover have "log_queue f' q" using fr(3,4) qs by (simp add: log_queue_def f'_def)
  moreover have "c_str (b1[length msg := 0]) = c_str msg"
  proof -
    have "drop (length msg) buf = buf ! length msg # drop (Suc (length msg)) buf"
      using ml buf by (simp add: Cons_nth_drop_Suc)
    then have "b1[length msg := 0] = msg @ 0 # drop (Suc (length msg)) buf" by (simp add: b1_def)
    then show ?thesis by (simp add: c_str_append_nul)
  qed
  moreover have "kfifo_room f' = kfifo_room f + SIZEOF_BLOCK + length msg"
    using fr(5) uh(2) vals(1) by (simp add: f'_def)
  ultimately show ?thesis using that lb by simp
qed

lemma DoKFiFoPopMsg_empty:
  assumes "log_queue f []" shows "DoKFiFoPopMsg f blk buf = Some (0, blk, buf, f, [])"
  using assms unat_kfifo_len [of f] by (simp add: log_queue_def DoKFiFoPopMsg_def SIZEOF_BLOCK_def)

text \<open>
  The text of a call as it is queued: at most \<open>BUFFER_LOG_BLOCK_MAX_SIZE - 1\<close> bytes of it, padded
  with zeros from its first NUL on (\<open>strncpy\<close>).
\<close>

definition log_text :: "byte list \<Rightarrow> byte list" where
  "log_text t = (let n = min (length t) (BUFFER_LOG_BLOCK_MAX_SIZE - 1) in take n (c_str t @ replicate n 0))"

lemma length_log_text: "length (log_text t) = min (length t) (BUFFER_LOG_BLOCK_MAX_SIZE - 1)"
  by (simp only: log_text_def Let_def length_take length_append length_replicate)

lemma c_str_log_text: "c_str (log_text t) = take (BUFFER_LOG_BLOCK_MAX_SIZE - 1) (c_str t)"
proof -
  define n where "n = min (length t) (BUFFER_LOG_BLOCK_MAX_SIZE - 1)"
  have lt: "log_text t = take n (c_str t @ replicate n 0)" by (simp only: log_text_def Let_def n_def)
  have "c_str (log_text t) = c_str (log_text t @ 0 # [])" by (rule c_str_append_nul [symmetric])
  also have "\<dots> = take n (c_str t)" unfolding lt by (rule c_str_cut)
  also have "\<dots> = take (BUFFER_LOG_BLOCK_MAX_SIZE - 1) (c_str t)"
  proof -
    have "length (c_str t) \<le> length t" unfolding c_str_def by (rule length_takeWhile_le)
    then show ?thesis unfolding n_def by (cases "length t \<le> BUFFER_LOG_BLOCK_MAX_SIZE - 1") (simp_all add: min_def)
  qed
  finally show ?thesis .
qed

definition log_state_ok :: "BufferLogKFiFo \<Rightarrow> bool" where
  "log_state_ok s \<longleftrightarrow> m_bInited s \<and> length (chTempBuffer s) = BUFFER_LOG_BLOCK_MAX_SIZE \<and>
     length (m_chFileName (stBufferLogBlock s)) = 128 \<and> length (m_chFuncName (stBufferLogBlock s)) = 128"

definition location_ok :: "ST_SrcLocation \<Rightarrow> bool" where
  "location_ok loc \<longleftrightarrow> length (sl_pchFileName loc) < 2 ^ 32 \<and> length (sl_pchFuncName loc) < 2 ^ 32"

text \<open>The line that spdlog finally prints for a call.\<close>

definition log_line :: "ST_SrcLocation \<Rightarrow> u32 \<Rightarrow> byte list \<Rightarrow> log_effect list" where
  "log_line loc ty t =
     DoLogLoc ty (sl_iLine loc) (take 127 (c_str (sl_pchFileName loc)))
       (take 127 (c_str (sl_pchFuncName loc))) (take (BUFFER_LOG_BLOCK_MAX_SIZE - 1) (c_str t))"

definition frame_line :: "frame \<Rightarrow> log_effect list" where
  "frame_line fr = DoLogLoc (m_iLogType (fst fr)) (m_iLine (fst fr)) (m_chFileName (fst fr))
     (m_chFuncName (fst fr)) (snd fr)"

definition entry :: "frame \<Rightarrow> nat \<times> log_effect list" where
  "entry fr = (length (snd fr), frame_line fr)"

lemma BufferLog_Log_size:
  assumes "length t < 2 ^ 31"
  shows "(if (scast (of_nat (length t) :: u32) :: u64) \<ge> of_nat BUFFER_LOG_BLOCK_MAX_SIZE
          then of_nat (BUFFER_LOG_BLOCK_MAX_SIZE - 1) else of_nat (length t)) =
         (of_nat (min (length t) (BUFFER_LOG_BLOCK_MAX_SIZE - 1)) :: u32)"
proof -
  have "sint (of_nat (length t) :: u32) = signed_take_bit 31 (int (length t))" by (simp add: signed_of_nat)
  also have "\<dots> = int (length t)" by (rule signed_take_bit_int_eq_self) (use assms in auto)
  finally have s: "sint (of_nat (length t) :: u32) = int (length t)" .
  have "(scast (of_nat (length t) :: u32) :: u64) = word_of_int (sint (of_nat (length t) :: u32))"
    by (rule scast_eq)
  then have c: "(scast (of_nat (length t) :: u32) :: u64) = of_nat (length t)"
    by (simp only: s of_int_of_nat_eq)
  have "unat (of_nat (length t) :: u64) = length t" unfolding unat_of_nat using assms by simp
  then have "(scast (of_nat (length t) :: u32) :: u64) \<ge> of_nat BUFFER_LOG_BLOCK_MAX_SIZE \<longleftrightarrow>
      BUFFER_LOG_BLOCK_MAX_SIZE \<le> length t"
    unfolding c word_le_nat_alt by (simp add: BUFFER_LOG_BLOCK_MAX_SIZE_def)
  then show ?thesis by (auto simp: BUFFER_LOG_BLOCK_MAX_SIZE_def min_def)
qed

lemma block_construct_spec:
  assumes "length (m_chFileName b) = 128" and "length (m_chFuncName b) = 128" and "location_ok loc"
  obtains blk where "block_construct b loc E_BUFFER_LOG_CMD_LOG ty n now = Some blk"
    and "block_ok blk" and "m_iMsgLen blk = n" and "m_iLogType blk = ty" and "m_iLine blk = sl_iLine loc"
    and "c_str (m_chFileName blk) = take 127 (c_str (sl_pchFileName loc))"
    and "c_str (m_chFuncName blk) = take 127 (c_str (sl_pchFuncName loc))"
proof -
  have l: "length (sl_pchFileName loc) < 2 ^ 32" "length (sl_pchFuncName loc) < 2 ^ 32"
    using assms(3) by (simp_all add: location_ok_def)
  have p: "0 < length (m_chFileName b)" "0 < length (m_chFuncName b)" using assms by simp_all
  obtain fl where "COPY_STRING_TO_ARRAY (m_chFileName b) (sl_pchFileName loc) = Some fl"
    "length fl = 128" "c_str fl = take 127 (c_str (sl_pchFileName loc))"
    using COPY_STRING_TO_ARRAY_spec [OF l(1) p(1)] assms(1) by auto
  moreover obtain func where "COPY_STRING_TO_ARRAY (m_chFuncName b) (sl_pchFuncName loc) = Some func"
    "length func = 128" "c_str func = take 127 (c_str (sl_pchFuncName loc))"
    using COPY_STRING_TO_ARRAY_spec [OF l(2) p(2)] assms(2) by auto
  ultimately show ?thesis
    using that by (simp add: block_construct_def block_ok_def)
qed

lemma BufferLog_Log_spec:
  assumes ok: "log_state_ok s" and loc: "location_ok loc" and t: "length t < 2 ^ 31"
    and q: "log_queue (g_stKFiFo s) q"
  defines "l \<equiv> min (length t) (BUFFER_LOG_BLOCK_MAX_SIZE - 1)" and "r \<equiv> kfifo_room (g_stKFiFo s)"
  obtains s' q' where "BufferLog_Log s loc ty t now =
      Some (if 0 < l \<and> r \<le> SIZEOF_BLOCK + l then [SpdFatal] else [], s')"
    and "log_state_ok s'" and "log_queue (g_stKFiFo s') q'"
    and "map entry q' = map entry q @ (if 0 < l \<and> SIZEOF_BLOCK + l < r then [(l, log_line loc ty t)] else [])"
    and "kfifo_room (g_stKFiFo s') + (if 0 < l \<and> SIZEOF_BLOCK + l < r then SIZEOF_BLOCK + l else 0) = r"
proof -
  have init: "m_bInited s" and lb: "length (chTempBuffer s) = BUFFER_LOG_BLOCK_MAX_SIZE"
    and names: "length (m_chFileName (stBufferLogBlock s)) = 128" "length (m_chFuncName (stBufferLogBlock s)) = 128"
    using ok by (simp_all add: log_state_ok_def)
  have lM: "l < BUFFER_LOG_BLOCK_MAX_SIZE" by (simp add: l_def BUFFER_LOG_BLOCK_MAX_SIZE_def)
  note size = BufferLog_Log_size [OF t, folded l_def]
  have ul: "unat (of_nat l :: u32) = l" using msg_len_values(1) [OF lM] .
  have "l < length (chTempBuffer s)" using lM lb by simp
  then obtain b1 where b1: "c_strncpy (chTempBuffer s) t l = Some b1"
    "mem_set b1 l 0 = Some (take l (c_str t @ replicate l 0) @ 0 # drop (Suc l) (chTempBuffer s))"
    by (rule strncpy_terminated)
  define b2 where "b2 = take l (c_str t @ replicate l 0) @ 0 # drop (Suc l) (chTempBuffer s)"
  have b2: "take l b2 = log_text t" "length b2 = BUFFER_LOG_BLOCK_MAX_SIZE"
    using lM lb unfolding b2_def log_text_def Let_def l_def [symmetric]
    by (simp_all only: take_append length_take length_append length_replicate length_Cons length_drop) simp_all
  obtain blk where blk: "block_construct (stBufferLogBlock s) loc E_BUFFER_LOG_CMD_LOG ty (of_nat l) now = Some blk"
    "block_ok blk" "m_iMsgLen blk = of_nat l" "m_iLogType blk = ty" "m_iLine blk = sl_iLine loc"
    "c_str (m_chFileName blk) = take 127 (c_str (sl_pchFileName loc))"
    "c_str (m_chFuncName blk) = take 127 (c_str (sl_pchFuncName loc))"
    using block_construct_spec [OF names loc] by metis
  define s1 where "s1 = s\<lparr>chTempBuffer := b2, stBufferLogBlock := blk\<rparr>"
  have s1: "m_bInited s1" "log_queue (g_stKFiFo s1) q" "g_stKFiFo s1 = g_stKFiFo s" using init q by (simp_all add: s1_def)
  have "l \<le> length b2" using lM b2 by simp
  from DoKFiFoPushMsg_spec [OF s1(1,2) blk(2,3) lM this]
  obtain f' where push: "DoKFiFoPushMsg s1 blk b2 =
      Some (if 0 < l \<and> r \<le> SIZEOF_BLOCK + l then [SpdFatal] else [], s1\<lparr>g_stKFiFo := f'\<rparr>)"
    and q': "log_queue f' (if 0 < l \<and> SIZEOF_BLOCK + l < r then q @ [(blk, take l b2)] else q)"
    and room: "kfifo_room f' + (if 0 < l \<and> SIZEOF_BLOCK + l < r then SIZEOF_BLOCK + l else 0) = r"
    unfolding s1(3) r_def by metis
  have eq: "BufferLog_Log s loc ty t now = DoKFiFoPushMsg s1 blk b2"
    unfolding BufferLog_Log_def Let_def lb size ul using b1 blk(1) by (simp add: b2_def s1_def)
  have ent: "entry (blk, take l b2) = (l, log_line loc ty t)"
    unfolding b2(1) by (simp add: entry_def frame_line_def log_line_def DoLogLoc_def blk c_str_log_text
        length_log_text l_def)
  have ok': "log_state_ok (s1\<lparr>g_stKFiFo := f'\<rparr>)"
    using init b2 blk(2) by (simp add: log_state_ok_def s1_def block_ok_def)
  show ?thesis
    by (rule that [of "s1\<lparr>g_stKFiFo := f'\<rparr>" "if 0 < l \<and> SIZEOF_BLOCK + l < r then q @ [(blk, take l b2)] else q"])
      (use eq push q' room ent ok' in auto)
qed

section \<open>The two threads together\<close>

text \<open>
  The logic thread's \<open>Log\<close> calls and the rounds of the log thread, in any order.  \<open>pipe_run\<close> executes
  them on the ring buffer; \<open>spec_run\<close> on a plain queue of finished lines with a byte budget.
\<close>

datatype log_op = LogCall ST_SrcLocation u32 "byte list" "u64 \<times> u64" | DumpRound

fun pipe_step :: "log_op \<Rightarrow> BufferLogKFiFo \<times> dump_locals \<Rightarrow>
    (log_effect list \<times> BufferLogKFiFo \<times> dump_locals) option" where
  "pipe_step (LogCall loc ty t now) (s, l) =
     map_option (\<lambda>(eff, s'). (eff, s', l)) (BufferLog_Log s loc ty t now)"
| "pipe_step DumpRound (s, l) =
     map_option (\<lambda>(eff, f', l'). (eff, s\<lparr>g_stKFiFo := f'\<rparr>, l')) (DoDumpLog_round (g_stKFiFo s) l)"

fun pipe_run :: "log_op list \<Rightarrow> BufferLogKFiFo \<times> dump_locals \<Rightarrow>
    (log_effect list \<times> BufferLogKFiFo \<times> dump_locals) option" where
  "pipe_run [] st = Some ([], st)"
| "pipe_run (c # cs) st =
     do {
       (eff, st1) \<leftarrow> pipe_step c st;
       (effs, st2) \<leftarrow> pipe_run cs st1;
       Some (eff @ effs, st2)
     }"

type_synonym spec_state = "nat \<times> (nat \<times> log_effect list) list \<times> nat"

fun spec_step :: "log_op \<Rightarrow> spec_state \<Rightarrow> log_effect list \<times> spec_state" where
  "spec_step (LogCall loc ty t now) (room, q, idle) =
     (let l = min (length t) (BUFFER_LOG_BLOCK_MAX_SIZE - 1)
      in if l = 0 then ([], room, q, idle)
         else if SIZEOF_BLOCK + l < room
         then ([], room - (SIZEOF_BLOCK + l), q @ [(l, log_line loc ty t)], idle)
         else ([SpdFatal], room, q, idle))"
| "spec_step DumpRound (room, [], idle) =
     (if idle + 1 > 10 then ([SleepMicro 10], room, [], 0) else ([], room, [], idle + 1))"
| "spec_step DumpRound (room, (l, line) # q, idle) = (line, room + SIZEOF_BLOCK + l, q, idle)"

fun spec_run :: "log_op list \<Rightarrow> spec_state \<Rightarrow> log_effect list \<times> spec_state" where
  "spec_run [] st = ([], st)"
| "spec_run (c # cs) st =
     (let (eff, st1) = spec_step c st; (effs, st2) = spec_run cs st1 in (eff @ effs, st2))"

fun log_op_ok :: "log_op \<Rightarrow> bool" where
  "log_op_ok (LogCall loc ty t now) \<longleftrightarrow> location_ok loc \<and> length t < 2 ^ 31"
| "log_op_ok DumpRound \<longleftrightarrow> True"

definition pipe_inv :: "BufferLogKFiFo \<times> dump_locals \<Rightarrow> spec_state \<Rightarrow> bool" where
  "pipe_inv st sp \<longleftrightarrow>
     (case (st, sp) of ((s, l), room, q, idle) \<Rightarrow>
        log_state_ok s \<and> length (d_recv l) = BUFFER_LOG_BLOCK_MAX_SIZE \<and>
        kfifo_room (g_stKFiFo s) = room \<and> d_idle l = idle \<and>
        (\<exists>fs. log_queue (g_stKFiFo s) fs \<and> map entry fs = q))"

lemma pipe_step_log:
  assumes inv: "pipe_inv (s, l) (room, q, idle)" and ok: "log_op_ok (LogCall loc ty t now)"
  shows "\<exists>eff st'. pipe_step (LogCall loc ty t now) (s, l) = Some (eff, st') \<and>
    fst (spec_step (LogCall loc ty t now) (room, q, idle)) = eff \<and>
    pipe_inv st' (snd (spec_step (LogCall loc ty t now) (room, q, idle)))"
proof -
  obtain fs where fs: "log_queue (g_stKFiFo s) fs" "map entry fs = q" and sok: "log_state_ok s"
    and room: "kfifo_room (g_stKFiFo s) = room"
    using inv by (auto simp: pipe_inv_def)
  define n where "n = min (length t) (BUFFER_LOG_BLOCK_MAX_SIZE - 1)"
  have "location_ok loc" "length t < 2 ^ 31" using ok by simp_all
  from BufferLog_Log_spec [OF sok this fs(1), of ty now, folded n_def, unfolded room]
  obtain s' q' where "BufferLog_Log s loc ty t now =
      Some (if 0 < n \<and> room \<le> SIZEOF_BLOCK + n then [SpdFatal] else [], s')"
    "log_state_ok s'" "log_queue (g_stKFiFo s') q'"
    "map entry q' = map entry fs @ (if 0 < n \<and> SIZEOF_BLOCK + n < room then [(n, log_line loc ty t)] else [])"
    "kfifo_room (g_stKFiFo s') + (if 0 < n \<and> SIZEOF_BLOCK + n < room then SIZEOF_BLOCK + n else 0) = room"
    by metis
  then show ?thesis
    using inv fs(2) unfolding pipe_inv_def spec_step.simps n_def [symmetric] Let_def
    by (auto split: if_splits)
qed

lemma pipe_step_dump:
  assumes inv: "pipe_inv (s, l) (room, q, idle)"
  shows "\<exists>eff st'. pipe_step DumpRound (s, l) = Some (eff, st') \<and>
    fst (spec_step DumpRound (room, q, idle)) = eff \<and>
    pipe_inv st' (snd (spec_step DumpRound (room, q, idle)))"
proof -
  obtain fs where fs: "log_queue (g_stKFiFo s) fs" "map entry fs = q" and sok: "log_state_ok s"
    and lb: "length (d_recv l) = BUFFER_LOG_BLOCK_MAX_SIZE"
    and room: "kfifo_room (g_stKFiFo s) = room" "d_idle l = idle"
    using inv by (auto simp: pipe_inv_def)
  have sok': "log_state_ok (s\<lparr>g_stKFiFo := f'\<rparr>)" for f' using sok by (simp add: log_state_ok_def)
  show ?thesis
  proof (cases fs)
    case Nil
    then show ?thesis
      using fs lb room sok sok'
      by (auto simp: DoDumpLog_round_def DoKFiFoPopMsg_empty pipe_inv_def)
  next
    case (Cons fr rest)
    obtain blk msg where fr: "fr = (blk, msg)" by (cases fr)
    then obtain f' buf' where pop: "DoKFiFoPopMsg (g_stKFiFo s) (d_block l) (d_recv l) =
          Some (int (length msg), blk, buf', f', [])"
      "log_queue f' rest" "length buf' = BUFFER_LOG_BLOCK_MAX_SIZE" "c_str buf' = c_str msg"
      "kfifo_room f' = kfifo_room (g_stKFiFo s) + SIZEOF_BLOCK + length msg"
      using DoKFiFoPopMsg_spec [of "g_stKFiFo s" blk msg rest "d_recv l"] fs(1) Cons lb by blast
    have ok: "0 < length msg" "m_iLogCmd blk = E_BUFFER_LOG_CMD_LOG"
      using fs(1) Cons fr by (simp_all add: log_queue_def frame_ok_def block_ok_def)
    have "DoDumpLog_round (g_stKFiFo s) l =
        Some (frame_line fr, f', l\<lparr>d_block := blk, d_recv := buf'\<rparr>)"
      using pop ok fr by (simp add: DoDumpLog_round_def frame_line_def DoLogLoc_def)
    then show ?thesis
      using pop fs Cons fr room sok' by (auto simp: pipe_inv_def entry_def)
  qed
qed

lemma pipe_run_simulation:
  "pipe_inv st sp \<Longrightarrow> list_all log_op_ok cs \<Longrightarrow>
   \<exists>st'. pipe_run cs st = Some (fst (spec_run cs sp), st') \<and> pipe_inv st' (snd (spec_run cs sp))"
proof (induction cs arbitrary: st sp)
  case (Cons c cs)
  obtain s l room q idle where st: "st = (s, l)" "sp = (room, q, idle)" by (metis prod.exhaust)
  obtain eff st1 where 1: "pipe_step c st = Some (eff, st1)" "fst (spec_step c sp) = eff"
    "pipe_inv st1 (snd (spec_step c sp))"
    using pipe_step_log [of s l room q idle] pipe_step_dump [of s l room q idle] Cons.prems
    unfolding st by (cases c) fastforce+
  then show ?case
    using Cons.IH [OF 1(3)] Cons.prems by (auto simp: case_prod_beta Let_def)
qed simp

text \<open>The logger right after \<open>InitGameLogger\<close> and \<open>BindMainThread\<close>.\<close>

definition InitGameLogger :: BufferLogKFiFo where
  "InitGameLogger =
     \<lparr>m_bInited = False, m_stThreadID = 0,
      g_stKFiFo = INIT_KFIFO BUFFER_LOG_SPACE_SIZE 1 (replicate BUFFER_LOG_SPACE_SIZE 0),
      chTempBuffer = replicate BUFFER_LOG_BLOCK_MAX_SIZE 0, stBufferLogBlock = block_zero\<rparr>"

definition dump_init :: dump_locals where
  "dump_init = \<lparr>d_block = block_zero, d_recv = replicate BUFFER_LOG_BLOCK_MAX_SIZE 0, d_idle = 0\<rparr>"

lemma pipe_inv_init: "pipe_inv (BindMainThread InitGameLogger self, dump_init) (BUFFER_LOG_SPACE_SIZE, [], 0)"
proof -
  define f where "f = INIT_KFIFO BUFFER_LOG_SPACE_SIZE 1 (replicate BUFFER_LOG_SPACE_SIZE 0)"
  have S: "BUFFER_LOG_SPACE_SIZE = 2 ^ 28" by (simp add: BUFFER_LOG_SPACE_SIZE_def)
  have len: "length (replicate BUFFER_LOG_SPACE_SIZE (0::byte)) = 2 ^ 28 * 1"
    "length (replicate BUFFER_LOG_SPACE_SIZE (0::byte)) < 2 ^ 32"
    unfolding length_replicate S by simp_all
  have i: "kfifo_wf f" "kfifo_contents f = []" "kfifo_cap f = BUFFER_LOG_SPACE_SIZE" "unat (k_esize f) = 1"
    using INIT_KFIFO_wf [OF _ _ _ len, folded S, folded f_def] by simp_all
  have "k_esize f = 1" by (simp add: f_def INIT_KFIFO_def)
  then have wf: "kfifo_byte_wf f" using i by (simp add: kfifo_byte_wf_def)
  have c0: "kfifo_count f = 0" using i(2) length_kfifo_contents [of f] by simp
  have room: "kfifo_room f = BUFFER_LOG_SPACE_SIZE"
    by (simp only: kfifo_room_def i(3) c0 diff_zero)
  have "log_queue f []" using wf i(2) by (simp add: log_queue_def kfifo_bytes_def)
  then show ?thesis
    using room unfolding pipe_inv_def f_def
    by (simp add: InitGameLogger_def BindMainThread_def dump_init_def log_state_ok_def block_zero_def
        BUFFER_LOG_FILE_FUNC_MAX_LENGTH_def)
qed

section \<open>Properties\<close>

text \<open>
  C4.  The logging pipeline.  Whatever the interleaving of \<open>Log\<close> calls and log-thread rounds, the
  ring buffer never loses its framing: the effects are those of a queue of lines with a byte
  budget.  Every accepted call is printed once, in call order, with its text and names cut to the
  array sizes; a call is refused with an error line exactly when fewer than its length plus the
  block size plus one bytes are free.
\<close>

theorem log_pipeline_refines_queue:
  assumes "pipe_inv st sp" and "list_all log_op_ok cs"
  shows "\<exists>st'. pipe_run cs st = Some (fst (spec_run cs sp), st') \<and> pipe_inv st' (snd (spec_run cs sp))"
  using assms by (rule pipe_run_simulation)

theorem log_pipeline_refines_queue_witness:
  "\<exists>st'. pipe_run [LogCall \<lparr>sl_iLine = 7, sl_pchFileName = [97], sl_pchFuncName = [98]\<rparr> 2 [104, 105] (1, 2),
         DumpRound, DumpRound] (BindMainThread InitGameLogger 5, dump_init) =
     Some ([SpdLoc 2 7 [97] [98] [104, 105]], st')"
proof -
  have "list_all log_op_ok
      [LogCall \<lparr>sl_iLine = 7, sl_pchFileName = [97], sl_pchFuncName = [98]\<rparr> 2 [104, 105] (1, 2),
       DumpRound, DumpRound]"
    by (simp add: location_ok_def)
  from log_pipeline_refines_queue [OF pipe_inv_init this, of 5] show ?thesis
    by (auto simp: Let_def log_line_def DoLogLoc_def E_BUFFER_LOG_TYPE_CRITICAL_def c_str_def
        SIZEOF_BLOCK_def BUFFER_LOG_SPACE_SIZE_def BUFFER_LOG_BLOCK_MAX_SIZE_def)
qed

text \<open>
   A length that is negative as \<open>int32_t\<close> is not rejected: the check casts it to \<open>uint32_t\<close>
  before comparing with 0, which is never true.  A block with valid tokens and a negative length
  makes the reader write outside its text buffer (\<open>None\<close>) instead of resetting the queue.
\<close>

theorem negative_length_not_rejected:
  assumes "kfifo_byte_wf f" and "kfifo_bytes f = block_image blk @ rest" and "block_ok blk"
    and "sint (m_iMsgLen blk) < 0"
    and "\<not> kfifo_len f < ucast (scast (m_iMsgLen blk) + of_nat SIZEOF_BLOCK :: u64)"
  shows "DoKFiFoPopMsg f blk0 buf = None"
proof -
  define h where "h = (of_nat SIZEOF_BLOCK :: u32)"
  have uh: "unat h = length (block_image blk)" "unat h = SIZEOF_BLOCK"
    using assms(3) by (simp_all add: block_ok_def block_image_length SIZEOF_BLOCK_word h_def)
  have pk: "kfifo_out_peek f h 0 = Some (h, block_image blk)"
    using kf.peek_law [OF assms(1), of h] assms(2) uh by simp
  have len: "\<not> unat (kfifo_len f) < SIZEOF_BLOCK" using unat_kfifo_len [OF assms(1)] assms(2) uh by simp
  have inv: "block_of_image (block_image blk) = blk"
    using assms(3) by (simp add: block_ok_def block_of_image_inverse)
  have small: "\<not> sint (m_iMsgLen blk) \<ge> int BUFFER_LOG_BLOCK_MAX_SIZE" using assms(4) by simp
  show ?thesis
    unfolding DoKFiFoPopMsg_def h_def [symmetric]
    using len pk inv small assms(3,4,5)
    by (simp add: block_ok_def Let_def bind_eq_None_conv split: prod.splits option.splits bind_splits)
qed

definition bad_block :: ST_BufferLogBlock where
  "bad_block = block_zero\<lparr>m_iLogCmd := 1, m_iMsgLen := - 1,
     m_ullStartToken := E_BUFFER_LOG_TOKEN_START, m_ullEndToken := E_BUFFER_LOG_TOKEN_END\<rparr>"

theorem negative_length_not_rejected_witness:
  "\<exists>f. DoKFiFoPopMsg f block_zero (replicate BUFFER_LOG_BLOCK_MAX_SIZE 0) = None"
proof -
  let ?f0 = "INIT_KFIFO BUFFER_LOG_SPACE_SIZE 1 (replicate BUFFER_LOG_SPACE_SIZE 0)"
  have q: "log_queue ?f0 []" and room: "kfifo_room ?f0 = BUFFER_LOG_SPACE_SIZE"
    using pipe_inv_init [of 0] by (auto simp: pipe_inv_def InitGameLogger_def BindMainThread_def)
  have ok: "block_ok bad_block"
    by (simp add: block_ok_def bad_block_def block_zero_def BUFFER_LOG_FILE_FUNC_MAX_LENGTH_def E_BUFFER_LOG_CMD_LOG_def)
  have len: "unat (of_nat SIZEOF_BLOCK :: u32) = length (block_image bad_block)"
    using ok by (simp add: block_ok_def block_image_length SIZEOF_BLOCK_word)
  obtain f where f: "kfifo_byte_wf f" "kfifo_bytes f = block_image bad_block @ []"
    using kf.put_law [of ?f0 "of_nat SIZEOF_BLOCK" "block_image bad_block"] q room len
    by (auto simp: log_queue_def SIZEOF_BLOCK_word SIZEOF_BLOCK_def BUFFER_LOG_SPACE_SIZE_def)
  have "unat (kfifo_len f) = SIZEOF_BLOCK" using unat_kfifo_len [OF f(1)] f(2) len SIZEOF_BLOCK_word by simp
  then have "\<not> kfifo_len f < ucast (scast (m_iMsgLen bad_block) + of_nat SIZEOF_BLOCK :: u64)"
    by (simp add: word_less_nat_alt bad_block_def SIZEOF_BLOCK_def)
  moreover have "sint (m_iMsgLen bad_block) < 0" by (simp add: bad_block_def)
  ultimately show ?thesis using negative_length_not_rejected [OF f ok] by blast
qed

end
