(* ===== verification/Timer_Wheel.thy ===== *)
theory Timer_Wheel
  imports Prelude
begin

text \<open>
  The hierarchical timing wheel of \<open>src/common/timer.cpp\<close>: 256 near slots and four levels of 64
  slots, every slot a FIFO list of nodes.  The clock \<open>tm_time\<close> and the expiry times are 32-bit
  words that wrap around.  A linked list is modelled by the sequence of its nodes, so \<open>link\<close>
  appends and \<open>link_clear\<close> takes the whole sequence.

  The abstraction of a wheel is its calendar: for every expiry time the events that fire then, in
  order.  Adding appends to one day of the calendar, shifting the clock leaves the calendar alone,
  and taking the due slot empties exactly the current day; these are the laws of the locale that
  the timer service relies on.
\<close>

section \<open>The structure\<close>

definition TIME_NEAR_SHIFT :: nat where "TIME_NEAR_SHIFT = 8"
definition TIME_NEAR :: nat where "TIME_NEAR = 2 ^ TIME_NEAR_SHIFT"
definition TIME_LEVEL_SHIFT :: nat where "TIME_LEVEL_SHIFT = 6"
definition TIME_LEVEL :: nat where "TIME_LEVEL = 2 ^ TIME_LEVEL_SHIFT"
definition TIME_NEAR_MASK :: u32 where "TIME_NEAR_MASK = of_nat TIME_NEAR - 1"
definition TIME_LEVEL_MASK :: u32 where "TIME_LEVEL_MASK = of_nat TIME_LEVEL - 1"

record 'e timer_node =
  n_expire :: u32
  n_event :: 'e

record 'e timer =
  tm_near :: "'e timer_node list list"
  tm_t :: "'e timer_node list list list"
  tm_time :: u32
  tm_starttime :: u32
  tm_current :: u64
  tm_current_point :: u64

text \<open>The address of a list of the wheel: \<open>&T->near[i]\<close> or \<open>&T->t[level][i]\<close>.\<close>

datatype slot = Near nat | Lvl nat nat

fun get_slot :: "'e timer \<Rightarrow> slot \<Rightarrow> 'e timer_node list" where
  "get_slot T (Near i) = tm_near T ! i"
| "get_slot T (Lvl l i) = tm_t T ! l ! i"

fun put_slot :: "'e timer \<Rightarrow> slot \<Rightarrow> 'e timer_node list \<Rightarrow> 'e timer" where
  "put_slot T (Near i) ns = T\<lparr>tm_near := (tm_near T)[i := ns]\<rparr>"
| "put_slot T (Lvl l i) ns = T\<lparr>tm_t := (tm_t T)[l := (tm_t T ! l)[i := ns]]\<rparr>"

fun slot_ok :: "slot \<Rightarrow> bool" where
  "slot_ok (Near i) \<longleftrightarrow> i < 256"
| "slot_ok (Lvl l i) \<longleftrightarrow> l < 4 \<and> i < 64"

definition timer_shape :: "'e timer \<Rightarrow> bool" where
  "timer_shape T \<longleftrightarrow> length (tm_near T) = 256 \<and> length (tm_t T) = 4 \<and>
     list_all (\<lambda>l. length l = 64) (tm_t T)"

section \<open>The functions of timer.cpp\<close>

definition link_clear :: "'e timer \<Rightarrow> slot \<Rightarrow> 'e timer_node list \<times> 'e timer" where
  "link_clear T s = (get_slot T s, put_slot T s [])"

definition timer_link :: "'e timer \<Rightarrow> slot \<Rightarrow> 'e timer_node \<Rightarrow> 'e timer" where
  "timer_link T s node = put_slot T s (get_slot T s @ [node])"

text \<open>The \<open>for\<close> loop of \<open>add_node\<close>: the level \<open>i\<close> at which it stops.\<close>

function add_node_level :: "u32 \<Rightarrow> u32 \<Rightarrow> u32 \<Rightarrow> nat \<Rightarrow> nat" where
  "add_node_level time current_time msk i =
     (if i < 3 then
        (if (time OR (msk - 1)) = (current_time OR (msk - 1)) then i
         else add_node_level time current_time (push_bit TIME_LEVEL_SHIFT msk) (Suc i))
      else i)"
  by pat_completeness auto
termination
  by (relation "measure (\<lambda>(_, _, _, i). 3 - i)") auto

declare add_node_level.simps [simp del]

definition add_node_slot :: "u32 \<Rightarrow> u32 \<Rightarrow> slot" where
  "add_node_slot time current_time =
     (if (time OR TIME_NEAR_MASK) = (current_time OR TIME_NEAR_MASK)
      then Near (unat (time AND TIME_NEAR_MASK))
      else let i = add_node_level time current_time (push_bit TIME_LEVEL_SHIFT (of_nat TIME_NEAR)) 0
           in Lvl i (unat (drop_bit (TIME_NEAR_SHIFT + i * TIME_LEVEL_SHIFT) time AND TIME_LEVEL_MASK)))"

definition add_node :: "'e timer \<Rightarrow> 'e timer_node \<Rightarrow> 'e timer" where
  "add_node T node = timer_link T (add_node_slot (n_expire node) (tm_time T)) node"

definition timer_add :: "'e timer \<Rightarrow> 'e \<Rightarrow> u32 \<Rightarrow> 'e timer" where
  "timer_add T arg time = add_node T \<lparr>n_expire = time + tm_time T, n_event = arg\<rparr>"

definition move_list :: "'e timer \<Rightarrow> nat \<Rightarrow> nat \<Rightarrow> 'e timer" where
  "move_list T level idx =
     (let (current, T') = link_clear T (Lvl level idx) in fold (\<lambda>n T. add_node T n) current T')"

definition timer_create_timer :: "'e timer" where
  "timer_create_timer = \<lparr>tm_near = replicate TIME_NEAR [], tm_t = replicate 4 (replicate TIME_LEVEL []),
     tm_time = 0, tm_starttime = 0, tm_current = 0, tm_current_point = 0\<rparr>"

text \<open>
  The \<open>while\<close> loop of \<open>timer_shift\<close>.  \<open>mask\<close> is an \<open>int\<close>: shifting it out of range is undefined,
  as is a level above 3; both are \<open>None\<close>, like a loop that does not end.
\<close>

partial_function (option) timer_shift_loop ::
    "'e timer \<Rightarrow> u32 \<Rightarrow> int \<Rightarrow> u32 \<Rightarrow> nat \<Rightarrow> 'e timer option" where
  "timer_shift_loop T ct msk time i =
     (if (ct AND (word_of_int msk - 1)) = 0 then
        (let idx = unat (time AND TIME_LEVEL_MASK)
         in if idx \<noteq> 0 then (if i < 4 then Some (move_list T i idx) else None)
            else if msk * 2 ^ TIME_LEVEL_SHIFT \<ge> 2 ^ 31 then None
            else timer_shift_loop T ct (msk * 2 ^ TIME_LEVEL_SHIFT) (drop_bit TIME_LEVEL_SHIFT time) (Suc i))
      else Some T)"

definition timer_shift :: "'e timer \<Rightarrow> 'e timer option" where
  "timer_shift T0 =
     (let T = T0\<lparr>tm_time := tm_time T0 + 1\<rparr>; ct = tm_time T
      in if ct = 0 then Some (move_list T 3 0)
         else timer_shift_loop T ct (int TIME_NEAR) (drop_bit TIME_NEAR_SHIFT ct) 0)"

section \<open>The slot of an expiry time\<close>

text \<open>\<open>same_block k x y\<close>: \<open>x\<close> and \<open>y\<close> agree on all bits from \<open>k\<close> on.\<close>

definition same_block :: "nat \<Rightarrow> u32 \<Rightarrow> u32 \<Rightarrow> bool" where
  "same_block k x y \<longleftrightarrow> drop_bit k x = drop_bit k y"

definition wheel_level :: "u32 \<Rightarrow> u32 \<Rightarrow> nat" where
  "wheel_level e now =
     (if same_block 8 e now then 0 else if same_block 14 e now then 1
      else if same_block 20 e now then 2 else if same_block 26 e now then 3 else 4)"

definition level_slot :: "nat \<Rightarrow> u32 \<Rightarrow> slot" where
  "level_slot l e =
     (if l = 0 then Near (unat (e AND mask 8))
      else Lvl (l - 1) (unat (drop_bit (8 + (l - 1) * 6) e AND mask 6)))"

definition slot_of :: "u32 \<Rightarrow> u32 \<Rightarrow> slot" where
  "slot_of e now = level_slot (wheel_level e now) e"

lemma or_mask_eq_iff: "(x OR mask k) = (y OR mask k) \<longleftrightarrow> drop_bit k x = drop_bit k y"
  for x y :: "'a::len word"
proof
  assume a: "(x OR mask k) = (y OR mask k)"
  show "drop_bit k x = drop_bit k y"
  proof (rule bit_eqI)
    fix n
    have "bit (x OR mask k) (k + n) = bit (y OR mask k) (k + n)" using a by simp
    then show "bit (drop_bit k x) n = bit (drop_bit k y) n" by (auto simp: bit_drop_bit_eq bit_or_iff bit_mask_iff)
  qed
next
  assume a: "drop_bit k x = drop_bit k y"
  show "(x OR mask k) = (y OR mask k)"
  proof (rule bit_word_eqI)
    fix n assume n: "n < LENGTH('a)"
    show "bit (x OR mask k) n = bit (y OR mask k) n"
    proof (cases "n < k")
      case False
      then have "bit (drop_bit k x) (n - k) = bit (drop_bit k y) (n - k)" using a by simp
      then show ?thesis using False by (simp add: bit_drop_bit_eq bit_or_iff)
    qed (simp add: bit_or_iff bit_mask_iff n)
  qed
qed

lemma same_block_or:
  "(x OR 255) = (y OR 255) \<longleftrightarrow> same_block 8 x y"
  "(x OR 16383) = (y OR 16383) \<longleftrightarrow> same_block 14 x y"
  "(x OR 1048575) = (y OR 1048575) \<longleftrightarrow> same_block 20 x y"
  "(x OR 67108863) = (y OR 67108863) \<longleftrightarrow> same_block 26 x y"
  using or_mask_eq_iff [of x 8 y] or_mask_eq_iff [of x 14 y] or_mask_eq_iff [of x 20 y]
    or_mask_eq_iff [of x 26 y]
  by (simp_all add: same_block_def mask_eq_exp_minus_1)

lemma time_masks: "TIME_NEAR_MASK = mask 8" "TIME_LEVEL_MASK = mask 6"
  by (simp_all add: TIME_NEAR_MASK_def TIME_LEVEL_MASK_def TIME_NEAR_def TIME_LEVEL_def
      TIME_NEAR_SHIFT_def TIME_LEVEL_SHIFT_def mask_eq_exp_minus_1)

lemma add_node_level_eq:
  "add_node_level e now 16384 0 =
     (if same_block 14 e now then 0 else if same_block 20 e now then 1
      else if same_block 26 e now then 2 else 3)"
  by (simp add: add_node_level.simps same_block_or TIME_LEVEL_SHIFT_def)

lemma add_node_slot_eq: "add_node_slot e now = slot_of e now"
proof -
  have near: "(e OR TIME_NEAR_MASK) = (now OR TIME_NEAR_MASK) \<longleftrightarrow> same_block 8 e now"
    using or_mask_eq_iff [of e 8 now] by (simp add: time_masks same_block_def)
  have m: "push_bit TIME_LEVEL_SHIFT (of_nat TIME_NEAR) = (16384 :: u32)"
    by (simp add: TIME_LEVEL_SHIFT_def TIME_NEAR_def TIME_NEAR_SHIFT_def)
  show ?thesis
    unfolding add_node_slot_def near m add_node_level_eq
    by (simp add: slot_of_def level_slot_def wheel_level_def time_masks Let_def
        TIME_NEAR_SHIFT_def TIME_LEVEL_SHIFT_def)
qed

lemma unat_mask_less: "unat (x AND mask k :: u32) < 2 ^ k"
  by (simp add: unat_and_mask)

lemma slot_of_ok: "slot_ok (slot_of e now)"
  using unat_mask_less [of e 8] unat_mask_less [of _ 6]
  by (auto simp: slot_of_def level_slot_def wheel_level_def)

section \<open>Reading and writing slots\<close>

lemma get_put_slot:
  assumes "timer_shape T" and "slot_ok s" and "slot_ok s'"
  shows "get_slot (put_slot T s ns) s' = (if s' = s then ns else get_slot T s')"
  using assms by (cases s; cases s') (auto simp: timer_shape_def list_all_length nth_list_update)

lemma put_slot_shape: "timer_shape T \<Longrightarrow> timer_shape (put_slot T s ns)"
  by (cases s) (auto simp: timer_shape_def list_all_length,
      metis length_list_update nth_list_update_eq nth_list_update_neq)

lemma put_slot_time [simp]: "tm_time (put_slot T s ns) = tm_time T"
  by (cases s) simp_all

lemma add_node_simps:
  "timer_shape T \<Longrightarrow> timer_shape (add_node T n)" "tm_time (add_node T n) = tm_time T"
  by (simp_all add: add_node_def timer_link_def put_slot_shape)

lemma get_slot_add_node:
  assumes "timer_shape T" and "slot_ok s"
  shows "get_slot (add_node T n) s =
    get_slot T s @ (if slot_of (n_expire n) (tm_time T) = s then [n] else [])"
  using assms by (auto simp: add_node_def timer_link_def get_put_slot slot_of_ok add_node_slot_eq)

lemma fold_add_node:
  assumes "timer_shape T"
  shows "timer_shape (fold (\<lambda>n T. add_node T n) ns T)"
    and "tm_time (fold (\<lambda>n T. add_node T n) ns T) = tm_time T"
    and "slot_ok s \<Longrightarrow> get_slot (fold (\<lambda>n T. add_node T n) ns T) s =
           get_slot T s @ filter (\<lambda>n. slot_of (n_expire n) (tm_time T) = s) ns"
  using assms
  by (induction ns arbitrary: T) (simp_all add: add_node_simps get_slot_add_node)

lemma move_list_spec:
  assumes "timer_shape T" and "l < 4" and "i < 64"
  shows "timer_shape (move_list T l i)" and "tm_time (move_list T l i) = tm_time T"
    and "slot_ok s \<Longrightarrow> get_slot (move_list T l i) s =
           (if s = Lvl l i then [] else get_slot T s) @
           filter (\<lambda>n. slot_of (n_expire n) (tm_time T) = s) (get_slot T (Lvl l i))"
proof -
  have ok: "slot_ok (Lvl l i)" using assms by simp
  have sh: "timer_shape (put_slot T (Lvl l i) [])" using assms(1) by (rule put_slot_shape)
  note f = fold_add_node [OF sh, where ns = "get_slot T (Lvl l i)"]
  have e: "move_list T l i =
      fold (\<lambda>n T. add_node T n) (get_slot T (Lvl l i)) (put_slot T (Lvl l i) [])"
    by (simp only: move_list_def link_clear_def Let_def prod.case)
  show "timer_shape (move_list T l i)" "tm_time (move_list T l i) = tm_time T"
    unfolding e using f(1,2) by simp_all
  show "get_slot (move_list T l i) s = (if s = Lvl l i then [] else get_slot T s) @
      filter (\<lambda>n. slot_of (n_expire n) (tm_time T) = s) (get_slot T (Lvl l i))" if "slot_ok s"
    unfolding e f(3) [OF that] get_put_slot [OF assms(1) ok that] put_slot_time by (rule refl)
qed

section \<open>Advancing the clock\<close>

text \<open>
  \<open>due_within now e\<close>: the expiry time \<open>e\<close> lies at most \<open>2 ^ 31 - 1\<close> ticks after \<open>now\<close>, in
  wrap-around arithmetic.  All pending nodes satisfy it, since \<open>AddTimer\<close> takes an \<open>int\<close>.
\<close>

definition due_within :: "u32 \<Rightarrow> u32 \<Rightarrow> bool" where
  "due_within now e \<longleftrightarrow> unat (e - now) < 2 ^ 31"

lemma same_block_nat: "same_block k x y \<longleftrightarrow> unat x div 2 ^ k = unat y div 2 ^ k"
  unfolding same_block_def by (metis unat_drop_bit word_unat_eq_iff)

lemma same_block_mono: "same_block k x y \<Longrightarrow> k \<le> l \<Longrightarrow> same_block l x y"
proof -
  assume s: "same_block k x y" and l: "k \<le> l"
  have "drop_bit l z = drop_bit (l - k) (drop_bit k z)" for z :: u32
    using l by (simp add: drop_bit_drop_bit)
  then show ?thesis using s unfolding same_block_def by metis
qed

lemma due_cases:
  assumes "due_within now e" and "e \<noteq> now"
  shows "unat now < unat e \<or> unat e + 2 ^ 31 < unat now"
proof -
  have b: "unat e < 2 ^ 32" "unat now < 2 ^ 32" using unat_bound [of e] unat_bound [of now] by simp_all
  have ne: "unat e \<noteq> unat now" using assms(2) by (metis word_unat_eq_iff)
  have "unat (e - now) = (if unat now \<le> unat e then unat e - unat now else unat e + 2 ^ 32 - unat now)"
    using unat_sub_if_size [of e now] b by (simp add: word_size word_le_nat_alt)
  then show ?thesis using assms(1) b ne unfolding due_within_def by (auto split: if_splits)
qed

lemma unat_Suc_word: "x + 1 \<noteq> 0 \<Longrightarrow> unat (x + 1) = Suc (unat x)" for x :: u32
  by (metis Suc_eq_plus1 add.commute unatSuc)

lemma wrap_Suc: "now + 1 = 0 \<Longrightarrow> Suc (unat now) = 2 ^ 32" for now :: u32
proof (rule ccontr)
  assume z: "now + 1 = 0" and "Suc (unat now) \<noteq> 2 ^ 32"
  then have "unat now + unat (1::u32) < 2 ^ 32" using unat_bound [of now] by simp
  then have "unat (now + 1) = unat now + unat (1::u32)" by (intro unat_add_no_wrap) simp
  then show False using z by simp
qed

lemma div_Suc_not_dvd: "\<not> d dvd Suc b \<Longrightarrow> Suc b div d = b div d" for d b :: nat
  by (metis div_Suc dvd_eq_mod_eq_0)

lemma dvd_Suc_div: "0 < d \<Longrightarrow> d dvd Suc b \<Longrightarrow> b < a \<Longrightarrow> a div d \<noteq> b div d" for d b a :: nat
proof -
  assume d: "0 < d" "d dvd Suc b" and a: "b < a"
  have "Suc b div d \<le> a div d" using a by (intro div_le_mono) simp
  moreover have "Suc b div d = Suc (b div d)" using d by (metis div_Suc dvd_imp_mod_0)
  ultimately show ?thesis by simp
qed

lemma same_block_step:
  assumes due: "due_within now e" "e \<noteq> now" and k: "k \<le> 26"
  shows "\<not> 2 ^ k dvd Suc (unat now) \<Longrightarrow> same_block k e (now + 1) \<longleftrightarrow> same_block k e now"
    and "2 ^ k dvd Suc (unat now) \<Longrightarrow> \<not> same_block k e now"
proof -
  assume nd: "\<not> 2 ^ k dvd Suc (unat now)"
  have "now + 1 \<noteq> 0"
  proof
    assume "now + 1 = 0"
    then have "Suc (unat now) = 2 ^ 32" by (rule wrap_Suc)
    then show False using nd k le_imp_power_dvd [of k 32 "2::nat"] by simp
  qed
  then show "same_block k e (now + 1) \<longleftrightarrow> same_block k e now"
    using nd by (simp add: same_block_nat unat_Suc_word div_Suc_not_dvd)
next
  assume d: "2 ^ k dvd Suc (unat now)"
  have "unat e div 2 ^ k \<noteq> unat now div 2 ^ k"
  proof (cases "unat now < unat e")
    case True
    then show ?thesis using d by (intro dvd_Suc_div) simp_all
  next
    case False
    then have "unat e + 2 ^ 31 < unat now" using due_cases [OF due] by simp
    moreover have "(2::nat) ^ k \<le> 2 ^ 31" using k by (intro power_increasing) simp_all
    ultimately have "unat e + 2 ^ k \<le> unat now" by linarith
    then have "(unat e + 2 ^ k) div 2 ^ k \<le> unat now div 2 ^ k" by (rule div_le_mono)
    then show ?thesis by (simp add: div_add_self2)
  qed
  then show "\<not> same_block k e now" by (simp add: same_block_nat)
qed

text \<open>The slot whose nodes change place when the clock reaches \<open>ct\<close>, if any.\<close>

definition shift_slot :: "u32 \<Rightarrow> slot option" where
  "shift_slot ct =
     (if ct = 0 then Some (Lvl 3 0)
      else if \<not> 2 ^ 8 dvd unat ct then None
      else if \<not> 2 ^ 14 dvd unat ct then Some (level_slot 1 ct)
      else if \<not> 2 ^ 20 dvd unat ct then Some (level_slot 2 ct)
      else if \<not> 2 ^ 26 dvd unat ct then Some (level_slot 3 ct)
      else Some (level_slot 4 ct))"

lemma level_slot_block: "same_block (8 + (l - 1) * 6) e e' \<Longrightarrow> 0 < l \<Longrightarrow> level_slot l e = level_slot l e'"
  by (simp add: level_slot_def same_block_def)

definition rolls :: "u32 \<Rightarrow> nat \<Rightarrow> bool" where
  "rolls now k \<longleftrightarrow> 2 ^ k dvd Suc (unat now)"

lemma shift_slot_step:
  "shift_slot (now + 1) =
     (if \<not> rolls now 8 then None else if \<not> rolls now 14 then Some (level_slot 1 (now + 1))
      else if \<not> rolls now 20 then Some (level_slot 2 (now + 1))
      else if \<not> rolls now 26 then Some (level_slot 3 (now + 1)) else Some (level_slot 4 (now + 1)))"
proof (cases "now + 1 = 0")
  case True
  have "rolls now k" if "k \<le> 32" for k
    unfolding rolls_def wrap_Suc [OF True] using that by (rule le_imp_power_dvd)
  then show ?thesis using True by (simp add: shift_slot_def level_slot_def)
next
  case False
  then show ?thesis by (simp only: shift_slot_def rolls_def unat_Suc_word [OF False] False if_False)
qed

lemma slot_of_step:
  assumes due: "due_within now e" "e \<noteq> now" and ns: "shift_slot (now + 1) \<noteq> Some (slot_of e now)"
  shows "slot_of e (now + 1) = slot_of e now"
proof -
  define d where "d = rolls now"
  have keep: "same_block k e (now + 1) \<longleftrightarrow> same_block k e now" if "k \<le> 26" "\<not> d k" for k
    using same_block_step(1) [OF due that(1)] that(2) by (simp add: d_def rolls_def)
  have gone: "\<not> same_block k e now" if "k \<le> 26" "d k" for k
    using same_block_step(2) [OF due that(1)] that(2) by (simp add: d_def rolls_def)
  have dm: "d l \<Longrightarrow> k \<le> l \<Longrightarrow> d k" for k l
    unfolding d_def rolls_def by (meson dvd_trans le_imp_power_dvd)
  note mono = same_block_mono [of _ e "now + 1"]
  note ss = shift_slot_step [of now, folded d_def]
  have "wheel_level e (now + 1) = wheel_level e now"
  proof -
    consider "\<not> d 8" | "d 8" "\<not> d 14" | "d 14" "\<not> d 20" | "d 20" "\<not> d 26" | "d 26" by blast
    then show ?thesis
    proof cases
      case 1
      then have "\<not> d 14" "\<not> d 20" "\<not> d 26" using dm [of 14 8] dm [of 20 8] dm [of 26 8] by auto
      then show ?thesis using 1 keep by (simp add: wheel_level_def)
    next
      case 2
      then have nd: "\<not> d 20" "\<not> d 26" using dm [of 20 14] dm [of 26 14] by auto
      have "\<not> same_block 8 e (now + 1)"
        using ns 2 ss gone [of 8] keep [of 14] mono [of 8 14] level_slot_block [of 1 e "now + 1"]
        by (auto simp: slot_of_def wheel_level_def)
      then show ?thesis using 2 nd keep gone [of 8] by (simp add: wheel_level_def)
    next
      case 3
      then have d8: "d 8" "\<not> d 26" using dm [of 14 8] dm [of 26 20] by auto
      have "\<not> same_block 14 e (now + 1)"
        using ns 3 d8 ss gone [of 8] gone [of 14] keep [of 20] mono [of 14 20] level_slot_block [of 2 e "now + 1"]
        by (auto simp: slot_of_def wheel_level_def)
      then show ?thesis
        using 3 d8 keep gone [of 8] gone [of 14] mono [of 8 14] by (auto simp: wheel_level_def)
    next
      case 4
      then have d8: "d 8" "d 14" using dm [of 20 8] dm [of 20 14] by auto
      have "\<not> same_block 20 e (now + 1)"
        using ns 4 d8 ss gone [of 8] gone [of 14] gone [of 20] keep [of 26] mono [of 20 26]
          level_slot_block [of 3 e "now + 1"]
        by (auto simp: slot_of_def wheel_level_def)
      then show ?thesis
        using 4 d8 keep gone [of 8] gone [of 14] gone [of 20] mono [of 8 20] mono [of 14 20]
        by (auto simp: wheel_level_def)
    next
      case 5
      then have d8: "d 8" "d 14" "d 20" using dm [of 26 8] dm [of 26 14] dm [of 26 20] by auto
      note g = gone [of 8] gone [of 14] gone [of 20] gone [of 26]
      have "\<not> same_block 26 e (now + 1)"
        using ns 5 d8 ss g level_slot_block [of 4 e "now + 1"] by (auto simp: slot_of_def wheel_level_def)
      then show ?thesis
        using 5 d8 g mono [of 8 26] mono [of 14 26] mono [of 20 26] by (auto simp: wheel_level_def)
    qed
  qed
  then show ?thesis by (simp add: slot_of_def)
qed

lemma dvd_block_split:
  assumes "(2::nat) ^ a dvd n" shows "(n div 2 ^ a) mod 2 ^ b = 0 \<longleftrightarrow> 2 ^ (a + b) dvd n"
proof -
  obtain q where "n = 2 ^ a * q" using assms by (rule dvdE)
  then show ?thesis by (simp add: power_add dvd_eq_mod_eq_0)
qed

lemma and_mask_zero: "x AND mask k = 0 \<longleftrightarrow> 2 ^ k dvd unat x" for x :: u32
  by (metis dvd_eq_mod_eq_0 unat_and_mask unat_eq_zero)

lemma timer_shift_loop_step:
  assumes i: "i < 4" and d: "2 ^ (8 + i * 6) dvd unat ct"
  shows "timer_shift_loop T ct (2 ^ (8 + i * 6)) (drop_bit (8 + i * 6) ct) i =
    (if \<not> 2 ^ (14 + i * 6) dvd unat ct then Some (move_list T i (unat (drop_bit (8 + i * 6) ct AND mask 6)))
     else if i = 3 then None
     else timer_shift_loop T ct (2 ^ (8 + Suc i * 6)) (drop_bit (8 + Suc i * 6) ct) (Suc i))"
proof -
  have m: "word_of_int (2 ^ (8 + i * 6)) - 1 = (mask (8 + i * 6) :: u32)"
    by (simp add: mask_eq_exp_minus_1)
  have c: "ct AND (word_of_int (2 ^ (8 + i * 6)) - 1) = 0"
    unfolding m and_mask_zero by (rule d)
  have idx: "unat (drop_bit (8 + i * 6) ct AND mask 6) = 0 \<longleftrightarrow> 2 ^ (14 + i * 6) dvd unat ct"
    unfolding unat_and_mask unat_drop_bit dvd_block_split [OF d] by (simp add: add.commute add.left_commute)
  have nxt: "(2::int) ^ (8 + i * 6) * 2 ^ 6 = 2 ^ (8 + Suc i * 6)"
    "drop_bit 6 (drop_bit (8 + i * 6) ct) = drop_bit (8 + Suc i * 6) ct"
    by (simp_all add: power_add)
  have "(2::int) ^ 31 \<le> 2 ^ (8 + Suc i * 6) \<longleftrightarrow> 31 \<le> 8 + Suc i * 6" by (intro power_increasing_iff) simp
  then have big: "(2::int) ^ 31 \<le> 2 ^ (8 + Suc i * 6) \<longleftrightarrow> i = 3" using i by auto
  show ?thesis
    using i by (subst timer_shift_loop.simps)
      (simp only: c if_True Let_def time_masks TIME_LEVEL_SHIFT_def idx nxt big simp_thms if_cancel split: if_split)
qed

lemma timer_shift_slot:
  "timer_shift T0 =
     Some (let T = T0\<lparr>tm_time := tm_time T0 + 1\<rparr>
           in case shift_slot (tm_time T) of Some (Lvl l i) \<Rightarrow> move_list T l i | _ \<Rightarrow> T)"
proof -
  define ct where "ct = tm_time T0 + 1"
  define T where "T = T0\<lparr>tm_time := ct\<rparr>"
  have tt: "tm_time T = ct" by (simp add: T_def)
  have n: "Suc 0 = 1" "Suc 1 = 2" "Suc 2 = 3" by simp_all
  note st0 = timer_shift_loop_step [of 0 ct T, unfolded n] and st1 = timer_shift_loop_step [of 1 ct T, unfolded n]
    and st2 = timer_shift_loop_step [of 2 ct T, unfolded n] and st3 = timer_shift_loop_step [of 3 ct T]
  have top: "ct \<noteq> 0 \<Longrightarrow> \<not> 2 ^ 32 dvd unat ct"
    using unat_bound [of ct] by (auto simp: unat_eq_zero dest: dvd_imp_le)
  have dm: "2 ^ l dvd unat ct \<Longrightarrow> k \<le> l \<Longrightarrow> 2 ^ k dvd unat ct" for l k
    by (meson dvd_trans le_imp_power_dvd)
  have n8: "\<not> 2 ^ 8 dvd unat ct \<Longrightarrow> timer_shift_loop T ct (2 ^ 8) (drop_bit 8 ct) 0 = Some T"
    using and_mask_zero [of ct 8] by (subst timer_shift_loop.simps) (simp add: mask_eq_exp_minus_1)
  have s: "timer_shift T0 = (if ct = 0 then Some (move_list T 3 0)
      else timer_shift_loop T ct (2 ^ 8) (drop_bit 8 ct) 0)"
    by (simp add: timer_shift_def Let_def ct_def T_def TIME_NEAR_def TIME_NEAR_SHIFT_def)
  consider "ct = 0" | "ct \<noteq> 0" "\<not> 2 ^ 8 dvd unat ct"
    | "ct \<noteq> 0" "2 ^ 8 dvd unat ct" "\<not> 2 ^ 14 dvd unat ct"
    | "ct \<noteq> 0" "2 ^ 14 dvd unat ct" "\<not> 2 ^ 20 dvd unat ct"
    | "ct \<noteq> 0" "2 ^ 20 dvd unat ct" "\<not> 2 ^ 26 dvd unat ct"
    | "ct \<noteq> 0" "2 ^ 26 dvd unat ct" by blast
  then have "timer_shift T0 = Some (case shift_slot ct of Some (Lvl l i) \<Rightarrow> move_list T l i | _ \<Rightarrow> T)"
  proof cases
    case 3
    then show ?thesis using s st0 by (simp add: shift_slot_def level_slot_def)
  next
    case 4
    then have "2 ^ 8 dvd unat ct" using dm [of 14 8] by simp
    then show ?thesis using 4 s st0 st1 by (simp add: shift_slot_def level_slot_def)
  next
    case 5
    then have "2 ^ 8 dvd unat ct" "2 ^ 14 dvd unat ct" using dm [of 20 8] dm [of 20 14] by simp_all
    then show ?thesis using 5 s st0 st1 st2 by (simp add: shift_slot_def level_slot_def)
  next
    case 6
    then have "2 ^ 8 dvd unat ct" "2 ^ 14 dvd unat ct" "2 ^ 20 dvd unat ct" using dm [of 26 8] dm [of 26 14] dm [of 26 20] by simp_all
    then show ?thesis
      using 6 s top st0 st1 st2 st3 by (simp add: shift_slot_def level_slot_def)
  qed (use s n8 in \<open>simp_all add: shift_slot_def\<close>)
  then show ?thesis unfolding T_def ct_def Let_def by simp
qed

section \<open>Invariant and calendar\<close>

definition wheel_inv :: "'e timer \<Rightarrow> bool" where
  "wheel_inv T \<longleftrightarrow> timer_shape T \<and>
     (\<forall>s. slot_ok s \<longrightarrow> (\<forall>n\<in>set (get_slot T s).
        slot_of (n_expire n) (tm_time T) = s \<and> due_within (tm_time T) (n_expire n)))"

definition calendar :: "'e timer \<Rightarrow> u32 \<Rightarrow> 'e list" where
  "calendar T e = map n_event (filter (\<lambda>n. n_expire n = e) (get_slot T (slot_of e (tm_time T))))"

lemma wheel_invD:
  assumes "wheel_inv T" and "slot_ok s" and "n \<in> set (get_slot T s)"
  shows "slot_of (n_expire n) (tm_time T) = s" and "due_within (tm_time T) (n_expire n)"
  using assms by (auto simp: wheel_inv_def)

lemma filter_expire_other:
  assumes "wheel_inv T" and "slot_ok s" and "slot_of e (tm_time T) \<noteq> s"
  shows "filter (\<lambda>n. n_expire n = e) (get_slot T s) = []"
  using wheel_invD(1) [OF assms(1,2)] assms(3) by (auto simp: filter_empty_conv)

lemma wheel_inv_create:
  "wheel_inv (timer_create_timer :: 'e timer)" "calendar (timer_create_timer :: 'e timer) e = []"
proof -
  have "get_slot (timer_create_timer :: 'e timer) s = []" if "slot_ok s" for s
    using that by (cases s) (simp_all add: timer_create_timer_def TIME_NEAR_def TIME_LEVEL_def
        TIME_NEAR_SHIFT_def TIME_LEVEL_SHIFT_def)
  moreover have "timer_shape (timer_create_timer :: 'e timer)"
    by (simp add: timer_shape_def timer_create_timer_def TIME_NEAR_def TIME_LEVEL_def
        TIME_NEAR_SHIFT_def TIME_LEVEL_SHIFT_def list_all_length)
  ultimately show "wheel_inv (timer_create_timer :: 'e timer)" "calendar (timer_create_timer :: 'e timer) e = []"
    using slot_of_ok by (auto simp: wheel_inv_def calendar_def)
qed

lemma wheel_add:
  assumes inv: "wheel_inv T" and n: "unat d < 2 ^ 31"
  shows "wheel_inv (timer_add T ev d)"
    and "calendar (timer_add T ev d) =
         (calendar T)(d + tm_time T := calendar T (d + tm_time T) @ [ev])"
    and "tm_time (timer_add T ev d) = tm_time T"
proof -
  let ?n = "\<lparr>n_expire = d + tm_time T, n_event = ev\<rparr>"
  have sh: "timer_shape T" using inv by (simp add: wheel_inv_def)
  have due: "due_within (tm_time T) (d + tm_time T)" using n by (simp add: due_within_def)
  show tm: "tm_time (timer_add T ev d) = tm_time T" by (simp add: timer_add_def add_node_simps)
  show "wheel_inv (timer_add T ev d)"
    unfolding wheel_inv_def tm
    using sh due wheel_invD [OF inv]
    by (auto simp: timer_add_def add_node_simps get_slot_add_node split: if_splits)
  show "calendar (timer_add T ev d) = (calendar T)(d + tm_time T := calendar T (d + tm_time T) @ [ev])"
  proof (rule ext)
    fix e
    show "calendar (timer_add T ev d) e = ((calendar T)(d + tm_time T := calendar T (d + tm_time T) @ [ev])) e"
      unfolding calendar_def tm
      using get_slot_add_node [OF sh slot_of_ok, of ?n e] by (auto simp: timer_add_def)
  qed
qed

lemma due_within_step:
  assumes "due_within now e" and "e \<noteq> now" shows "due_within (now + 1) e"
proof -
  have "e - now \<noteq> 0" using assms(2) by simp
  then have "0 < unat (e - now)" by (simp add: unat_gt_0)
  then have "unat (e - now - 1) = unat (e - now) - 1" by (subst unat_sub_le) simp_all
  then show ?thesis using assms(1) by (simp add: due_within_def diff_diff_eq)
qed

lemma no_due_now:
  assumes "wheel_inv T" and "calendar T (tm_time T) = []" and "slot_ok s" and "n \<in> set (get_slot T s)"
  shows "n_expire n \<noteq> tm_time T"
proof
  assume e: "n_expire n = tm_time T"
  then have "s = slot_of (tm_time T) (tm_time T)" using wheel_invD(1) [OF assms(1,3,4)] by simp
  then show False using assms(2,4) e by (auto simp: calendar_def filter_empty_conv)
qed

text \<open>Re-adding the nodes of one slot under a new clock.\<close>

lemma wheel_move:
  assumes inv: "wheel_inv T" and empty: "calendar T (tm_time T) = []"
    and l: "l < 4" "i < 64" and ss: "shift_slot (tm_time T + 1) = Some (Lvl l i)"
  defines "T' \<equiv> move_list (T\<lparr>tm_time := tm_time T + 1\<rparr>) l i"
  shows "wheel_inv T'" and "calendar T' = calendar T" and "tm_time T' = tm_time T + 1"
proof -
  let ?T1 = "T\<lparr>tm_time := tm_time T + 1\<rparr>"
  let ?s0 = "Lvl l i"
  have g1: "get_slot ?T1 s = get_slot T s" for s by (cases s) simp_all
  have sh: "timer_shape ?T1" using inv by (simp add: wheel_inv_def timer_shape_def)
  note mv = move_list_spec [OF sh l, folded T'_def]
  show tm: "tm_time T' = tm_time T + 1" using mv(2) by simp
  have s0: "slot_ok ?s0" using l by simp
  have get: "get_slot T' s = (if s = ?s0 then [] else get_slot T s) @
      filter (\<lambda>n. slot_of (n_expire n) (tm_time T + 1) = s) (get_slot T ?s0)" if "slot_ok s" for s
    using mv(3) [OF that] by (simp add: g1)
  have keep: "slot_of (n_expire n) (tm_time T + 1) = s" if "slot_ok s" "s \<noteq> ?s0" "n \<in> set (get_slot T s)" for s n
  proof -
    have sn: "slot_of (n_expire n) (tm_time T) = s" using wheel_invD(1) [OF inv that(1,3)] .
    then have "shift_slot (tm_time T + 1) \<noteq> Some (slot_of (n_expire n) (tm_time T))" using ss that(2) by simp
    from slot_of_step [OF wheel_invD(2) [OF inv that(1,3)] no_due_now [OF inv empty that(1,3)] this]
    show ?thesis using sn by simp
  qed
  have due: "due_within (tm_time T + 1) (n_expire n)" if "slot_ok s" "n \<in> set (get_slot T s)" for s n
    using due_within_step wheel_invD(2) [OF inv that] no_due_now [OF inv empty that] by blast
  show "wheel_inv T'"
    unfolding wheel_inv_def tm
  proof (intro conjI allI impI ballI)
    show "timer_shape T'" by (rule mv(1))
    fix s n assume s: "slot_ok s" and n: "n \<in> set (get_slot T' s)"
    then consider "s \<noteq> ?s0" "n \<in> set (get_slot T s)"
      | "slot_of (n_expire n) (tm_time T + 1) = s" "n \<in> set (get_slot T ?s0)"
      unfolding get [OF s] by (auto split: if_splits)
    then show "slot_of (n_expire n) (tm_time T + 1) = s" "due_within (tm_time T + 1) (n_expire n)"
      using keep [OF s] due [OF s] due [OF s0] by (cases; blast)+
  qed
  show "calendar T' = calendar T"
  proof (rule ext)
    fix e
    define s where "s = slot_of e (tm_time T + 1)"
    have sok: "slot_ok s" by (simp add: s_def slot_of_ok)
    have c': "calendar T' e = map n_event (filter (\<lambda>n. n_expire n = e) (get_slot T' s))"
      by (simp add: calendar_def tm s_def)
    have mv0: "filter (\<lambda>n. n_expire n = e) (filter (\<lambda>n. slot_of (n_expire n) (tm_time T + 1) = s) (get_slot T ?s0)) =
        filter (\<lambda>n. n_expire n = e) (get_slot T ?s0)"
      by (auto simp: s_def intro: filter_cong)
    have split: "filter (\<lambda>n. n_expire n = e) (get_slot T' s) =
        (if s = ?s0 then [] else filter (\<lambda>n. n_expire n = e) (get_slot T s)) @ filter (\<lambda>n. n_expire n = e) (get_slot T ?s0)"
      unfolding get [OF sok] filter_append mv0 by (simp only: if_distrib [of "filter _"] filter.simps)
    show "calendar T' e = calendar T e"
    proof (cases "slot_of e (tm_time T) = ?s0")
      case True
      then have "s = ?s0 \<or> filter (\<lambda>n. n_expire n = e) (get_slot T s) = []"
        using filter_expire_other [OF inv sok] by metis
      then show ?thesis using c' split True by (auto simp: calendar_def)
    next
      case False
      have z: "filter (\<lambda>n. n_expire n = e) (get_slot T ?s0) = []" using filter_expire_other [OF inv s0 False] .
      let ?r = "slot_of e (tm_time T)"
      have rok: "slot_ok ?r" by (rule slot_of_ok)
      show ?thesis
      proof (cases "filter (\<lambda>n. n_expire n = e) (get_slot T ?r) = []")
        case True
        then have "filter (\<lambda>n. n_expire n = e) (get_slot T s) = []"
          using filter_expire_other [OF inv sok, of e] by (cases "?r = s") simp_all
        then show ?thesis using c' split z True by (simp add: calendar_def)
      next
        case nonempty: False
        then obtain n where "n \<in> set (get_slot T ?r)" "n_expire n = e" by (auto simp: filter_empty_conv)
        then have "s = ?r" using keep [OF rok False] unfolding s_def by metis
        then show ?thesis using c' split z False by (simp add: calendar_def)
      qed
    qed
  qed
qed

lemma level_slot_bounds: "level_slot (Suc l) e = Lvl l i \<Longrightarrow> i < 64"
  using unat_mask_less [of _ 6] by (auto simp: level_slot_def)

lemma wheel_shift:
  assumes inv: "wheel_inv T" and empty: "calendar T (tm_time T) = []"
  obtains T' where "timer_shift T = Some T'" and "wheel_inv T'" and "calendar T' = calendar T"
    and "tm_time T' = tm_time T + 1"
proof -
  let ?T1 = "T\<lparr>tm_time := tm_time T + 1\<rparr>"
  have ts: "timer_shift T =
      Some (case shift_slot (tm_time T + 1) of Some (Lvl l i) \<Rightarrow> move_list ?T1 l i | _ \<Rightarrow> ?T1)"
    by (simp add: timer_shift_slot Let_def)
  have bounds: "l < 4 \<and> i < 64" if "shift_slot (tm_time T + 1) = Some (Lvl l i)" for l i
    using that unat_mask_less [of _ 6]
    by (auto simp: shift_slot_def level_slot_def split: if_splits)
  show ?thesis
  proof (cases "shift_slot (tm_time T + 1)")
    case None
    have g: "get_slot ?T1 s = get_slot T s" for s by (cases s) simp_all
    have same: "slot_of (n_expire n) (tm_time T + 1) = s" "due_within (tm_time T + 1) (n_expire n)"
      if "slot_ok s" "n \<in> set (get_slot T s)" for s n
      using slot_of_step [OF wheel_invD(2) [OF inv that] no_due_now [OF inv empty that]]
        due_within_step [OF wheel_invD(2) [OF inv that] no_due_now [OF inv empty that]]
        wheel_invD(1) [OF inv that] None by simp_all
    have i1: "wheel_inv ?T1"
      using inv same by (simp add: wheel_inv_def g timer_shape_def)
    have "calendar ?T1 e = calendar T e" for e
    proof -
      let ?s = "slot_of e (tm_time T)" and ?s1 = "slot_of e (tm_time T + 1)"
      show ?thesis
      proof (cases "?s1 = ?s")
        case False
        have "filter (\<lambda>n. n_expire n = e) (get_slot T ?s) = []"
          using filter_expire_other [OF i1 slot_of_ok, of e e "tm_time T"] False by (simp add: g)
        moreover have "filter (\<lambda>n. n_expire n = e) (get_slot T ?s1) = []"
          using filter_expire_other [OF inv slot_of_ok, of e e "tm_time T + 1"] False by simp
        ultimately show ?thesis by (simp add: calendar_def g)
      qed (simp add: calendar_def g)
    qed
    then show ?thesis using that [of ?T1] ts None i1 by auto
  next
    case (Some s)
    then obtain l i where s: "s = Lvl l i"
      by (cases s) (auto simp: shift_slot_def level_slot_def split: if_splits)
    have ss: "shift_slot (tm_time T + 1) = Some (Lvl l i)" using Some s by simp
    show ?thesis
      using that [of "move_list ?T1 l i"] ts ss wheel_move [OF inv empty _ _ ss] bounds [OF ss] by simp
  qed
qed

lemma slot_of_now: "slot_of now now = Near (unat (now AND mask 8))"
  by (simp add: slot_of_def level_slot_def wheel_level_def same_block_def)

lemma slot_of_near_now: "slot_of e now = Near (unat (now AND mask 8)) \<Longrightarrow> e = now"
proof -
  assume a: "slot_of e now = Near (unat (now AND mask 8))"
  then have b: "same_block 8 e now" and m: "unat (e AND mask 8) = unat (now AND mask 8)"
    by (auto simp: slot_of_def level_slot_def wheel_level_def split: if_splits)
  have "unat e div 2 ^ 8 = unat now div 2 ^ 8" "unat e mod 2 ^ 8 = unat now mod 2 ^ 8"
    using b m by (simp_all only: same_block_nat unat_and_mask)
  then have "unat e = unat now" by (metis div_mult_mod_eq)
  then show ?thesis by (simp add: word_unat_eq_iff)
qed

text \<open>The slot that \<open>timer_execute\<close> empties: \<open>near[time & TIME_NEAR_MASK]\<close>.\<close>

definition due_slot :: "'e timer \<Rightarrow> slot" where
  "due_slot T = Near (unat (tm_time T AND TIME_NEAR_MASK))"

lemma wheel_take:
  assumes inv: "wheel_inv T"
  shows "map n_event (fst (link_clear T (due_slot T))) = calendar T (tm_time T)"
    and "wheel_inv (snd (link_clear T (due_slot T)))"
    and "calendar (snd (link_clear T (due_slot T))) = (calendar T)(tm_time T := [])"
    and "tm_time (snd (link_clear T (due_slot T))) = tm_time T"
proof -
  have s: "due_slot T = slot_of (tm_time T) (tm_time T)"
    by (simp add: due_slot_def slot_of_now time_masks)
  have sok: "slot_ok (due_slot T)" by (simp add: s slot_of_ok)
  have sh: "timer_shape T" using inv by (simp add: wheel_inv_def)
  let ?T = "put_slot T (due_slot T) []"
  note gp = get_put_slot [OF sh sok]
  have all: "n_expire n = tm_time T" if "n \<in> set (get_slot T (due_slot T))" for n
    using wheel_invD(1) [OF inv sok that] by (intro slot_of_near_now) (simp add: due_slot_def time_masks)
  show "map n_event (fst (link_clear T (due_slot T))) = calendar T (tm_time T)"
    using all by (simp add: link_clear_def calendar_def s filter_id_conv)
  show "wheel_inv (snd (link_clear T (due_slot T)))"
    using inv by (auto simp: link_clear_def wheel_inv_def put_slot_shape [OF sh] gp split: if_splits)
  show "tm_time (snd (link_clear T (due_slot T))) = tm_time T" by (simp add: link_clear_def)
  show "calendar (snd (link_clear T (due_slot T))) = (calendar T)(tm_time T := [])"
  proof (rule ext)
    fix e
    show "calendar (snd (link_clear T (due_slot T))) e = ((calendar T)(tm_time T := [])) e"
    proof (cases "slot_of e (tm_time T) = due_slot T")
      case True
      then have "e = tm_time T" by (intro slot_of_near_now) (simp add: due_slot_def time_masks)
      then show ?thesis by (simp add: link_clear_def calendar_def gp [unfolded s] slot_of_ok s)
    next
      case False
      then have "e \<noteq> tm_time T" using s by auto
      then show ?thesis using False by (simp add: link_clear_def calendar_def gp slot_of_ok)
    qed
  qed
qed

section \<open>The contract of the wheel\<close>

text \<open>
  \<open>cal\<close> is the calendar and \<open>now\<close> the clock; \<open>take_due\<close> removes the events of the current tick.
  The client lemma says what a full tick of \<open>timer_update\<close> does: it hands out the events left over
  for the current instant, then exactly the events filed under the next one.
\<close>

locale timing_wheel =
  fixes inv :: "'w \<Rightarrow> bool"
    and cal :: "'w \<Rightarrow> u32 \<Rightarrow> 'e list"
    and now :: "'w \<Rightarrow> u32"
    and add :: "'w \<Rightarrow> 'e \<Rightarrow> u32 \<Rightarrow> 'w"
    and shift :: "'w \<Rightarrow> 'w option"
    and take_due :: "'w \<Rightarrow> 'e list \<times> 'w"
  assumes add_law: "inv w \<Longrightarrow> unat d < 2 ^ 31 \<Longrightarrow>
      inv (add w ev d) \<and> now (add w ev d) = now w \<and>
      cal (add w ev d) = (cal w)(d + now w := cal w (d + now w) @ [ev])"
    and shift_law: "inv w \<Longrightarrow> cal w (now w) = [] \<Longrightarrow>
      \<exists>w'. shift w = Some w' \<and> inv w' \<and> cal w' = cal w \<and> now w' = now w + 1"
    and take_law: "inv w \<Longrightarrow> take_due w = (evs, w') \<Longrightarrow>
      evs = cal w (now w) \<and> inv w' \<and> now w' = now w \<and> cal w' = (cal w)(now w := [])"
begin

text \<open>Emptying the current instant, advancing the clock, emptying the new instant.\<close>

lemma tick_calendar:
  assumes w: "inv w" and t1: "take_due w = (late, w1)"
  obtains w2 due w3 where "shift w1 = Some w2" and "take_due w2 = (due, w3)"
    and "late = cal w (now w)" and "due = cal w (now w + 1)" and "inv w3"
    and "now w3 = now w + 1" and "cal w3 = (cal w)(now w := [], now w + 1 := [])"
    and "inv w1" and "inv w2" and "cal w1 (now w1) = []" and "cal w3 (now w3) = []"
proof -
  note l1 = take_law [OF w t1]
  obtain w2 where s: "shift w1 = Some w2" "inv w2" "cal w2 = cal w1" "now w2 = now w1 + 1"
    using shift_law [of w1] l1 by auto
  obtain due w3 where t2: "take_due w2 = (due, w3)" by fastforce
  note l2 = take_law [OF s(2) t2]
  have "now w + 1 \<noteq> now w" by simp
  then show ?thesis
    using that [of w2 due w3] l1 l2 s t2 by simp
qed

end

definition take_due :: "'e timer \<Rightarrow> 'e list \<times> 'e timer" where
  "take_due T = (let (ns, T') = link_clear T (due_slot T) in (map n_event ns, T'))"

interpretation wheel: timing_wheel wheel_inv calendar tm_time timer_add timer_shift take_due
proof unfold_locales
  show "wheel_inv (timer_add w ev d) \<and> tm_time (timer_add w ev d) = tm_time w \<and>
      calendar (timer_add w ev d) = (calendar w)(d + tm_time w := calendar w (d + tm_time w) @ [ev])"
    if "wheel_inv w" "unat d < 2 ^ 31" for w :: "'e timer" and ev d
    using wheel_add [OF that] by blast
  show "\<exists>w'. timer_shift w = Some w' \<and> wheel_inv w' \<and> calendar w' = calendar w \<and> tm_time w' = tm_time w + 1"
    if "wheel_inv w" "calendar w (tm_time w) = []" for w :: "'e timer"
    using wheel_shift [OF that] by metis
  show "evs = calendar w (tm_time w) \<and> wheel_inv w' \<and> tm_time w' = tm_time w \<and>
      calendar w' = (calendar w)(tm_time w := [])"
    if "wheel_inv w" "take_due w = (evs, w')" for w :: "'e timer" and evs w'
    using wheel_take [OF that(1)] that(2) by (auto simp: take_due_def case_prod_beta Let_def)
qed

section \<open>Dispatching\<close>

text \<open>
  \<open>cb\<close> stands for \<open>GameTimer::TimerTimeout\<close>, which \<open>dispatch_list\<close> calls for every node; \<open>None\<close> is a
  failure of the callback.  The wheel is not touched while a list is dispatched.
\<close>

fun dispatch_list :: "('e \<Rightarrow> 's \<Rightarrow> 's option) \<Rightarrow> 'e timer_node list \<Rightarrow> 's \<Rightarrow> 's option" where
  "dispatch_list cb [] s = Some s"
| "dispatch_list cb (n # ns) s = do { s' \<leftarrow> cb (n_event n) s; dispatch_list cb ns s' }"

partial_function (option) timer_execute ::
    "('e \<Rightarrow> 's \<Rightarrow> 's option) \<Rightarrow> 'e timer \<Rightarrow> 's \<Rightarrow> ('e timer \<times> 's) option" where
  "timer_execute cb T s =
     (if get_slot T (due_slot T) = [] then Some (T, s)
      else do {
        s' \<leftarrow> dispatch_list cb (fst (link_clear T (due_slot T))) s;
        timer_execute cb (snd (link_clear T (due_slot T))) s'
      })"

definition timer_update :: "('e \<Rightarrow> 's \<Rightarrow> 's option) \<Rightarrow> 'e timer \<Rightarrow> 's \<Rightarrow> ('e timer \<times> 's) option" where
  "timer_update cb T s =
     do {
       (T1, s1) \<leftarrow> timer_execute cb T s;
       T2 \<leftarrow> timer_shift T1;
       timer_execute cb T2 s1
     }"

primrec run_events :: "('e \<Rightarrow> 's \<Rightarrow> 's option) \<Rightarrow> 'e list \<Rightarrow> 's \<Rightarrow> 's option" where
  "run_events cb [] s = Some s"
| "run_events cb (e # es) s = do { s' \<leftarrow> cb e s; run_events cb es s' }"

lemma dispatch_run: "dispatch_list cb ns = run_events cb (map n_event ns)"
  by (induction ns; rule ext; simp)

lemma put_slot_same: "get_slot T s = [] \<Longrightarrow> put_slot T s [] = T"
proof (cases s)
  case (Near i)
  moreover assume "get_slot T s = []"
  ultimately have "(tm_near T)[i := []] = tm_near T" by (metis get_slot.simps(1) list_update_id)
  then show ?thesis using Near by simp
next
  case (Lvl l i)
  moreover assume "get_slot T s = []"
  ultimately have "(tm_t T)[l := (tm_t T ! l)[i := []]] = tm_t T" by (metis get_slot.simps(2) list_update_id)
  then show ?thesis using Lvl by simp
qed

text \<open>\<open>timer_execute\<close> ends after at most one round, since the emptied slot is not refilled.\<close>

lemma timer_execute_spec:
  assumes inv: "wheel_inv T" and t: "take_due T = (evs, T')"
  shows "timer_execute cb T s = map_option (\<lambda>s'. (T', s')) (run_events cb evs s)"
proof -
  define ns where "ns = get_slot T (due_slot T)"
  have T': "T' = put_slot T (due_slot T) []" and evs: "evs = map n_event ns"
    using t by (simp_all add: take_due_def link_clear_def ns_def)
  have sh: "timer_shape T" using inv by (simp add: wheel_inv_def)
  have d: "due_slot T' = due_slot T" by (simp add: T' due_slot_def)
  have ok: "slot_ok (due_slot T)" using unat_mask_less [of _ 8] by (simp add: due_slot_def time_masks)
  have e: "get_slot T' (due_slot T') = []" unfolding d by (simp add: T' get_put_slot [OF sh ok ok])
  have stop: "timer_execute cb T' s' = Some (T', s')" for s'
    by (subst timer_execute.simps) (simp add: e)
  show ?thesis
  proof (cases "ns = []")
    case True
    then have "T' = T" using put_slot_same [of T "due_slot T"] by (simp add: T' ns_def)
    then show ?thesis using True stop evs by simp
  next
    case False
    then have "timer_execute cb T s = do { s' \<leftarrow> dispatch_list cb ns s; timer_execute cb T' s' }"
      by (subst timer_execute.simps) (simp add: ns_def T' link_clear_def)
    then show ?thesis
      by (simp add: stop dispatch_run evs map_conv_bind_option comp_def)
  qed
qed

lemma timer_update_spec:
  assumes inv: "wheel_inv T"
  obtains T' where "timer_update cb T s =
      do { s1 \<leftarrow> run_events cb (calendar T (tm_time T)) s;
           s2 \<leftarrow> run_events cb (calendar T (tm_time T + 1)) s1; Some (T', s2) }"
    and "wheel_inv T'" and "tm_time T' = tm_time T + 1"
    and "calendar T' = (calendar T)(tm_time T := [], tm_time T + 1 := [])"
proof -
  obtain late T1 where t1: "take_due T = (late, T1)" by fastforce
  from wheel.tick_calendar [OF inv t1] obtain T2 due T3 where
    *: "timer_shift T1 = Some T2" "take_due T2 = (due, T3)" "late = calendar T (tm_time T)"
      "due = calendar T (tm_time T + 1)" "wheel_inv T3" "tm_time T3 = tm_time T + 1"
      "calendar T3 = (calendar T)(tm_time T := [], tm_time T + 1 := [])" "wheel_inv T2"
    by metis
  have "timer_update cb T s = do { s1 \<leftarrow> run_events cb late s; s2 \<leftarrow> run_events cb due s1; Some (T3, s2) }"
    unfolding timer_update_def timer_execute_spec [OF inv t1]
    by (simp add: *(1) timer_execute_spec [OF *(8) *(2)] map_conv_bind_option comp_def)
  then show ?thesis using that * by simp
qed

section \<open>Sequences of additions and ticks\<close>

datatype 'e wheel_op = AddOp 'e u32 | UpdateOp

definition record_cb :: "'e \<Rightarrow> 'e list \<Rightarrow> 'e list option" where
  "record_cb e log = Some (log @ [e])"

fun wheel_run :: "'e wheel_op list \<Rightarrow> 'e timer \<Rightarrow> 'e list \<Rightarrow> ('e timer \<times> 'e list) option" where
  "wheel_run [] T log = Some (T, log)"
| "wheel_run (AddOp ev d # ops) T log = wheel_run ops (timer_add T ev d) log"
| "wheel_run (UpdateOp # ops) T log =
     do { (T', log') \<leftarrow> timer_update record_cb T log; wheel_run ops T' log' }"

text \<open>The reference: a clock, a calendar and the events that have fired.\<close>

fun calendar_run :: "'e wheel_op list \<Rightarrow> u32 \<Rightarrow> (u32 \<Rightarrow> 'e list) \<Rightarrow> 'e list \<Rightarrow> u32 \<times> (u32 \<Rightarrow> 'e list) \<times> 'e list" where
  "calendar_run [] now cal log = (now, cal, log)"
| "calendar_run (AddOp ev d # ops) now cal log = calendar_run ops now (cal(d + now := cal (d + now) @ [ev])) log"
| "calendar_run (UpdateOp # ops) now cal log =
     calendar_run ops (now + 1) (cal(now := [], now + 1 := [])) (log @ cal now @ cal (now + 1))"

fun wheel_op_ok :: "'e wheel_op \<Rightarrow> bool" where
  "wheel_op_ok (AddOp ev d) \<longleftrightarrow> unat d < 2 ^ 31"
| "wheel_op_ok UpdateOp \<longleftrightarrow> True"

lemma run_events_record: "run_events record_cb es log = Some (log @ es)"
  by (induction es arbitrary: log) (simp_all add: record_cb_def)

lemma wheel_run_calendar:
  "wheel_inv T \<Longrightarrow> list_all wheel_op_ok ops \<Longrightarrow>
   \<exists>T' log'. wheel_run ops T log = Some (T', log') \<and> wheel_inv T' \<and>
     calendar_run ops (tm_time T) (calendar T) log = (tm_time T', calendar T', log')"
proof (induction ops arbitrary: T log)
  case (Cons op ops)
  show ?case
  proof (cases op)
    case (AddOp ev d)
    then have "unat d < 2 ^ 31" using Cons.prems(2) by simp
    note add = wheel_add [OF Cons.prems(1) this, of ev]
    have "\<exists>T' log'. wheel_run ops (timer_add T ev d) log = Some (T', log') \<and> wheel_inv T' \<and>
        calendar_run ops (tm_time (timer_add T ev d)) (calendar (timer_add T ev d)) log =
        (tm_time T', calendar T', log')"
      using Cons.IH add(1) Cons.prems(2) by simp
    then show ?thesis unfolding AddOp wheel_run.simps calendar_run.simps add(2,3) .
  next
    case UpdateOp
    obtain T' where u: "timer_update record_cb T log = Some (T', log @ calendar T (tm_time T) @ calendar T (tm_time T + 1))"
      and T': "wheel_inv T'" "tm_time T' = tm_time T + 1"
      "calendar T' = (calendar T)(tm_time T := [], tm_time T + 1 := [])"
      using timer_update_spec [OF Cons.prems(1), of record_cb log] by (simp add: run_events_record) metis
    let ?log = "log @ calendar T (tm_time T) @ calendar T (tm_time T + 1)"
    have "\<exists>T'' log'. wheel_run ops T' ?log = Some (T'', log') \<and> wheel_inv T'' \<and>
        calendar_run ops (tm_time T') (calendar T') ?log = (tm_time T'', calendar T'', log')"
      using Cons.IH T'(1) Cons.prems(2) by simp
    then show ?thesis
      unfolding UpdateOp wheel_run.simps calendar_run.simps u T'(2,3) by simp
  qed
qed simp

lemma calendar_run_snoc:
  "calendar_run (ops @ [UpdateOp]) now cal log =
     (case calendar_run ops now cal log of (now', cal', log') \<Rightarrow>
       (now' + 1, cal'(now' := [], now' + 1 := []), log' @ cal' now' @ cal' (now' + 1)))"
  by (induction ops now cal log rule: calendar_run.induct) (simp_all del: fun_upd_apply)

text \<open>One added event followed by \<open>n\<close> ticks, on the reference calendar.\<close>

lemma calendar_run_fires:
  fixes now d :: u32
  assumes d: "0 < unat d" "unat d < 2 ^ 31"
    and cal: "count_list (cal (now + d)) ev = 1" "\<And>e. e \<noteq> now + d \<Longrightarrow> ev \<notin> set (cal e)" and log: "ev \<notin> set log"
  shows "(case calendar_run (replicate n UpdateOp) now cal log of (now', cal', log') \<Rightarrow>
      now' = now + of_nat n \<and>
      (n < unat d \<longrightarrow> ev \<notin> set log' \<and> count_list (cal' (now + d)) ev = 1 \<and> (\<forall>e. e \<noteq> now + d \<longrightarrow> ev \<notin> set (cal' e))) \<and>
      (unat d \<le> n \<longrightarrow> count_list log' ev = 1 \<and> (\<forall>e. ev \<notin> set (cal' e))))"
proof (induction n)
  case 0
  then show ?case using d cal log by simp
next
  case (Suc n)
  have step: "calendar_run (replicate (Suc n) UpdateOp) now cal log =
      (case calendar_run (replicate n UpdateOp) now cal log of (now', cal', log') \<Rightarrow>
        (now' + 1, cal'(now' := [], now' + 1 := []), log' @ cal' now' @ cal' (now' + 1)))"
    by (simp only: replicate_Suc replicate_append_same [symmetric] calendar_run_snoc)
  obtain now' cal' log' where r: "calendar_run (replicate n UpdateOp) now cal log = (now', cal', log')"
    by (metis prod.exhaust)
  have ih: "now' = now + of_nat n"
    "n < unat d \<Longrightarrow> ev \<notin> set log' \<and> count_list (cal' (now + d)) ev = 1 \<and> (\<forall>e. e \<noteq> now + d \<longrightarrow> ev \<notin> set (cal' e))"
    "unat d \<le> n \<Longrightarrow> count_list log' ev = 1 \<and> (\<forall>e. ev \<notin> set (cal' e))"
    using Suc.IH r by simp_all
  have eq: "now + of_nat k = now + d \<longleftrightarrow> k = unat d" if "k \<le> unat d" for k
  proof -
    have "k < 2 ^ 32" using that d(2) by simp
    then have "unat (of_nat k :: u32) = k" by (rule unat_of_nat_u32)
    then show ?thesis by (metis add_left_cancel word_unat_eq_iff)
  qed
  have now1: "now' + 1 = now + of_nat (Suc n)" using ih(1) by simp
  consider "Suc n < unat d" | "Suc n = unat d" | "unat d \<le> n" by linarith
  then show ?case
  proof cases
    case 1
    then have "now' \<noteq> now + d" "now' + 1 \<noteq> now + d" using eq [of n] eq [of "Suc n"] ih(1) now1 by auto
    then show ?thesis unfolding step r prod.case by (intro conjI impI now1) (use 1 ih(2) in auto)
  next
    case 2
    then have "now' \<noteq> now + d" "now' + 1 = now + d" using eq [of n] eq [of "Suc n"] ih(1) now1 by auto
    then show ?thesis unfolding step r using 2 ih(2) now1 by (auto simp: count_list_append count_list_0_iff)
  next
    case 3
    then show ?thesis unfolding step r using ih(3) now1 by (auto simp: count_list_append count_list_0_iff)
  qed
qed

section \<open>Properties\<close>

text \<open>
  C3.  The wheel is a calendar.  For every sequence of additions (with delays below \<open>2 ^ 31\<close>) and
  ticks, from any state that satisfies the invariant and also when the 32-bit clock wraps, the
  wheel terminates, keeps its invariant and dispatches exactly the events that a calendar indexed
  by expiry time dispatches, in the same order: events with equal expiry fire in insertion order.
\<close>

theorem wheel_refines_calendar:
  assumes "wheel_inv T" and "list_all wheel_op_ok ops"
  shows "\<exists>T' log'. wheel_run ops T log = Some (T', log') \<and> wheel_inv T' \<and>
    calendar_run ops (tm_time T) (calendar T) log = (tm_time T', calendar T', log')"
  using assms by (rule wheel_run_calendar)

lemma wheel_inv_empty_at:
  "wheel_inv (timer_create_timer\<lparr>tm_time := now\<rparr> :: 'e timer)"
  "calendar (timer_create_timer\<lparr>tm_time := now\<rparr> :: 'e timer) e = []"
proof -
  have g: "get_slot (timer_create_timer\<lparr>tm_time := now\<rparr> :: 'e timer) s = get_slot timer_create_timer s" for s
    by (cases s) simp_all
  have z: "get_slot (timer_create_timer :: 'e timer) s = []" if "slot_ok s" for s
    using that by (cases s) (simp_all add: timer_create_timer_def TIME_NEAR_def TIME_LEVEL_def
        TIME_NEAR_SHIFT_def TIME_LEVEL_SHIFT_def)
  show "wheel_inv (timer_create_timer\<lparr>tm_time := now\<rparr> :: 'e timer)"
    using wheel_inv_create(1) [where ?'e = 'e] by (simp add: wheel_inv_def g z timer_shape_def)
  show "calendar (timer_create_timer\<lparr>tm_time := now\<rparr> :: 'e timer) e = []"
    by (simp add: calendar_def g z slot_of_ok)
qed

theorem wheel_refines_calendar_witness:
  "\<exists>T'. wheel_run [AddOp (7::nat) 3, UpdateOp, AddOp 8 2, UpdateOp, UpdateOp]
     (timer_create_timer\<lparr>tm_time := 0xFFFFFFFE\<rparr>) [] = Some (T', [7, 8]) \<and> tm_time T' = 1"
proof -
  have "list_all wheel_op_ok [AddOp (7::nat) 3, UpdateOp, AddOp 8 2, UpdateOp, UpdateOp]" by simp
  from wheel_refines_calendar [OF wheel_inv_empty_at(1) [of "0xFFFFFFFE"] this, of "[]"]
  show ?thesis by (auto simp: wheel_inv_empty_at(2))
qed

text \<open>
  C22.  Exact firing time.  An event filed with delay \<open>d\<close>, \<open>0 < d < 2 ^ 31\<close>, is dispatched exactly once,
  by the \<open>d\<close>-th following tick: not before, not later, and never again, whatever other events
  are pending and wherever the clock stands.
\<close>

theorem timer_fires_exactly_once:
  assumes "wheel_inv T" and "\<forall>e. ev \<notin> set (calendar T e)" and "0 < unat d" and "unat d < 2 ^ 31"
  shows "\<exists>T' log. wheel_run (AddOp ev d # replicate n UpdateOp) T [] = Some (T', log) \<and>
    count_list log ev = (if unat d \<le> n then 1 else 0)"
proof -
  define cal where "cal = (calendar T)(d + tm_time T := calendar T (d + tm_time T) @ [ev])"
  have ok: "list_all wheel_op_ok (AddOp ev d # replicate n UpdateOp)"
    using assms(4) by (simp add: list_all_iff)
  have c: "count_list (cal (tm_time T + d)) ev = 1" "\<And>e. e \<noteq> tm_time T + d \<Longrightarrow> ev \<notin> set (cal e)"
    using assms(2) by (auto simp: cal_def add.commute count_list_append count_list_0_iff)
  obtain T' log where run: "wheel_run (AddOp ev d # replicate n UpdateOp) T [] = Some (T', log)"
    and cr: "calendar_run (AddOp ev d # replicate n UpdateOp) (tm_time T) (calendar T) [] = (tm_time T', calendar T', log)"
    using wheel_run_calendar [OF assms(1) ok] by blast
  have "calendar_run (replicate n UpdateOp) (tm_time T) cal [] = (tm_time T', calendar T', log)"
    using cr unfolding calendar_run.simps cal_def .
  with calendar_run_fires [where d = d and cal = cal and now = "tm_time T" and log = "[]" and n = n,
      OF assms(3,4) c]
  have "n < unat d \<Longrightarrow> ev \<notin> set log" "unat d \<le> n \<Longrightarrow> count_list log ev = 1" by simp_all
  then show ?thesis using run by (cases "unat d \<le> n") (auto simp: count_list_0_iff)
qed

theorem timer_fires_exactly_once_witness:
  "\<exists>T' log. wheel_run (AddOp (7::nat) 300 # replicate 300 UpdateOp)
      (timer_create_timer\<lparr>tm_time := 0xFFFFFFFE\<rparr>) [] = Some (T', log) \<and> count_list log 7 = 1"
  using timer_fires_exactly_once [OF wheel_inv_empty_at(1), of 7 "0xFFFFFFFE" 300 300]
  by (simp add: wheel_inv_empty_at(2))

text \<open>
  C26.  The cascade loop of \<open>timer_shift\<close> always ends: for every wheel and every clock value it
  reaches a level below 4 before the \<open>int\<close> mask would overflow.
\<close>

theorem timer_shift_terminates: "\<exists>T'. timer_shift T = Some T'"
  by (simp only: timer_shift_slot) blast

end
