(* ===== verification/Game_Timer.thy ===== *)
theory Game_Timer
  imports Timer_Wheel C_String
begin

text \<open>
  The timer service of \<open>src/common/timer.h\<close> and \<open>timer.cpp\<close> (class \<open>GameTimer\<close>, \<open>TimerQueue\<close> and
  \<open>ST_TimerContext\<close>) on top of the timing wheel.  Contexts live in a heap of addresses, so that a
  dangling pointer is visible: reading a deleted context gives \<open>None\<close>.  The non-recursive spin lock
  \<open>m_stLock\<close> is a boolean; taking it while it is held never returns, which is \<open>None\<close> as well.
  Every entry of the wheel carries the handle and the context pointer, as \<open>struct timer_event\<close>.

  Abstractly the service is a calendar of live contexts (\<open>live\<close>): adding a key replaces the timer of
  that key, removing a key deletes it, and a tick moves the due contexts to their queues.
\<close>

section \<open>State\<close>

type_synonym addr = nat

record ST_TimerCallback =
  m_pFuncCallback :: nat
  m_pstArgs :: nat

record ST_TimerContext =
  m_dwHandle :: u32
  m_achTimerKey :: "byte list"
  m_stCallback :: ST_TimerCallback
  m_rstQueue :: nat

type_synonym timer_event = "u32 \<times> addr"

record GameTimer =
  m_dwCounter :: u32
  m_pstTimer :: "timer_event timer"
  m_stLock :: bool
  m_mContextMap :: "u32 \<rightharpoonup> addr"
  m_mTimerKeyMap :: "byte list \<rightharpoonup> u32"
  gt_heap :: "addr \<rightharpoonup> ST_TimerContext"
  gt_next :: addr
  gt_queues :: "nat \<Rightarrow> ST_TimerContext list"

definition GAMETIMER_MAX_TIMER_KEY_LEN :: nat where
  "GAMETIMER_MAX_TIMER_KEY_LEN = 128"

definition GAMETIMER_MAX_TIMER_KEY_LEN_EXTRA :: nat where
  "GAMETIMER_MAX_TIMER_KEY_LEN_EXTRA = 128 + 8"

definition UINT32_MAX :: u32 where
  "UINT32_MAX = - 1"

section \<open>Queues and contexts\<close>

definition timer_context ::
    "byte list \<Rightarrow> u32 \<Rightarrow> ST_TimerCallback \<Rightarrow> nat \<Rightarrow> ST_TimerContext option" where
  "timer_context pchTimerKey dwHandle cb queue =
     do {
       key \<leftarrow> c_strncpy (replicate GAMETIMER_MAX_TIMER_KEY_LEN_EXTRA 0) pchTimerKey
                GAMETIMER_MAX_TIMER_KEY_LEN_EXTRA;
       Some \<lparr>m_dwHandle = dwHandle, m_achTimerKey = key, m_stCallback = cb, m_rstQueue = queue\<rparr>
     }"

definition PushQueue :: "ST_TimerContext \<Rightarrow> nat \<Rightarrow> GameTimer \<Rightarrow> GameTimer" where
  "PushQueue ctx q g = g\<lparr>gt_queues := (gt_queues g)(q := gt_queues g q @ [ctx])\<rparr>"

definition Timeout :: "ST_TimerContext \<Rightarrow> GameTimer \<Rightarrow> GameTimer" where
  "Timeout ctx g = PushQueue ctx (m_rstQueue ctx) g"

text \<open>
  \<open>PrepareExecute\<close> swaps the vector with the caller's and clears what came back: the caller gets
  all queued contexts and whatever it held is dropped.
\<close>

definition PrepareExecute :: "nat \<Rightarrow> ST_TimerContext list \<Rightarrow> GameTimer \<Rightarrow> ST_TimerContext list \<times> GameTimer" where
  "PrepareExecute q other g = (gt_queues g q, g\<lparr>gt_queues := (gt_queues g)(q := [])\<rparr>)"

definition Callback :: "ST_TimerContext \<Rightarrow> nat \<times> nat" where
  "Callback ctx = (m_pFuncCallback (m_stCallback ctx), m_pstArgs (m_stCallback ctx))"

section \<open>Handles\<close>

definition spin_lock :: "GameTimer \<Rightarrow> GameTimer option" where
  "spin_lock g = (if m_stLock g then None else Some (g\<lparr>m_stLock := True\<rparr>))"

definition spin_unlock :: "GameTimer \<Rightarrow> GameTimer" where
  "spin_unlock g = g\<lparr>m_stLock := False\<rparr>"

partial_function (option) RemoveTimerHandle :: "u32 \<Rightarrow> GameTimer \<Rightarrow> GameTimer option" where
  "RemoveTimerHandle handle g =
     (case m_mContextMap g handle of
        None \<Rightarrow> Some g
      | Some p \<Rightarrow>
          do {
            ctx \<leftarrow> gt_heap g p;
            let key = c_str (m_achTimerKey ctx);
            let g1 = (if m_mTimerKeyMap g key \<noteq> None
                      then g\<lparr>m_mTimerKeyMap := (m_mTimerKeyMap g)(key := None)\<rparr> else g);
            let g2 = g1\<lparr>gt_heap := (gt_heap g1)(p := None)\<rparr>;
            RemoveTimerHandle handle (g2\<lparr>m_mContextMap := (m_mContextMap g2)(handle := None)\<rparr>)
          })"

definition TimerTimeout :: "timer_event \<Rightarrow> GameTimer \<Rightarrow> GameTimer option" where
  "TimerTimeout ev g0 =
     do {
       g \<leftarrow> spin_lock g0;
       g1 \<leftarrow> (if m_mContextMap g (fst ev) \<noteq> None
              then do { ctx \<leftarrow> gt_heap g (snd ev); Some (Timeout ctx g) }
              else Some g);
       g2 \<leftarrow> RemoveTimerHandle (fst ev) g1;
       Some (spin_unlock g2)
     }"

partial_function (option) GenerateHandleID_loop :: "u32 \<Rightarrow> (u32 \<rightharpoonup> addr) \<Rightarrow> u32 option" where
  "GenerateHandleID_loop c m =
     (if m c \<noteq> None \<or> c \<ge> UINT32_MAX
      then GenerateHandleID_loop ((if c \<ge> UINT32_MAX then 0 else c) + 1) m
      else Some c)"

definition GenerateHandleID :: "GameTimer \<Rightarrow> (u32 \<times> GameTimer) option" where
  "GenerateHandleID g =
     do {
       c \<leftarrow> GenerateHandleID_loop (m_dwCounter g + 1) (m_mContextMap g);
       Some (c, g\<lparr>m_dwCounter := c\<rparr>)
     }"

section \<open>The public operations\<close>

definition AddTimerHandle :: "u32 \<Rightarrow> int \<Rightarrow> addr \<Rightarrow> GameTimer \<Rightarrow> GameTimer option" where
  "AddTimerHandle handle time ctx g =
     (if time \<le> 0 then TimerTimeout (handle, ctx) g
      else Some (g\<lparr>m_pstTimer := timer_add (m_pstTimer g) (handle, ctx) (word_of_int time)\<rparr>))"

definition AddTimer ::
    "byte list \<Rightarrow> int \<Rightarrow> ST_TimerCallback \<Rightarrow> nat \<Rightarrow> GameTimer \<Rightarrow> (int \<times> GameTimer) option" where
  "AddTimer sTimerKey time cb queue g0 =
     (if GAMETIMER_MAX_TIMER_KEY_LEN < length sTimerKey then Some (- 2, g0)
      else do {
        g1 \<leftarrow> spin_lock g0;
        g2 \<leftarrow> (case m_mTimerKeyMap g1 sTimerKey of
                 Some h \<Rightarrow> RemoveTimerHandle h g1 | None \<Rightarrow> Some g1);
        (h, g3) \<leftarrow> GenerateHandleID g2;
        ctx \<leftarrow> timer_context sTimerKey h cb queue;
        let p = gt_next g3;
        let g4 = g3\<lparr>gt_heap := (gt_heap g3)(p \<mapsto> ctx), gt_next := p + 1\<rparr>;
        let g5 = (if m_mContextMap g4 h = None
                  then g4\<lparr>m_mContextMap := (m_mContextMap g4)(h \<mapsto> p)\<rparr> else g4);
        let g6 = (if m_mTimerKeyMap g5 sTimerKey = None
                  then g5\<lparr>m_mTimerKeyMap := (m_mTimerKeyMap g5)(sTimerKey \<mapsto> h)\<rparr> else g5);
        g7 \<leftarrow> AddTimerHandle h time p g6;
        Some (0, spin_unlock g7)
      })"

definition AddTimer_cstr ::
    "byte list option \<Rightarrow> int \<Rightarrow> ST_TimerCallback \<Rightarrow> nat \<Rightarrow> GameTimer \<Rightarrow> (int \<times> GameTimer) option" where
  "AddTimer_cstr pchTimerKey time cb queue g =
     (case pchTimerKey of None \<Rightarrow> Some (- 1, g) | Some p \<Rightarrow> AddTimer (c_str p) time cb queue g)"

definition RemoveTimer :: "byte list \<Rightarrow> GameTimer \<Rightarrow> (int \<times> GameTimer) option" where
  "RemoveTimer sTimerKey g0 =
     (if GAMETIMER_MAX_TIMER_KEY_LEN < length sTimerKey then Some (- 2, g0)
      else do {
        g1 \<leftarrow> spin_lock g0;
        g2 \<leftarrow> (case m_mTimerKeyMap g1 sTimerKey of
                 Some h \<Rightarrow> RemoveTimerHandle h g1 | None \<Rightarrow> Some g1);
        Some (0, spin_unlock (g2\<lparr>m_mTimerKeyMap := (m_mTimerKeyMap g2)(sTimerKey := None)\<rparr>))
      })"

definition RemoveTimer_cstr :: "byte list option \<Rightarrow> GameTimer \<Rightarrow> (int \<times> GameTimer) option" where
  "RemoveTimer_cstr pchTimerKey g =
     (case pchTimerKey of None \<Rightarrow> Some (- 1, g) | Some p \<Rightarrow> RemoveTimer (c_str p) g)"

definition game_timer_update :: "GameTimer \<Rightarrow> GameTimer option" where
  "game_timer_update g =
     do {
       (T, g') \<leftarrow> timer_update TimerTimeout (m_pstTimer g) g;
       Some (g'\<lparr>m_pstTimer := T\<rparr>)
     }"

primrec update_times :: "nat \<Rightarrow> GameTimer \<Rightarrow> GameTimer option" where
  "update_times 0 g = Some g"
| "update_times (Suc n) g = do { g' \<leftarrow> game_timer_update g; update_times n g' }"

text \<open>\<open>cp\<close> is the centisecond clock read by \<open>gettime\<close>.\<close>

definition TimerUpdate :: "u64 \<Rightarrow> GameTimer \<Rightarrow> GameTimer option" where
  "TimerUpdate cp g =
     (let T = m_pstTimer g; point = tm_current_point T
      in if cp < point then Some (g\<lparr>m_pstTimer := T\<lparr>tm_current_point := cp\<rparr>\<rparr>)
         else if cp \<noteq> point then
           (let diff = (ucast (cp - point) :: u32)
            in update_times (unat diff)
                 (g\<lparr>m_pstTimer := T\<lparr>tm_current_point := cp, tm_current := tm_current T + ucast diff\<rparr>\<rparr>))
         else Some g)"

text \<open>
  \<open>systime\<close> and \<open>gettime\<close> on the values \<open>clock_gettime\<close> delivers, as pairs of seconds and nanoseconds.
\<close>

definition systime :: "u64 \<times> u64 \<Rightarrow> u32 \<times> u32" where
  "systime ti = (ucast (fst ti), ucast (snd ti div 10000000))"

definition gettime :: "u64 \<times> u64 \<Rightarrow> u64" where
  "gettime ti = fst ti * 100 + snd ti div 10000000"

definition TimerInit :: "u64 \<times> u64 \<Rightarrow> u64 \<times> u64 \<Rightarrow> GameTimer \<Rightarrow> GameTimer" where
  "TimerInit realtime monotonic g =
     (let (sec, cs) = systime realtime
      in g\<lparr>m_pstTimer := timer_create_timer\<lparr>tm_starttime := sec, tm_current := ucast cs,
             tm_current_point := gettime monotonic\<rparr>\<rparr>)"

definition GameTimer_new :: GameTimer where
  "GameTimer_new = \<lparr>m_dwCounter = 0, m_pstTimer = timer_create_timer, m_stLock = False,
     m_mContextMap = Map.empty, m_mTimerKeyMap = Map.empty, gt_heap = Map.empty, gt_next = 0,
     gt_queues = (\<lambda>_. [])\<rparr>"

section \<open>Invariant\<close>

definition key_of :: "ST_TimerContext \<Rightarrow> byte list" where
  "key_of c = c_str (m_achTimerKey c)"

text \<open>
  \<open>service_inv\<close>: the two maps describe the same live contexts, every live context is allocated and
  knows its handle, handles in use do not exceed the counter, and the lock is free.
  \<open>event_ok\<close>: a wheel entry whose handle is live points to the context of that handle.
\<close>

definition service_inv :: "GameTimer \<Rightarrow> bool" where
  "service_inv g \<longleftrightarrow> \<not> m_stLock g \<and>
     (\<forall>h p. m_mContextMap g h = Some p \<longrightarrow>
        h \<le> m_dwCounter g \<and>
        (\<exists>c. gt_heap g p = Some c \<and> m_dwHandle c = h \<and> m_mTimerKeyMap g (key_of c) = Some h)) \<and>
     (\<forall>k h. m_mTimerKeyMap g k = Some h \<longrightarrow>
        (\<exists>p c. m_mContextMap g h = Some p \<and> gt_heap g p = Some c \<and> key_of c = k)) \<and>
     (\<forall>p. gt_heap g p \<noteq> None \<longrightarrow> p < gt_next g)"

definition event_ok :: "GameTimer \<Rightarrow> timer_event \<Rightarrow> bool" where
  "event_ok g ev \<longleftrightarrow> fst ev \<le> m_dwCounter g \<and> (\<forall>p. m_mContextMap g (fst ev) = Some p \<longrightarrow> p = snd ev)"

definition timer_inv :: "GameTimer \<Rightarrow> bool" where
  "timer_inv g \<longleftrightarrow> service_inv g \<and> wheel_inv (m_pstTimer g) \<and>
     (\<forall>e. \<forall>ev\<in>set (calendar (m_pstTimer g) e). event_ok g ev) \<and>
     (\<forall>e. distinct (map fst (calendar (m_pstTimer g) e))) \<and>
     (\<forall>e e'. e \<noteq> e' \<longrightarrow>
        fst ` set (calendar (m_pstTimer g) e) \<inter> fst ` set (calendar (m_pstTimer g) e') = {})"

text \<open>The contexts that a list of wheel entries still refers to, in order.\<close>

definition live_of :: "GameTimer \<Rightarrow> timer_event list \<Rightarrow> ST_TimerContext list" where
  "live_of g evs = map (\<lambda>ev. the (gt_heap g (snd ev))) (filter (\<lambda>ev. m_mContextMap g (fst ev) \<noteq> None) evs)"

definition live :: "GameTimer \<Rightarrow> u32 \<Rightarrow> ST_TimerContext list" where
  "live g e = live_of g (calendar (m_pstTimer g) e)"

definition push_all :: "ST_TimerContext list \<Rightarrow> (nat \<Rightarrow> ST_TimerContext list) \<Rightarrow> nat \<Rightarrow> ST_TimerContext list" where
  "push_all cs qs q = qs q @ filter (\<lambda>c. m_rstQueue c = q) cs"

lemma service_invD:
  assumes "service_inv g" and "m_mContextMap g h = Some p"
  obtains c where "gt_heap g p = Some c" and "m_dwHandle c = h" and "m_mTimerKeyMap g (key_of c) = Some h"
    and "h \<le> m_dwCounter g"
  using assms unfolding service_inv_def by blast

lemma service_inv_key:
  assumes "service_inv g" and "m_mTimerKeyMap g k = Some h"
  obtains p c where "m_mContextMap g h = Some p" and "gt_heap g p = Some c" and "key_of c = k"
    and "m_dwHandle c = h"
  using assms unfolding service_inv_def by (metis option.inject)

lemma context_inj:
  assumes "service_inv g" and "m_mContextMap g h = Some p" and "m_mContextMap g h' = Some p"
  shows "h = h'"
  using service_invD [OF assms(1,2)] service_invD [OF assms(1,3)] by (metis option.inject)

lemma key_inj:
  assumes "service_inv g" and "m_mContextMap g h = Some p" and "m_mContextMap g h' = Some p'"
    and "gt_heap g p = Some c" and "gt_heap g p' = Some c'" and "key_of c = key_of c'"
  shows "h = h'"
  using service_invD [OF assms(1,2)] service_invD [OF assms(1,3)] assms(4-6) by (metis option.inject)

lemma RemoveTimerHandle_none: "m_mContextMap g h = None \<Longrightarrow> RemoveTimerHandle h g = Some g"
  by (subst RemoveTimerHandle.simps) simp

text \<open>The state after the timer with handle \<open>h\<close>, context \<open>c\<close> at \<open>p\<close>, has been removed.\<close>

definition drop_timer :: "u32 \<Rightarrow> addr \<Rightarrow> ST_TimerContext \<Rightarrow> GameTimer \<Rightarrow> GameTimer" where
  "drop_timer h p c g = g\<lparr>m_mTimerKeyMap := (m_mTimerKeyMap g)(key_of c := None),
     gt_heap := (gt_heap g)(p := None), m_mContextMap := (m_mContextMap g)(h := None)\<rparr>"

lemma drop_timer_simps [simp]:
  "m_dwCounter (drop_timer h p c g) = m_dwCounter g" "m_pstTimer (drop_timer h p c g) = m_pstTimer g"
  "m_stLock (drop_timer h p c g) = m_stLock g" "gt_next (drop_timer h p c g) = gt_next g"
  "gt_queues (drop_timer h p c g) = gt_queues g"
  "m_mContextMap (drop_timer h p c g) = (m_mContextMap g)(h := None)"
  "gt_heap (drop_timer h p c g) = (gt_heap g)(p := None)"
  "m_mTimerKeyMap (drop_timer h p c g) = (m_mTimerKeyMap g)(key_of c := None)"
  by (simp_all add: drop_timer_def)

lemma RemoveTimerHandle_some:
  assumes "m_mContextMap g h = Some p" and "gt_heap g p = Some c" and "m_mTimerKeyMap g (key_of c) \<noteq> None"
  shows "RemoveTimerHandle h g = Some (drop_timer h p c g)"
proof -
  have "m_mContextMap (drop_timer h p c g) h = None" by (simp add: drop_timer_def)
  then have "RemoveTimerHandle h (drop_timer h p c g) = Some (drop_timer h p c g)"
    by (rule RemoveTimerHandle_none)
  then show ?thesis
    using assms by (subst RemoveTimerHandle.simps) (simp add: drop_timer_def key_of_def Let_def)
qed

lemma drop_timer_inv:
  assumes inv: "service_inv g" and m: "m_mContextMap g h = Some p" and hp: "gt_heap g p = Some c"
  shows "service_inv (drop_timer h p c g)"
proof -
  have kc: "m_mTimerKeyMap g (key_of c) = Some h" using service_invD [OF inv m] hp by (metis option.inject)
  have 1: "\<exists>c'. gt_heap (drop_timer h p c g) p' = Some c' \<and> m_dwHandle c' = h' \<and>
      m_mTimerKeyMap (drop_timer h p c g) (key_of c') = Some h'"
    if t: "m_mContextMap g h' = Some p'" "h' \<noteq> h" for h' p'
  proof -
    obtain c' where c': "gt_heap g p' = Some c'" "m_dwHandle c' = h'" "m_mTimerKeyMap g (key_of c') = Some h'"
      using service_invD [OF inv t(1)] by metis
    have "p' \<noteq> p" using context_inj [OF inv m] t by metis
    moreover have "key_of c' \<noteq> key_of c" using c'(3) kc t(2) by auto
    ultimately show ?thesis using c' by simp
  qed
  have 2: "\<exists>p' c'. m_mContextMap (drop_timer h p c g) h' = Some p' \<and> gt_heap (drop_timer h p c g) p' = Some c' \<and> key_of c' = k"
    if t: "m_mTimerKeyMap g k = Some h'" "k \<noteq> key_of c" for k h'
  proof -
    obtain p' c' where c': "m_mContextMap g h' = Some p'" "gt_heap g p' = Some c'" "key_of c' = k"
      using service_inv_key [OF inv t(1)] by metis
    have "p' \<noteq> p" using c' hp t(2) by auto
    moreover have "h' \<noteq> h" using c' m \<open>p' \<noteq> p\<close> by auto
    ultimately show ?thesis using c' by simp
  qed
  show ?thesis
    unfolding service_inv_def
  proof (intro conjI allI impI)
    show "\<not> m_stLock (drop_timer h p c g)" using inv by (simp add: service_inv_def)
    fix h' p' assume "m_mContextMap (drop_timer h p c g) h' = Some p'"
    then have a: "m_mContextMap g h' = Some p'" "h' \<noteq> h" by (auto split: if_splits)
    then show "h' \<le> m_dwCounter (drop_timer h p c g)"
      using service_invD [OF inv a(1)] by auto
    show "\<exists>c'. gt_heap (drop_timer h p c g) p' = Some c' \<and> m_dwHandle c' = h' \<and>
        m_mTimerKeyMap (drop_timer h p c g) (key_of c') = Some h'" using 1 a by blast
  next
    fix k h' assume "m_mTimerKeyMap (drop_timer h p c g) k = Some h'"
    then have "m_mTimerKeyMap g k = Some h'" "k \<noteq> key_of c" by (auto split: if_splits)
    then show "\<exists>p' c'. m_mContextMap (drop_timer h p c g) h' = Some p' \<and> gt_heap (drop_timer h p c g) p' = Some c' \<and> key_of c' = k"
      by (rule 2)
  next
    fix p' assume "gt_heap (drop_timer h p c g) p' \<noteq> None"
    then have "gt_heap g p' \<noteq> None" by (auto split: if_splits)
    then show "p' < gt_next (drop_timer h p c g)" using inv by (simp add: service_inv_def)
  qed
qed

section \<open>Firing\<close>

text \<open>What \<open>TimerTimeout\<close> amounts to when the lock is free.\<close>

definition fire :: "timer_event \<Rightarrow> GameTimer \<Rightarrow> GameTimer" where
  "fire ev g = (case m_mContextMap g (fst ev) of
      None \<Rightarrow> g
    | Some p \<Rightarrow> drop_timer (fst ev) p (the (gt_heap g p)) (Timeout (the (gt_heap g p)) g))"

lemma Timeout_simps [simp]:
  "m_dwCounter (Timeout c g) = m_dwCounter g" "m_pstTimer (Timeout c g) = m_pstTimer g"
  "m_stLock (Timeout c g) = m_stLock g" "gt_next (Timeout c g) = gt_next g"
  "m_mContextMap (Timeout c g) = m_mContextMap g" "gt_heap (Timeout c g) = gt_heap g"
  "m_mTimerKeyMap (Timeout c g) = m_mTimerKeyMap g"
  "gt_queues (Timeout c g) = push_all [c] (gt_queues g)"
  by (auto simp: Timeout_def PushQueue_def push_all_def)

lemma Timeout_service_inv [simp]: "service_inv (Timeout c g) = service_inv g"
  by (simp add: service_inv_def)

lemma fire_simps [simp]:
  "m_dwCounter (fire ev g) = m_dwCounter g" "m_pstTimer (fire ev g) = m_pstTimer g"
  "gt_next (fire ev g) = gt_next g" "m_mContextMap (fire ev g) = (m_mContextMap g)(fst ev := None)"
  by (auto simp: fire_def split: option.splits)

lemma lock_commutes:
  assumes "\<not> m_stLock g"
  shows "spin_unlock (drop_timer h p c (Timeout c' (g\<lparr>m_stLock := True\<rparr>))) = drop_timer h p c (Timeout c' g)"
    and "spin_unlock (g\<lparr>m_stLock := True\<rparr>) = g"
    and "spin_unlock (drop_timer h p c (g\<lparr>m_stLock := True\<rparr>)) = drop_timer h p c g"
  using assms by (cases g; simp add: spin_unlock_def drop_timer_def Timeout_def PushQueue_def)+

lemma TimerTimeout_spec:
  assumes inv: "service_inv g" and ok: "event_ok g ev"
  shows "TimerTimeout ev g = Some (fire ev g)" and "service_inv (fire ev g)"
proof -
  let ?L = "g\<lparr>m_stLock := True\<rparr>"
  have nl: "\<not> m_stLock g" using inv by (simp add: service_inv_def)
  have lk: "spin_lock g = Some ?L" using nl by (simp add: spin_lock_def)
  have "TimerTimeout ev g = Some (fire ev g) \<and> service_inv (fire ev g)"
  proof (cases "m_mContextMap g (fst ev)")
    case None
    then have "RemoveTimerHandle (fst ev) ?L = Some ?L" by (intro RemoveTimerHandle_none) simp
    then have "TimerTimeout ev g = Some (spin_unlock ?L)"
      using None by (simp add: TimerTimeout_def lk)
    then show ?thesis using None inv by (simp add: lock_commutes(2) [OF nl] fire_def)
  next
    case (Some p)
    then have p: "p = snd ev" using ok by (simp add: event_ok_def)
    obtain c where c: "gt_heap g p = Some c" "m_mTimerKeyMap g (key_of c) = Some (fst ev)"
      using service_invD [OF inv Some] by blast
    have rm: "RemoveTimerHandle (fst ev) (Timeout c ?L) = Some (drop_timer (fst ev) p c (Timeout c ?L))"
      using Some c by (intro RemoveTimerHandle_some) simp_all
    have s1: "(if m_mContextMap ?L (fst ev) \<noteq> None
        then do { ctx \<leftarrow> gt_heap ?L (snd ev); Some (Timeout ctx ?L) } else Some ?L) = Some (Timeout c ?L)"
      using Some c p by simp
    have "TimerTimeout ev g = Some (spin_unlock (drop_timer (fst ev) p c (Timeout c ?L)))"
      unfolding TimerTimeout_def lk by (simp only: bind.bind_lunit s1 rm)
    then have "TimerTimeout ev g = Some (fire ev g)"
      unfolding lock_commutes(1) [OF nl] by (simp add: fire_def Some c)
    moreover have "service_inv (fire ev g)"
      using drop_timer_inv [of "Timeout c g" "fst ev" p c] inv Some c by (simp add: fire_def)
    ultimately show ?thesis ..
  qed
  then show "TimerTimeout ev g = Some (fire ev g)" "service_inv (fire ev g)" by auto
qed

lemma fire_heap:
  assumes "service_inv g" and "m_mContextMap (fire ev g) h = Some p"
  shows "gt_heap (fire ev g) p = gt_heap g p"
proof -
  have h: "m_mContextMap g h = Some p" "h \<noteq> fst ev" using assms(2) by (auto split: if_splits)
  show ?thesis
  proof (cases "m_mContextMap g (fst ev)")
    case (Some p')
    have "p' \<noteq> p" using context_inj [OF assms(1) h(1), of "fst ev"] Some h(2) by auto
    then show ?thesis using Some by (simp add: fire_def)
  qed (simp add: fire_def)
qed

lemma fire_event_ok: "event_ok g ev' \<Longrightarrow> event_ok (fire ev g) ev'"
  by (simp add: event_ok_def)

lemma live_of_fire:
  assumes inv: "service_inv g" and ok: "\<forall>ev'\<in>set evs. event_ok g ev'" and ne: "fst ev \<notin> fst ` set evs"
  shows "live_of (fire ev g) evs = live_of g evs"
  unfolding live_of_def
proof (rule map_cong)
  show "filter (\<lambda>ev'. m_mContextMap (fire ev g) (fst ev') \<noteq> None) evs =
      filter (\<lambda>ev'. m_mContextMap g (fst ev') \<noteq> None) evs"
  proof (rule filter_cong [OF refl])
    fix x assume "x \<in> set evs"
    then have "fst x \<noteq> fst ev" using ne by (metis image_eqI)
    then show "(m_mContextMap (fire ev g) (fst x) \<noteq> None) = (m_mContextMap g (fst x) \<noteq> None)" by simp
  qed
next
  fix x assume "x \<in> set (filter (\<lambda>ev'. m_mContextMap g (fst ev') \<noteq> None) evs)"
  then have x: "x \<in> set evs" "m_mContextMap g (fst x) \<noteq> None" by auto
  then have "m_mContextMap g (fst x) = Some (snd x)" using ok by (auto simp: event_ok_def)
  moreover have "fst x \<noteq> fst ev" using x(1) ne by (metis image_eqI)
  ultimately show "the (gt_heap (fire ev g) (snd x)) = the (gt_heap g (snd x))"
    using fire_heap [OF inv, of ev "fst x" "snd x"] by simp
qed

lemma live_of_Cons:
  assumes inv: "service_inv g" and ok: "event_ok g ev"
  shows "push_all (live_of g (ev # evs)) (gt_queues g) = push_all (live_of g evs) (gt_queues (fire ev g))"
proof (cases "m_mContextMap g (fst ev)")
  case (Some p)
  then have "p = snd ev" using ok by (simp add: event_ok_def)
  then show ?thesis
    using Some by (simp add: live_of_def fire_def push_all_def fun_eq_iff)
qed (simp add: live_of_def fire_def)

lemma run_timeouts:
  "service_inv g \<Longrightarrow> \<forall>ev\<in>set evs. event_ok g ev \<Longrightarrow> distinct (map fst evs) \<Longrightarrow>
   \<exists>g'. run_events TimerTimeout evs g = Some g' \<and> service_inv g' \<and>
     m_dwCounter g' = m_dwCounter g \<and> m_pstTimer g' = m_pstTimer g \<and> gt_next g' = gt_next g \<and>
     (\<forall>h. m_mContextMap g' h = (if h \<in> fst ` set evs then None else m_mContextMap g h)) \<and>
     (\<forall>h p. m_mContextMap g' h = Some p \<longrightarrow> gt_heap g' p = gt_heap g p) \<and>
     gt_queues g' = push_all (live_of g evs) (gt_queues g)"
proof (induction evs arbitrary: g)
  case Nil
  then show ?case by (auto simp: live_of_def push_all_def)
next
  case (Cons ev evs)
  have ok: "event_ok g ev" using Cons.prems by simp
  note tt = TimerTimeout_spec [OF Cons.prems(1) ok]
  have "\<forall>ev'\<in>set evs. event_ok (fire ev g) ev'" using Cons.prems(2) fire_event_ok by simp
  with Cons.IH [OF tt(2)] Cons.prems(3) obtain g' where
    g': "run_events TimerTimeout evs (fire ev g) = Some g'" "service_inv g'"
      "m_dwCounter g' = m_dwCounter g" "m_pstTimer g' = m_pstTimer g" "gt_next g' = gt_next g"
      "\<forall>h. m_mContextMap g' h = (if h \<in> fst ` set evs then None else m_mContextMap (fire ev g) h)"
      "\<forall>h p. m_mContextMap g' h = Some p \<longrightarrow> gt_heap g' p = gt_heap (fire ev g) p"
      "gt_queues g' = push_all (live_of (fire ev g) evs) (gt_queues (fire ev g))"
    by auto
  have heap: "gt_heap g' p = gt_heap g p" if "m_mContextMap g' h = Some p" for h p
  proof -
    have "m_mContextMap (fire ev g) h = Some p" using g'(6) that by (auto split: if_splits)
    then show ?thesis using g'(7) that fire_heap [OF Cons.prems(1)] by metis
  qed
  have q: "gt_queues g' = push_all (live_of g (ev # evs)) (gt_queues g)"
    using g'(8) live_of_Cons [OF Cons.prems(1) ok] live_of_fire [OF Cons.prems(1), of evs ev] Cons.prems(2,3)
    by simp
  show ?case
  proof (intro exI [of _ g'] conjI)
    show "run_events TimerTimeout (ev # evs) g = Some g'" using tt(1) g'(1) by simp
    show "\<forall>h. m_mContextMap g' h = (if h \<in> fst ` set (ev # evs) then None else m_mContextMap g h)"
      using g'(6) by simp
  qed (use g' heap q in blast)+
qed

lemma run_events_append: "run_events cb (xs @ ys) s = do { s' \<leftarrow> run_events cb xs s; run_events cb ys s' }"
  by (induction xs arbitrary: s) simp_all

lemma timer_invD:
  assumes "timer_inv g"
  shows "service_inv g" and "wheel_inv (m_pstTimer g)"
    and "ev \<in> set (calendar (m_pstTimer g) e) \<Longrightarrow> event_ok g ev"
    and "distinct (map fst (calendar (m_pstTimer g) e))"
    and "e \<noteq> e' \<Longrightarrow> fst ` set (calendar (m_pstTimer g) e) \<inter> fst ` set (calendar (m_pstTimer g) e') = {}"
  using assms unfolding timer_inv_def by blast+

lemma live_of_cong:
  assumes "\<And>ev. ev \<in> set evs \<Longrightarrow> m_mContextMap g' (fst ev) = m_mContextMap g (fst ev)"
    and "\<And>ev. ev \<in> set evs \<Longrightarrow> m_mContextMap g (fst ev) \<noteq> None \<Longrightarrow> gt_heap g' (snd ev) = gt_heap g (snd ev)"
  shows "live_of g' evs = live_of g evs"
  unfolding live_of_def
proof (rule map_cong)
  show "filter (\<lambda>ev. m_mContextMap g' (fst ev) \<noteq> None) evs = filter (\<lambda>ev. m_mContextMap g (fst ev) \<noteq> None) evs"
    by (rule filter_cong [OF refl]) (simp add: assms(1))
qed (use assms(2) in simp)

text \<open>One tick of the service.\<close>

lemma game_timer_update_spec:
  assumes inv: "timer_inv g"
  defines "now \<equiv> tm_time (m_pstTimer g)"
  obtains g' where "game_timer_update g = Some g'" and "timer_inv g'"
    and "tm_time (m_pstTimer g') = now + 1" and "m_dwCounter g' = m_dwCounter g"
    and "live g' = (live g)(now := [], now + 1 := [])"
    and "gt_queues g' = push_all (live g now @ live g (now + 1)) (gt_queues g)"
proof -
  let ?cal = "calendar (m_pstTimer g)"
  define evs where "evs = ?cal now @ ?cal (now + 1)"
  note D = timer_invD [OF inv]
  have nn: "now \<noteq> now + 1" by simp
  have dist: "distinct (map fst evs)"
    using D(4) [of now] D(4) [of "now + 1"] D(5) [OF nn] by (simp add: evs_def)
  have ok: "\<forall>ev\<in>set evs. event_ok g ev" using D(3) by (auto simp: evs_def)
  from run_timeouts [OF D(1) ok dist] obtain g1 where
    g1: "run_events TimerTimeout evs g = Some g1" "service_inv g1" "m_dwCounter g1 = m_dwCounter g"
      "\<forall>h. m_mContextMap g1 h = (if h \<in> fst ` set evs then None else m_mContextMap g h)"
      "\<forall>h p. m_mContextMap g1 h = Some p \<longrightarrow> gt_heap g1 p = gt_heap g p"
      "gt_queues g1 = push_all (live_of g evs) (gt_queues g)" by blast
  obtain T' where T': "timer_update TimerTimeout (m_pstTimer g) g =
        do { s1 \<leftarrow> run_events TimerTimeout (?cal now) g;
             s2 \<leftarrow> run_events TimerTimeout (?cal (now + 1)) s1; Some (T', s2) }"
      "wheel_inv T'" "tm_time T' = now + 1" "calendar T' = ?cal(now := [], now + 1 := [])"
    using timer_update_spec [OF D(2), of TimerTimeout g] unfolding now_def by metis
  have upd: "timer_update TimerTimeout (m_pstTimer g) g = Some (T', g1)"
    using T'(1) g1(1) unfolding evs_def run_events_append by (auto simp: bind_eq_Some_conv)
  define g' where "g' = g1\<lparr>m_pstTimer := T'\<rparr>"
  have sv: "service_inv g'" using g1(2) by (simp add: g'_def service_inv_def)
  have sub: "set (calendar T' e) \<subseteq> set (?cal e)" for e by (simp add: T'(4))
  have evok: "event_ok g' ev" if "ev \<in> set (calendar T' e)" for ev e
  proof -
    have "event_ok g ev" using D(3) that sub by blast
    then show ?thesis using g1(3,4) by (auto simp: event_ok_def g'_def split: if_splits)
  qed
  have "distinct (map fst (calendar T' e))" for e using D(4) by (simp add: T'(4))
  moreover have "fst ` set (calendar T' e) \<inter> fst ` set (calendar T' e') = {}" if "e \<noteq> e'" for e e'
    using D(5) [OF that] sub [of e] sub [of e'] by blast
  ultimately have inv': "timer_inv g'"
    using sv evok T'(2) by (simp add: timer_inv_def g'_def)
  have live': "live g' e = ((live g)(now := [], now + 1 := [])) e" for e
  proof (cases "e = now \<or> e = now + 1")
    case True
    then show ?thesis by (auto simp: live_def g'_def T'(4) live_of_def)
  next
    case False
    then have ne: "e \<noteq> now" "e \<noteq> now + 1" by auto
    have out: "fst ev \<notin> fst ` set evs" if "ev \<in> set (?cal e)" for ev
      unfolding evs_def set_append image_Un
      using D(5) [OF ne(1)] D(5) [OF ne(2)] imageI [OF that, of fst] by blast
    have "live_of g' (?cal e) = live_of g (?cal e)"
    proof (rule live_of_cong)
      fix ev assume ev: "ev \<in> set (?cal e)"
      show m: "m_mContextMap g' (fst ev) = m_mContextMap g (fst ev)" using g1(4) out [OF ev] by (simp add: g'_def)
      assume "m_mContextMap g (fst ev) \<noteq> None"
      then have "m_mContextMap g (fst ev) = Some (snd ev)" using D(3) [OF ev] by (auto simp: event_ok_def)
      then show "gt_heap g' (snd ev) = gt_heap g (snd ev)" using m g1(5) by (simp add: g'_def)
    qed
    then show ?thesis using ne by (simp add: live_def g'_def T'(4))
  qed
  have "gt_queues g' = push_all (live g now @ live g (now + 1)) (gt_queues g)"
    using g1(6) by (simp add: g'_def live_def live_of_def evs_def)
  moreover have "game_timer_update g = Some g'" by (simp add: game_timer_update_def upd g'_def)
  ultimately show ?thesis
    using that [of g'] inv' live' T'(3) g1(3) by (simp add: g'_def fun_eq_iff)
qed

section \<open>Adding and removing\<close>

lemma GenerateHandleID_fresh:
  assumes c: "m_dwCounter g + 1 \<noteq> UINT32_MAX" "m_dwCounter g \<noteq> UINT32_MAX"
    and m: "\<forall>h p. m_mContextMap g h = Some p \<longrightarrow> h \<le> m_dwCounter g"
  shows "GenerateHandleID g = Some (m_dwCounter g + 1, g\<lparr>m_dwCounter := m_dwCounter g + 1\<rparr>)"
    and "m_dwCounter g < m_dwCounter g + 1"
proof -
  have "m_dwCounter g + 1 \<noteq> 0" using c(2) by (metis UINT32_MAX_def add_eq_0_iff2)
  then show lt: "m_dwCounter g < m_dwCounter g + 1"
    by (simp add: word_less_nat_alt unat_Suc_word)
  have "m_mContextMap g (m_dwCounter g + 1) = None"
    using m lt by (metis not_Some_eq not_le)
  moreover have "\<not> m_dwCounter g + 1 \<ge> UINT32_MAX"
    using c(1) by (metis UINT32_MAX_def word_n1_ge order_antisym)
  ultimately have "GenerateHandleID_loop (m_dwCounter g + 1) (m_mContextMap g) = Some (m_dwCounter g + 1)"
    by (subst GenerateHandleID_loop.simps) simp
  then show "GenerateHandleID g = Some (m_dwCounter g + 1, g\<lparr>m_dwCounter := m_dwCounter g + 1\<rparr>)"
    by (simp add: GenerateHandleID_def)
qed

text \<open>Removing the timer of a key, the common part of \<open>AddTimer\<close> and \<open>RemoveTimer\<close>.\<close>

definition remove_key :: "byte list \<Rightarrow> GameTimer \<Rightarrow> GameTimer option" where
  "remove_key k g = (case m_mTimerKeyMap g k of Some h \<Rightarrow> RemoveTimerHandle h g | None \<Rightarrow> Some g)"

definition forget_key :: "byte list \<Rightarrow> GameTimer \<Rightarrow> GameTimer" where
  "forget_key k g = (case m_mTimerKeyMap g k of
      None \<Rightarrow> g
    | Some h \<Rightarrow> drop_timer h (the (m_mContextMap g h)) (the (gt_heap g (the (m_mContextMap g h)))) g)"

lemma forget_key_simps [simp]:
  "m_dwCounter (forget_key k g) = m_dwCounter g" "m_pstTimer (forget_key k g) = m_pstTimer g"
  "gt_next (forget_key k g) = gt_next g" "gt_queues (forget_key k g) = gt_queues g"
  "m_stLock (forget_key k g) = m_stLock g"
  by (auto simp: forget_key_def split: option.splits)

lemma forget_key_lock: "forget_key k (g\<lparr>m_stLock := b\<rparr>) = (forget_key k g)\<lparr>m_stLock := b\<rparr>"
  by (cases g) (simp add: forget_key_def drop_timer_def split: option.splits)

lemma forget_key_inv:
  assumes inv: "service_inv g"
  shows "remove_key k (g\<lparr>m_stLock := b\<rparr>) = Some ((forget_key k g)\<lparr>m_stLock := b\<rparr>)"
    and "service_inv (forget_key k g)" and "m_mTimerKeyMap (forget_key k g) k = None"
    and "m_mContextMap (forget_key k g) h = (if m_mTimerKeyMap g k = Some h then None else m_mContextMap g h)"
    and "m_mContextMap (forget_key k g) h = Some p \<Longrightarrow> gt_heap (forget_key k g) p = gt_heap g p"
proof -
  have "remove_key k (g\<lparr>m_stLock := b\<rparr>) = Some ((forget_key k g)\<lparr>m_stLock := b\<rparr>) \<and>
    service_inv (forget_key k g) \<and> m_mTimerKeyMap (forget_key k g) k = None \<and>
    m_mContextMap (forget_key k g) h = (if m_mTimerKeyMap g k = Some h then None else m_mContextMap g h) \<and>
    (m_mContextMap (forget_key k g) h = Some p \<longrightarrow> gt_heap (forget_key k g) p = gt_heap g p)"
  proof (cases "m_mTimerKeyMap g k")
    case None
    then show ?thesis using inv by (simp add: remove_key_def forget_key_def)
  next
    case (Some h0)
    obtain p0 c0 where 0: "m_mContextMap g h0 = Some p0" "gt_heap g p0 = Some c0" "key_of c0 = k"
      using service_inv_key [OF inv Some] by blast
    have f: "forget_key k g = drop_timer h0 p0 c0 g" using Some 0 by (simp add: forget_key_def)
    have "RemoveTimerHandle h0 (g\<lparr>m_stLock := b\<rparr>) = Some (drop_timer h0 p0 c0 (g\<lparr>m_stLock := b\<rparr>))"
      using 0 Some by (intro RemoveTimerHandle_some) simp_all
    then have "remove_key k (g\<lparr>m_stLock := b\<rparr>) = Some ((forget_key k g)\<lparr>m_stLock := b\<rparr>)"
      using Some 0 by (simp add: remove_key_def flip: forget_key_lock) (simp add: forget_key_def)
    moreover have "service_inv (forget_key k g)" unfolding f by (rule drop_timer_inv [OF inv 0(1,2)])
    moreover have "gt_heap (forget_key k g) p = gt_heap g p" if "m_mContextMap (forget_key k g) h = Some p"
    proof -
      have "h \<noteq> h0" "m_mContextMap g h = Some p" using that by (auto simp: f split: if_splits)
      then have "p \<noteq> p0" using context_inj [OF inv 0(1), of h] by auto
      then show ?thesis by (simp add: f)
    qed
    ultimately show ?thesis using Some 0 by (simp add: f)
  qed
  then show "remove_key k (g\<lparr>m_stLock := b\<rparr>) = Some ((forget_key k g)\<lparr>m_stLock := b\<rparr>)"
    "service_inv (forget_key k g)" "m_mTimerKeyMap (forget_key k g) k = None"
    "m_mContextMap (forget_key k g) h = (if m_mTimerKeyMap g k = Some h then None else m_mContextMap g h)"
    "m_mContextMap (forget_key k g) h = Some p \<Longrightarrow> gt_heap (forget_key k g) p = gt_heap g p"
    by blast+
qed

lemma live_of_forget:
  assumes inv: "service_inv g" and ok: "\<forall>ev\<in>set evs. event_ok g ev"
  shows "live_of (forget_key k g) evs = filter (\<lambda>c. key_of c \<noteq> k) (live_of g evs)"
  using ok
proof (induction evs)
  case Nil
  then show ?case by (simp add: live_of_def)
next
  case (Cons ev evs)
  have c: "live_of x (ev # evs) = live_of x [ev] @ live_of x evs" for x by (simp add: live_of_def)
  have "live_of (forget_key k g) [ev] = filter (\<lambda>c. key_of c \<noteq> k) (live_of g [ev])"
  proof (cases "m_mContextMap g (fst ev)")
    case None
    then show ?thesis using forget_key_inv(4) [OF inv] by (simp add: live_of_def)
  next
    case (Some p)
    then have p: "p = snd ev" using Cons.prems by (simp add: event_ok_def)
    obtain x where x: "gt_heap g p = Some x" "m_mTimerKeyMap g (key_of x) = Some (fst ev)"
      using service_invD [OF inv Some] by blast
    have "m_mTimerKeyMap g k = Some (fst ev) \<longleftrightarrow> key_of x = k"
      using x service_inv_key [OF inv, of k "fst ev"] Some by (metis option.inject)
    then show ?thesis
      using Some p x forget_key_inv(4) [OF inv, of k "fst ev"] forget_key_inv(5) [OF inv, of k "fst ev" p]
      by (auto simp: live_of_def)
  qed
  then show ?case using Cons c [of "forget_key k g"] c [of g] by simp
qed

lemma forget_key_timer_inv:
  assumes inv: "timer_inv g"
  shows "timer_inv (forget_key k g)" and "live (forget_key k g) e = filter (\<lambda>c. key_of c \<noteq> k) (live g e)"
proof -
  note D = timer_invD [OF inv]
  have ok: "event_ok (forget_key k g) ev" if "event_ok g ev" for ev
    using that forget_key_inv(4) [OF D(1), of k "fst ev"] by (auto simp: event_ok_def)
  show "timer_inv (forget_key k g)"
    using inv forget_key_inv(2) [OF D(1)] ok by (auto simp: timer_inv_def)
  show "live (forget_key k g) e = filter (\<lambda>c. key_of c \<noteq> k) (live g e)"
    using live_of_forget [OF D(1)] D(3) by (simp add: live_def)
qed

lemma timer_context_spec:
  assumes "length k \<le> GAMETIMER_MAX_TIMER_KEY_LEN" and "0 \<notin> set k"
  obtains c where "timer_context k h cb q = Some c" and "key_of c = k" and "m_dwHandle c = h"
    and "m_stCallback c = cb" and "m_rstQueue c = q"
proof -
  let ?n = GAMETIMER_MAX_TIMER_KEY_LEN_EXTRA
  have l: "length k < ?n"
    using assms(1) by (simp add: GAMETIMER_MAX_TIMER_KEY_LEN_def GAMETIMER_MAX_TIMER_KEY_LEN_EXTRA_def)
  then obtain r where r: "?n - length k = Suc r" by (metis Suc_diff_Suc)
  have ck: "c_str k = k" using assms(2) by (auto simp: c_str_def takeWhile_eq_all_conv)
  have t: "take ?n (k @ replicate ?n 0) = k @ 0 # replicate r 0"
    using l r by (simp add: take_replicate min_absorb1)
  have "length (k @ 0 # replicate r (0::byte)) = ?n" using l r by simp
  then have "c_strncpy (replicate ?n 0) k ?n = Some (k @ 0 # replicate r 0)"
    unfolding c_strncpy_def ck t mem_write_def by simp
  then show ?thesis
    using that assms(2) by (simp add: timer_context_def key_of_def c_str_take_nul)
qed

text \<open>A context the service files under a fresh handle, and its effect on the state.\<close>

definition file_timer :: "byte list \<Rightarrow> ST_TimerContext \<Rightarrow> u32 \<Rightarrow> GameTimer \<Rightarrow> GameTimer" where
  "file_timer k c d g =
     g\<lparr>m_dwCounter := m_dwHandle c, gt_heap := (gt_heap g)(gt_next g \<mapsto> c), gt_next := gt_next g + 1,
       m_mContextMap := (m_mContextMap g)(m_dwHandle c \<mapsto> gt_next g),
       m_mTimerKeyMap := (m_mTimerKeyMap g)(k \<mapsto> m_dwHandle c),
       m_pstTimer := timer_add (m_pstTimer g) (m_dwHandle c, gt_next g) d\<rparr>"

lemma file_timer_simps [simp]:
  "m_dwCounter (file_timer k c d g) = m_dwHandle c" "m_stLock (file_timer k c d g) = m_stLock g"
  "gt_next (file_timer k c d g) = gt_next g + 1" "gt_queues (file_timer k c d g) = gt_queues g"
  "m_mContextMap (file_timer k c d g) = (m_mContextMap g)(m_dwHandle c \<mapsto> gt_next g)"
  "gt_heap (file_timer k c d g) = (gt_heap g)(gt_next g \<mapsto> c)"
  "m_mTimerKeyMap (file_timer k c d g) = (m_mTimerKeyMap g)(k \<mapsto> m_dwHandle c)"
  "m_pstTimer (file_timer k c d g) = timer_add (m_pstTimer g) (m_dwHandle c, gt_next g) d"
  by (simp_all add: file_timer_def)

lemma service_inv_alloc: "service_inv g \<Longrightarrow> gt_heap g p = Some c \<Longrightarrow> p < gt_next g"
  by (simp add: service_inv_def)

lemma file_timer_service_inv:
  assumes inv: "service_inv g" and k: "m_mTimerKeyMap g k = None" "key_of c = k"
    and h: "m_dwCounter g < m_dwHandle c"
  shows "service_inv (file_timer k c d g)"
  unfolding service_inv_def
proof (intro conjI allI impI)
  let ?g = "file_timer k c d g"
  show "\<not> m_stLock ?g" using inv by (simp add: service_inv_def)
  fix h' p assume a: "m_mContextMap ?g h' = Some p"
  have old: "m_mContextMap g h' = Some p" "h' \<noteq> m_dwHandle c" if "h' \<noteq> m_dwHandle c" using a that by simp_all
  show "h' \<le> m_dwCounter ?g"
  proof (cases "h' = m_dwHandle c")
    case False
    then have "h' \<le> m_dwCounter g" using old(1) inv unfolding service_inv_def by blast
    then show ?thesis using h by simp
  qed simp
  show "\<exists>c'. gt_heap ?g p = Some c' \<and> m_dwHandle c' = h' \<and> m_mTimerKeyMap ?g (key_of c') = Some h'"
  proof (cases "h' = m_dwHandle c")
    case True
    then show ?thesis using a k(2) by auto
  next
    case False
    obtain c' where c': "gt_heap g p = Some c'" "m_dwHandle c' = h'" "m_mTimerKeyMap g (key_of c') = Some h'"
      using service_invD [OF inv old(1) [OF False]] by blast
    have "p \<noteq> gt_next g" using service_inv_alloc [OF inv c'(1)] by simp
    moreover have "key_of c' \<noteq> k" using c'(3) k(1) by auto
    ultimately show ?thesis using c' by simp
  qed
next
  let ?g = "file_timer k c d g"
  fix k' h' assume a: "m_mTimerKeyMap ?g k' = Some h'"
  show "\<exists>p c'. m_mContextMap ?g h' = Some p \<and> gt_heap ?g p = Some c' \<and> key_of c' = k'"
  proof (cases "k' = k")
    case True
    then show ?thesis using a k(2) by auto
  next
    case False
    then have "m_mTimerKeyMap g k' = Some h'" using a by simp
    from service_inv_key [OF inv this] obtain p c' where
      c': "m_mContextMap g h' = Some p" "gt_heap g p = Some c'" "key_of c' = k'" by blast
    have "p \<noteq> gt_next g" using service_inv_alloc [OF inv c'(2)] by simp
    moreover have "h' \<noteq> m_dwHandle c" using service_invD [OF inv c'(1)] h by (metis leD)
    ultimately show ?thesis using c' by simp
  qed
next
  let ?g = "file_timer k c d g"
  fix p assume "gt_heap ?g p \<noteq> None"
  then show "p < gt_next ?g" using inv by (auto simp: service_inv_def less_Suc_eq split: if_splits)
qed

lemma file_timer_inv:
  assumes inv: "timer_inv g" and k: "m_mTimerKeyMap g k = None" "key_of c = k"
    and h: "m_dwCounter g < m_dwHandle c" and d: "unat d < 2 ^ 31"
  shows "timer_inv (file_timer k c d g)"
    and "live (file_timer k c d g) e = live g e @ (if e = d + tm_time (m_pstTimer g) then [c] else [])"
proof -
  let ?g = "file_timer k c d g"
  let ?cal = "calendar (m_pstTimer g)"
  note D = timer_invD [OF inv]
  note add = wheel_add [OF D(2) d, of "(m_dwHandle c, gt_next g)"]
  have cal: "calendar (m_pstTimer ?g) e =
      ?cal e @ (if e = d + tm_time (m_pstTimer g) then [(m_dwHandle c, gt_next g)] else [])" for e
    by (simp add: add(2))
  have fresh: "fst ev \<noteq> m_dwHandle c" if "ev \<in> set (?cal e)" for ev e
    using D(3) [OF that] h by (auto simp: event_ok_def)
  have nomap: "m_mContextMap g (m_dwHandle c) = None"
    using service_invD [OF D(1), of "m_dwHandle c"] h by (metis leD not_Some_eq)
  have evok: "event_ok ?g ev" if "ev \<in> set (calendar (m_pstTimer ?g) e)" for ev e
  proof (cases "ev = (m_dwHandle c, gt_next g)")
    case False
    then have ev: "ev \<in> set (?cal e)" using that unfolding cal by (auto split: if_splits)
    then show ?thesis using D(3) [OF ev] fresh [OF ev] h by (auto simp: event_ok_def)
  qed (simp add: event_ok_def)
  have nofst: "m_dwHandle c \<notin> fst ` set (?cal x)" for x using fresh by (metis imageE)
  have "distinct (map fst (calendar (m_pstTimer ?g) e))" for e
    unfolding cal using D(4) [of e] nofst by simp
  moreover have "fst ` set (calendar (m_pstTimer ?g) e) \<inter> fst ` set (calendar (m_pstTimer ?g) e') = {}"
    if ne: "e \<noteq> e'" for e e'
    using D(5) [OF ne] ne nofst unfolding cal
    by (cases "e = d + tm_time (m_pstTimer g)"; cases "e' = d + tm_time (m_pstTimer g)") simp_all
  moreover have "wheel_inv (m_pstTimer ?g)" using add(1) by simp
  ultimately show "timer_inv ?g"
    using file_timer_service_inv [OF D(1) k h] evok unfolding timer_inv_def by blast
  have "live_of ?g (?cal e) = live_of g (?cal e)"
  proof (rule live_of_cong)
    fix ev assume ev: "ev \<in> set (?cal e)"
    show "m_mContextMap ?g (fst ev) = m_mContextMap g (fst ev)" using fresh [OF ev] by simp
    assume "m_mContextMap g (fst ev) \<noteq> None"
    then have "m_mContextMap g (fst ev) = Some (snd ev)" using D(3) [OF ev] by (auto simp: event_ok_def)
    then obtain x where "gt_heap g (snd ev) = Some x" using service_invD [OF D(1)] by blast
    then show "gt_heap ?g (snd ev) = gt_heap g (snd ev)" using service_inv_alloc [OF D(1)] by fastforce
  qed
  moreover have "live_of ?g (xs @ ys) = live_of ?g xs @ live_of ?g ys" for xs ys by (simp add: live_of_def)
  ultimately show "live ?g e = live g e @ (if e = d + tm_time (m_pstTimer g) then [c] else [])"
    unfolding live_def cal by (simp add: live_of_def)
qed

lemma file_timer_unlock:
  "\<not> m_stLock g \<Longrightarrow> spin_unlock (file_timer k c d (g\<lparr>m_stLock := True\<rparr>)) = file_timer k c d g"
  by (cases g) (simp add: spin_unlock_def file_timer_def)

lemma AddTimer_spec:
  assumes inv: "timer_inv g" and k: "length k \<le> GAMETIMER_MAX_TIMER_KEY_LEN" "0 \<notin> set k"
    and t: "0 < time" "time < 2 ^ 31" and c: "unat (m_dwCounter g) + 2 < 2 ^ 32"
  obtains g' ctx where "AddTimer k time cb q g = Some (0, g')" and "timer_inv g'"
    and "\<And>e. live g' e = filter (\<lambda>c. key_of c \<noteq> k) (live g e) @
           (if e = tm_time (m_pstTimer g) + word_of_int time then [ctx] else [])"
    and "key_of ctx = k" and "m_stCallback ctx = cb" and "m_rstQueue ctx = q"
    and "m_dwCounter g' = m_dwCounter g + 1" and "gt_queues g' = gt_queues g"
    and "tm_time (m_pstTimer g') = tm_time (m_pstTimer g)"
proof -
  define g1 where "g1 = forget_key k g"
  define h where "h = m_dwCounter g + 1"
  note D = timer_invD [OF inv]
  have nl: "\<not> m_stLock g" using D(1) by (simp add: service_inv_def)
  have inv1: "timer_inv g1" unfolding g1_def by (rule forget_key_timer_inv(1) [OF inv])
  have k1: "m_mTimerKeyMap g1 k = None" unfolding g1_def by (rule forget_key_inv(3) [OF D(1)])
  have maxu: "unat UINT32_MAX = 2 ^ 32 - 1" by (simp add: UINT32_MAX_def unsigned_minus_1_eq_mask mask_eq_exp_minus_1)
  have c1: "m_dwCounter g \<noteq> UINT32_MAX" "m_dwCounter g + 1 \<noteq> UINT32_MAX"
  proof -
    show ne: "m_dwCounter g \<noteq> UINT32_MAX" using c maxu by auto
    then have "m_dwCounter g + 1 \<noteq> 0" by (metis UINT32_MAX_def add_eq_0_iff2)
    then have "unat (m_dwCounter g + 1) = Suc (unat (m_dwCounter g))" by (rule unat_Suc_word)
    then show "m_dwCounter g + 1 \<noteq> UINT32_MAX" using c maxu by auto
  qed
  let ?L = "g1\<lparr>m_stLock := True\<rparr>"
  have cnt: "m_dwCounter ?L = m_dwCounter g" by (simp add: g1_def)
  have mle: "\<forall>h p. m_mContextMap ?L h = Some p \<longrightarrow> h \<le> m_dwCounter ?L"
    using timer_invD(1) [OF inv1] by (simp add: service_inv_def)
  note gen = GenerateHandleID_fresh [of ?L, unfolded cnt, OF c1(2,1) mle [unfolded cnt], folded h_def]
  have hfree: "m_mContextMap g1 h = None"
    using mle gen(2) cnt by (metis GameTimer.select_convs(4) GameTimer.surjective GameTimer.update_convs(3) leD not_Some_eq)
  obtain ctx where ctx: "timer_context k h cb q = Some ctx" "key_of ctx = k" "m_dwHandle ctx = h"
    "m_stCallback ctx = cb" "m_rstQueue ctx = q"
    using timer_context_spec [OF k] by metis
  define d where "d = (word_of_int time :: u32)"
  have ud: "unat d < 2 ^ 31"
  proof -
    have "uint d = time" using t by (simp add: d_def uint_word_of_int_eq take_bit_int_eq_self)
    then have "unat d = nat time" by (simp add: unat_eq_nat_uint)
    then show ?thesis using t by (simp add: nat_less_iff)
  qed
  define g' where "g' = file_timer k ctx d g1"
  have hlt: "m_dwCounter g1 < m_dwHandle ctx" using gen(2) by (simp add: g1_def ctx)
  note fi = file_timer_inv [OF inv1 k1 ctx(2) hlt ud]
  have lock: "spin_lock g = Some (g\<lparr>m_stLock := True\<rparr>)" using nl by (simp add: spin_lock_def)
  have rk: "(case m_mTimerKeyMap g k of
      None \<Rightarrow> Some (g\<lparr>m_stLock := True\<rparr>) | Some h \<Rightarrow> RemoveTimerHandle h (g\<lparr>m_stLock := True\<rparr>)) = Some ?L"
    using forget_key_inv(1) [OF D(1), of k True] by (simp add: remove_key_def g1_def cong: option.case_cong)
  have nl1: "\<not> m_stLock g1" using nl by (simp add: g1_def)
  have "AddTimer k time cb q g = Some (0, spin_unlock (file_timer k ctx d ?L))"
    unfolding AddTimer_def lock
    using k(1) t(1) hfree k1
    by (simp add: rk gen(1) ctx Let_def AddTimerHandle_def file_timer_def flip: d_def)
  then have "AddTimer k time cb q g = Some (0, g')"
    by (simp only: file_timer_unlock [OF nl1] g'_def)
  moreover have "live g' e = filter (\<lambda>c. key_of c \<noteq> k) (live g e) @
      (if e = tm_time (m_pstTimer g) + word_of_int time then [ctx] else [])" for e
    using fi(2) [of e] forget_key_timer_inv(2) [OF inv, of k e] by (simp add: g'_def g1_def d_def add.commute)
  ultimately show ?thesis
    using that [of g' ctx] fi(1) ctx wheel_add(3) [OF timer_invD(2) [OF inv1] ud]
    by (simp add: g'_def g1_def h_def)
qed

lemma RemoveTimer_spec:
  assumes inv: "timer_inv g" and k: "length k \<le> GAMETIMER_MAX_TIMER_KEY_LEN"
  shows "RemoveTimer k g = Some (0, forget_key k g)"
proof -
  note D = timer_invD [OF inv]
  have nl: "\<not> m_stLock g" using D(1) by (simp add: service_inv_def)
  define f where "f = forget_key k g"
  have lock: "spin_lock g = Some (g\<lparr>m_stLock := True\<rparr>)" using nl by (simp add: spin_lock_def)
  have rk: "(case m_mTimerKeyMap g k of
      None \<Rightarrow> Some (g\<lparr>m_stLock := True\<rparr>) | Some h \<Rightarrow> RemoveTimerHandle h (g\<lparr>m_stLock := True\<rparr>)) =
      Some (f\<lparr>m_stLock := True\<rparr>)"
    using forget_key_inv(1) [OF D(1), of k True] by (simp add: remove_key_def f_def cong: option.case_cong)
  have km: "(m_mTimerKeyMap f)(k := None) = m_mTimerKeyMap f"
    using forget_key_inv(3) [OF D(1), of k] by (auto simp: f_def)
  have "\<not> m_stLock f" using nl by (simp add: f_def)
  then have "f\<lparr>m_stLock := True, m_mTimerKeyMap := m_mTimerKeyMap f, m_stLock := False\<rparr> = f" by (cases f) simp
  then show ?thesis
    using k by (simp add: RemoveTimer_def lock rk spin_unlock_def km flip: f_def)
qed

lemma push_all_append: "push_all ys (push_all xs qs) = push_all (xs @ ys) qs" "push_all [] qs = qs"
  by (auto simp: push_all_def)

lemma update_times_spec:
  assumes "timer_inv g" and "n < 2 ^ 32"
  shows "\<exists>g'. update_times n g = Some g' \<and> timer_inv g' \<and>
    tm_time (m_pstTimer g') = tm_time (m_pstTimer g) + of_nat n \<and> m_dwCounter g' = m_dwCounter g \<and>
    gt_queues g' = push_all (if n = 0 then [] else
      concat (map (\<lambda>i. live g (tm_time (m_pstTimer g) + of_nat i)) [0..<Suc n])) (gt_queues g)"
  using assms
proof (induction n arbitrary: g)
  case 0
  then show ?case by (simp add: push_all_def fun_eq_iff)
next
  case (Suc n)
  define now where "now = tm_time (m_pstTimer g)"
  obtain g1 where g1: "game_timer_update g = Some g1" "timer_inv g1"
    "tm_time (m_pstTimer g1) = now + 1" "m_dwCounter g1 = m_dwCounter g"
    "live g1 = (live g)(now := [], now + 1 := [])"
    "gt_queues g1 = push_all (live g now @ live g (now + 1)) (gt_queues g)"
    using game_timer_update_spec [OF Suc.prems(1)] unfolding now_def by blast
  obtain g' where g': "update_times n g1 = Some g'" "timer_inv g'"
    "tm_time (m_pstTimer g') = now + 1 + of_nat n" "m_dwCounter g' = m_dwCounter g"
    "gt_queues g' = push_all (if n = 0 then [] else concat (map (\<lambda>i. live g1 (now + 1 + of_nat i)) [0..<Suc n])) (gt_queues g1)"
    using Suc.IH [OF g1(2)] Suc.prems(2) g1(3,4) by auto
  have later: "live g1 (now + 1 + of_nat i) = (if i = 0 then [] else live g (now + of_nat (Suc i)))" if "i < Suc n" for i
  proof -
    have "Suc i < 2 ^ 32" using that Suc.prems(2) by simp
    then have "unat (of_nat (Suc i) :: u32) = Suc i" by (rule unat_of_nat_u32)
    then have "of_nat (Suc i) \<noteq> (0::u32)" by (metis nat.distinct(1) unat_0)
    then have "now + 1 + of_nat i \<noteq> now" by (simp add: add.assoc)
    moreover have "of_nat i = (0::u32) \<longleftrightarrow> i = 0"
    proof -
      have "i < 2 ^ 32" using that Suc.prems(2) by simp
      then have "unat (of_nat i :: u32) = i" by (rule unat_of_nat_u32)
      then show ?thesis using unat_eq_zero [of "of_nat i :: u32"] by simp
    qed
    ultimately show ?thesis by (simp add: g1(5) add.assoc)
  qed
  have tail: "concat (map (\<lambda>i. live g1 (now + 1 + of_nat i)) [0..<Suc n]) =
      concat (map (\<lambda>i. live g (now + of_nat (Suc i))) [1..<Suc n])"
  proof -
    have "map (\<lambda>i. live g1 (now + 1 + of_nat i)) [0..<Suc n] =
        map (\<lambda>i. if i = 0 then [] else live g (now + of_nat (Suc i))) [0..<Suc n]"
      using later by simp
    also have "concat \<dots> = concat (map (\<lambda>i. live g (now + of_nat (Suc i))) [1..<Suc n])"
      by (subst upt_conv_Cons) (auto simp del: upt_Suc intro!: arg_cong [of _ _ concat])
    finally show ?thesis .
  qed
  have "gt_queues g' = push_all (live g now @ live g (now + 1) @
      concat (map (\<lambda>i. live g (now + of_nat (Suc i))) [1..<Suc n])) (gt_queues g)"
    using g'(5) g1(6) unfolding tail by (cases "n = 0") (simp_all add: push_all_append del: upt_Suc)
  moreover have "live g now @ live g (now + 1) @ concat (map (\<lambda>i. live g (now + of_nat (Suc i))) [1..<Suc n]) =
      concat (map (\<lambda>i. live g (now + of_nat i)) [0..<Suc (Suc n)])"
  proof -
    have "map (\<lambda>i. live g (now + of_nat i)) [0..<Suc (Suc n)] =
        live g now # live g (now + 1) # map (\<lambda>i. live g (now + of_nat i)) [2..<Suc (Suc n)]"
      by (simp add: upt_conv_Cons numeral_2_eq_2 del: upt_Suc)
    moreover have "[2..<Suc (Suc n)] = map Suc [1..<Suc n]"
      by (simp add: map_Suc_upt numeral_2_eq_2 del: upt_Suc)
    ultimately show ?thesis by (simp add: comp_def del: upt_Suc)
  qed
  ultimately show ?case
    using g1(1) g'(1-4) by (auto simp: now_def add.assoc simp del: upt_Suc)
qed

section \<open>Reference: a calendar of keyed timers\<close>

text \<open>
  An entry is the key, the callback and the queue of a timer.  The reference keeps, per expiry time,
  the entries in insertion order, and per queue the entries that have fired.
\<close>

type_synonym timer_entry = "byte list \<times> ST_TimerCallback \<times> nat"
type_synonym timer_spec = "u32 \<times> (u32 \<Rightarrow> timer_entry list) \<times> (nat \<Rightarrow> timer_entry list)"

definition entry_of :: "ST_TimerContext \<Rightarrow> timer_entry" where
  "entry_of c = (key_of c, m_stCallback c, m_rstQueue c)"

datatype timer_op = OpAdd "byte list" int ST_TimerCallback nat | OpRemove "byte list" | OpTick

fun service_step :: "timer_op \<Rightarrow> GameTimer \<Rightarrow> GameTimer option" where
  "service_step (OpAdd k time cb q) g = map_option snd (AddTimer k time cb q g)"
| "service_step (OpRemove k) g = map_option snd (RemoveTimer k g)"
| "service_step OpTick g = game_timer_update g"

fun service_run :: "timer_op list \<Rightarrow> GameTimer \<Rightarrow> GameTimer option" where
  "service_run [] g = Some g"
| "service_run (c # cs) g = do { g' \<leftarrow> service_step c g; service_run cs g' }"

fun ref_step :: "timer_op \<Rightarrow> timer_spec \<Rightarrow> timer_spec" where
  "ref_step (OpAdd k time cb q) (now, cal, qs) =
     (now, (\<lambda>e. filter (\<lambda>en. fst en \<noteq> k) (cal e) @ (if e = now + word_of_int time then [(k, cb, q)] else [])), qs)"
| "ref_step (OpRemove k) (now, cal, qs) = (now, (\<lambda>e. filter (\<lambda>en. fst en \<noteq> k) (cal e)), qs)"
| "ref_step OpTick (now, cal, qs) =
     (now + 1, cal(now := [], now + 1 := []),
      (\<lambda>q. qs q @ filter (\<lambda>en. snd (snd en) = q) (cal now @ cal (now + 1))))"

definition ref_run :: "timer_op list \<Rightarrow> timer_spec \<Rightarrow> timer_spec" where
  "ref_run cs s = fold ref_step cs s"

fun timer_op_ok :: "timer_op \<Rightarrow> bool" where
  "timer_op_ok (OpAdd k time cb q) \<longleftrightarrow>
     length k \<le> GAMETIMER_MAX_TIMER_KEY_LEN \<and> 0 \<notin> set k \<and> 0 < time \<and> time < 2 ^ 31"
| "timer_op_ok (OpRemove k) \<longleftrightarrow> length k \<le> GAMETIMER_MAX_TIMER_KEY_LEN"
| "timer_op_ok OpTick \<longleftrightarrow> True"

definition abs_timer :: "GameTimer \<Rightarrow> timer_spec" where
  "abs_timer g = (tm_time (m_pstTimer g), (\<lambda>e. map entry_of (live g e)), (\<lambda>q. map entry_of (gt_queues g q)))"

lemma map_entry_filter:
  "map entry_of (filter (\<lambda>c. key_of c \<noteq> k) cs) = filter (\<lambda>en. fst en \<noteq> k) (map entry_of cs)"
  "map entry_of (filter (\<lambda>c. m_rstQueue c = q) cs) = filter (\<lambda>en. snd (snd en) = q) (map entry_of cs)"
  by (induction cs) (simp_all add: entry_of_def)

lemma service_step_simulation:
  assumes inv: "timer_inv g" and ok: "timer_op_ok c" and room: "unat (m_dwCounter g) + 2 < 2 ^ 32"
  shows "\<exists>g'. service_step c g = Some g' \<and> timer_inv g' \<and> abs_timer g' = ref_step c (abs_timer g) \<and>
    unat (m_dwCounter g') \<le> unat (m_dwCounter g) + 1"
proof (cases c)
  case (OpAdd k time cb q)
  then have p: "length k \<le> GAMETIMER_MAX_TIMER_KEY_LEN" "0 \<notin> set k" "0 < time" "time < 2 ^ 31"
    using ok by simp_all
  obtain g' ctx where g': "AddTimer k time cb q g = Some (0, g')" "timer_inv g'"
    "\<And>e. live g' e = filter (\<lambda>c. key_of c \<noteq> k) (live g e) @
       (if e = tm_time (m_pstTimer g) + word_of_int time then [ctx] else [])"
    "key_of ctx = k" "m_stCallback ctx = cb" "m_rstQueue ctx = q"
    "m_dwCounter g' = m_dwCounter g + 1" "gt_queues g' = gt_queues g"
    "tm_time (m_pstTimer g') = tm_time (m_pstTimer g)"
    using AddTimer_spec [OF inv p room] by blast
  have "unat (m_dwCounter g + 1) \<le> unat (m_dwCounter g) + 1"
    using room by (simp add: unat_add_no_wrap)
  moreover have "abs_timer g' = ref_step c (abs_timer g)"
    using OpAdd g' by (auto simp: abs_timer_def fun_eq_iff map_entry_filter entry_of_def)
  ultimately show ?thesis using OpAdd g' by simp
next
  case (OpRemove k)
  then have "RemoveTimer k g = Some (0, forget_key k g)" using RemoveTimer_spec [OF inv] ok by simp
  then show ?thesis
    using OpRemove forget_key_timer_inv [OF inv, of k]
    by (auto simp: abs_timer_def fun_eq_iff map_entry_filter)
next
  case OpTick
  obtain g' where g': "game_timer_update g = Some g'" "timer_inv g'"
    "tm_time (m_pstTimer g') = tm_time (m_pstTimer g) + 1" "m_dwCounter g' = m_dwCounter g"
    "live g' = (live g)(tm_time (m_pstTimer g) := [], tm_time (m_pstTimer g) + 1 := [])"
    "gt_queues g' = push_all (live g (tm_time (m_pstTimer g)) @ live g (tm_time (m_pstTimer g) + 1)) (gt_queues g)"
    using game_timer_update_spec [OF inv] by blast
  have "abs_timer g' = ref_step c (abs_timer g)"
    using OpTick g' by (auto simp: abs_timer_def fun_eq_iff map_entry_filter push_all_def)
  then show ?thesis using OpTick g' by simp
qed

lemma service_run_simulation:
  "timer_inv g \<Longrightarrow> list_all timer_op_ok cs \<Longrightarrow> unat (m_dwCounter g) + length cs + 1 < 2 ^ 32 \<Longrightarrow>
   \<exists>g'. service_run cs g = Some g' \<and> timer_inv g' \<and> abs_timer g' = ref_run cs (abs_timer g)"
proof (induction cs arbitrary: g)
  case (Cons c cs)
  then obtain g1 where g1: "service_step c g = Some g1" "timer_inv g1" "abs_timer g1 = ref_step c (abs_timer g)"
    "unat (m_dwCounter g1) \<le> unat (m_dwCounter g) + 1"
    using service_step_simulation [of g c] by auto
  then show ?case using Cons.IH [OF g1(2)] Cons.prems by (simp add: ref_run_def)
qed (simp add: ref_run_def)

lemma timer_inv_init: "timer_inv (TimerInit rt mt GameTimer_new)"
  and abs_timer_init: "abs_timer (TimerInit rt mt GameTimer_new) = (0, (\<lambda>_. []), (\<lambda>_. []))"
proof -
  let ?T = "m_pstTimer (TimerInit rt mt GameTimer_new)"
  have g: "get_slot ?T s = get_slot timer_create_timer s" for s
    by (cases s) (simp_all add: TimerInit_def case_prod_beta Let_def)
  have tm: "tm_time ?T = tm_time (timer_create_timer :: timer_event timer)"
    by (simp add: TimerInit_def case_prod_beta Let_def)
  have sh: "timer_shape ?T = timer_shape (timer_create_timer :: timer_event timer)"
    by (simp add: TimerInit_def case_prod_beta Let_def timer_shape_def)
  have w: "wheel_inv ?T" using wheel_inv_create(1) [where ?'e = timer_event]
    unfolding wheel_inv_def g tm sh .
  have c: "calendar ?T e = []" for e
    using wheel_inv_create(2) [where ?'e = timer_event] unfolding calendar_def g tm .
  have sv: "service_inv (TimerInit rt mt GameTimer_new)"
    by (simp add: service_inv_def TimerInit_def GameTimer_new_def case_prod_beta Let_def)
  show "timer_inv (TimerInit rt mt GameTimer_new)" using w c sv by (simp add: timer_inv_def)
  show "abs_timer (TimerInit rt mt GameTimer_new) = (0, (\<lambda>_. []), (\<lambda>_. []))"
    unfolding abs_timer_def live_def c tm
    by (simp add: live_of_def timer_create_timer_def TimerInit_def GameTimer_new_def case_prod_beta Let_def)
qed

section \<open>Handle generation\<close>

text \<open>Steps of the loop of \<open>_GenerateHandleID\<close> from \<open>c\<close> until the free handle \<open>h\<close> is reached.\<close>

definition handle_dist :: "u32 \<Rightarrow> u32 \<Rightarrow> nat" where
  "handle_dist c h = (if c \<le> h then unat h - unat c else (2 ^ 32 - 1 - unat c) + unat h)"

lemma unat_UINT32_MAX: "unat UINT32_MAX = 2 ^ 32 - 1"
  by (simp add: UINT32_MAX_def unsigned_minus_1_eq_mask mask_eq_exp_minus_1)

lemma GenerateHandleID_loop_terminates:
  assumes h: "h \<noteq> 0" "h < UINT32_MAX" "m h = None"
  shows "\<exists>c'. GenerateHandleID_loop c m = Some c' \<and> m c' = None \<and> c' < UINT32_MAX \<and> (c \<noteq> 0 \<longrightarrow> c' \<noteq> 0)"
proof (induction "handle_dist c h" arbitrary: c rule: less_induct)
  case less
  show ?case
  proof (cases "m c \<noteq> None \<or> c \<ge> UINT32_MAX")
    case False
    then have "GenerateHandleID_loop c m = Some c" by (subst GenerateHandleID_loop.simps) simp
    then show ?thesis using False by auto
  next
    case True
    define c1 where "c1 = (if c \<ge> UINT32_MAX then 0 else c) + 1"
    have eq: "GenerateHandleID_loop c m = GenerateHandleID_loop c1 m"
      using True by (subst GenerateHandleID_loop.simps) (simp add: c1_def)
    have uh: "0 < unat h" "unat h < 2 ^ 32 - 1"
      using h(1,2) unat_UINT32_MAX by (simp_all add: unat_gt_0 word_less_nat_alt)
    have c1: "c1 \<noteq> 0 \<and> handle_dist c1 h < handle_dist c h"
    proof (cases "c \<ge> UINT32_MAX")
      case max: True
      then have "unat c = 2 ^ 32 - 1" using unat_UINT32_MAX unat_bound [of c] by (simp add: word_le_nat_alt)
      moreover have "c1 = 1" using max by (simp add: c1_def)
      ultimately show ?thesis using uh by (auto simp: handle_dist_def word_le_nat_alt)
    next
      case nmax: False
      then have "c + 1 \<noteq> 0" by (metis UINT32_MAX_def add_eq_0_iff2 order_refl)
      then have u: "unat c1 = Suc (unat c)" "c1 \<noteq> 0" using nmax by (simp_all add: c1_def unat_Suc_word)
      have "c \<noteq> h" using True nmax h(3) by auto
      then have "unat c \<noteq> unat h" by (simp add: word_unat_eq_iff)
      moreover have "unat c < 2 ^ 32 - 1" using nmax unat_UINT32_MAX by (simp add: word_le_nat_alt)
      ultimately show ?thesis using u by (auto simp: handle_dist_def word_le_nat_alt)
    qed
    then show ?thesis using less [of c1] eq by auto
  qed
qed

section \<open>Properties\<close>

text \<open>
  C7.  The timer service refines a calendar of keyed timers.  For every sequence of \<open>AddTimer\<close> (NUL-free
  key of at most 128 bytes, positive delay), \<open>RemoveTimer\<close> and ticks that is shorter than the
  remaining handle space, no operation fails, no deleted context is ever read, and the state is that
  of the reference: adding a key replaces the timer of that key, a removed or replaced timer never
  reaches its queue, and every other timer is queued by the tick at its expiry time, in insertion order.
\<close>

theorem timer_service_refines_calendar:
  assumes "timer_inv g" and "list_all timer_op_ok cs" and "unat (m_dwCounter g) + length cs + 1 < 2 ^ 32"
  shows "\<exists>g'. service_run cs g = Some g' \<and> timer_inv g' \<and> abs_timer g' = ref_run cs (abs_timer g)"
  using assms by (rule service_run_simulation)

theorem timer_service_refines_calendar_witness:
  "\<exists>g'. service_run [OpAdd [97] 2 \<lparr>m_pFuncCallback = 1, m_pstArgs = 0\<rparr> 0, OpTick,
       OpAdd [98] 1 \<lparr>m_pFuncCallback = 2, m_pstArgs = 0\<rparr> 0, OpRemove [97], OpTick]
      (TimerInit (0, 0) (0, 0) GameTimer_new) = Some g' \<and>
    map entry_of (gt_queues g' 0) = [([98], \<lparr>m_pFuncCallback = 2, m_pstArgs = 0\<rparr>, 0)]"
proof -
  let ?cs = "[OpAdd [97] 2 \<lparr>m_pFuncCallback = 1, m_pstArgs = 0\<rparr> 0, OpTick,
       OpAdd [98] 1 \<lparr>m_pFuncCallback = 2, m_pstArgs = 0\<rparr> 0, OpRemove [97], OpTick]"
  let ?g = "TimerInit (0, 0) (0, 0) GameTimer_new"
  have ok: "list_all timer_op_ok ?cs" by (simp add: GAMETIMER_MAX_TIMER_KEY_LEN_def)
  have "m_dwCounter ?g = 0" by (simp add: TimerInit_def GameTimer_new_def case_prod_beta Let_def)
  then have room: "unat (m_dwCounter ?g) + length ?cs + 1 < 2 ^ 32" by simp
  obtain g' where run: "service_run ?cs ?g = Some g'" and a: "abs_timer g' = ref_run ?cs (abs_timer ?g)"
    using timer_service_refines_calendar [OF timer_inv_init ok room] by blast
  have "snd (snd (abs_timer g')) 0 = [([98], \<lparr>m_pFuncCallback = 2, m_pstArgs = 0\<rparr>, 0)]"
    unfolding a abs_timer_init ref_run_def by simp
  then show ?thesis using run by (simp add: abs_timer_def)
qed

text \<open>
  C23.  Catching up.  When the monotonic clock has advanced by \<open>n\<close> centiseconds, \<open>0 < n < 2 ^ 32\<close>,
  \<open>TimerUpdate\<close> advances the wheel by exactly \<open>n\<close> ticks and queues all timers that expire in that
  period, in order of expiry; when the clock went backwards no timer fires and the reference point is
  set to the new time.
\<close>

theorem TimerUpdate_catches_up:
  assumes "timer_inv g" and "unat cp = unat (tm_current_point (m_pstTimer g)) + n" and "0 < n" and "n < 2 ^ 32"
  shows "\<exists>g'. TimerUpdate cp g = Some g' \<and> timer_inv g' \<and>
    tm_time (m_pstTimer g') = tm_time (m_pstTimer g) + of_nat n \<and>
    gt_queues g' = push_all (concat (map (\<lambda>i. live g (tm_time (m_pstTimer g) + of_nat i)) [0..<Suc n])) (gt_queues g)"
proof -
  let ?T = "m_pstTimer g"
  let ?T1 = "?T\<lparr>tm_current_point := cp, tm_current := tm_current ?T + ucast (of_nat n :: u32)\<rparr>"
  let ?g = "g\<lparr>m_pstTimer := ?T1\<rparr>"
  have cmp: "\<not> cp < tm_current_point ?T" "cp \<noteq> tm_current_point ?T"
    using assms(2,3) by (auto simp: word_less_nat_alt)
  have "unat (cp - tm_current_point ?T) = n" using assms(2) by (simp add: unat_sub_le)
  then have diff: "(ucast (cp - tm_current_point ?T) :: u32) = of_nat n"
    using assms(4) by (simp add: word_unat_eq_iff unat_ucast unat_of_nat)
  have u: "unat (of_nat n :: u32) = n" using assms(4) by (rule unat_of_nat_u32)
  have upd: "TimerUpdate cp g = update_times n ?g"
    using cmp by (simp add: TimerUpdate_def Let_def diff u)
  have slots: "get_slot ?T1 s = get_slot ?T s" for s by (cases s) simp_all
  have cal: "calendar ?T1 = calendar ?T" by (simp add: calendar_def slots fun_eq_iff)
  have "wheel_inv ?T1" using timer_invD(2) [OF assms(1)] by (simp add: wheel_inv_def slots timer_shape_def)
  then have inv: "timer_inv ?g"
    using assms(1) by (simp add: timer_inv_def cal service_inv_def event_ok_def)
  have lv: "live ?g = live g" by (simp add: live_def live_of_def cal fun_eq_iff)
  show ?thesis
    using update_times_spec [OF inv assms(4)] assms(3) unfolding upd lv by (auto simp del: upt_Suc)
qed

theorem TimerUpdate_catches_up_witness:
  "\<exists>g'. TimerUpdate 7 (TimerInit (0, 0) (0, 0) GameTimer_new) = Some g' \<and> tm_time (m_pstTimer g') = 7"
proof -
  have "tm_time (m_pstTimer (TimerInit (0, 0) (0, 0) GameTimer_new)) = 0"
    "tm_current_point (m_pstTimer (TimerInit (0, 0) (0, 0) GameTimer_new)) = 0"
    by (simp_all add: TimerInit_def timer_create_timer_def gettime_def systime_def)
  then show ?thesis using TimerUpdate_catches_up [OF timer_inv_init [of "(0, 0)" "(0, 0)"], of 7 7] by auto
qed

text \<open>
  C27.  A delay that is not positive never returns: \<open>AddTimer\<close> holds \<open>m_stLock\<close> when \<open>_AddTimerHandle\<close> calls
  \<open>TimerTimeout\<close>, which takes the same non-recursive lock again.
\<close>

theorem AddTimer_nonpositive_deadlocks:
  assumes "timer_inv g" and "length k \<le> GAMETIMER_MAX_TIMER_KEY_LEN" and "time \<le> 0"
  shows "AddTimer k time cb q g = None"
proof -
  note D = timer_invD [OF assms(1)]
  have "\<not> m_stLock g" using D(1) by (simp add: service_inv_def)
  then have lock: "spin_lock g = Some (g\<lparr>m_stLock := True\<rparr>)" by (simp add: spin_lock_def)
  have rk: "(case m_mTimerKeyMap g k of
      None \<Rightarrow> Some (g\<lparr>m_stLock := True\<rparr>) | Some h \<Rightarrow> RemoveTimerHandle h (g\<lparr>m_stLock := True\<rparr>)) =
      Some ((forget_key k g)\<lparr>m_stLock := True\<rparr>)"
    using forget_key_inv(1) [OF D(1), of k True] by (simp add: remove_key_def cong: option.case_cong)
  have stuck: "TimerTimeout ev g' = None" if "m_stLock g'" for ev g'
    using that by (simp add: TimerTimeout_def spin_lock_def)
  show ?thesis
    using assms(2,3)
    by (simp add: AddTimer_def lock rk GenerateHandleID_def AddTimerHandle_def Let_def stuck bind_eq_None_conv)
qed

theorem AddTimer_nonpositive_deadlocks_witness:
  "AddTimer [97] 0 \<lparr>m_pFuncCallback = 1, m_pstArgs = 0\<rparr> 0 (TimerInit (0, 0) (0, 0) GameTimer_new) = None"
  by (rule AddTimer_nonpositive_deadlocks [OF timer_inv_init]) (simp_all add: GAMETIMER_MAX_TIMER_KEY_LEN_def)

text \<open>
  C28.  Handle allocation ends.  As long as one handle between 1 and \<open>UINT32_MAX - 1\<close> is free, the search of
  \<open>_GenerateHandleID\<close> terminates, wherever the counter stands, with a handle that is not in use and
  is not \<open>UINT32_MAX\<close>.
\<close>

theorem GenerateHandleID_finds_free:
  assumes "h \<noteq> 0" and "h < UINT32_MAX" and "m_mContextMap g h = None"
  shows "\<exists>c. GenerateHandleID g = Some (c, g\<lparr>m_dwCounter := c\<rparr>) \<and> m_mContextMap g c = None \<and> c < UINT32_MAX"
  using GenerateHandleID_loop_terminates [where m = "m_mContextMap g" and c = "m_dwCounter g + 1", OF assms]
  by (auto simp: GenerateHandleID_def)

theorem GenerateHandleID_finds_free_witness:
  "\<exists>c. GenerateHandleID (GameTimer_new\<lparr>m_dwCounter := 0xFFFFFFFE, m_mContextMap := [1 \<mapsto> 5]\<rparr>) =
     Some (c, (GameTimer_new\<lparr>m_dwCounter := 0xFFFFFFFE, m_mContextMap := [1 \<mapsto> 5]\<rparr>)\<lparr>m_dwCounter := c\<rparr>) \<and> c < UINT32_MAX"
  using GenerateHandleID_finds_free [of 2 "GameTimer_new\<lparr>m_dwCounter := 0xFFFFFFFE, m_mContextMap := [1 \<mapsto> 5]\<rparr>"]
  by (auto simp: UINT32_MAX_def)

end
