(* ===== verification/Packet.thy ===== *)
theory Packet
  imports Prelude
begin

unbundle bit_operations_syntax

text \<open>
  Packets and their memory: \<open>network/unpack.h\<close> (integers in network byte order),
  \<open>network/packet_pool.h\<close> (the pool of packet bodies) and \<open>network/packet.h\<close> (a packet, its
  header and its tail).
  \<^item> A pointer into a byte buffer is a position; reading or writing outside the buffer gives
    \<open>None\<close>, as does a failed assertion or a failed allocation.
  \<^item> The pool hands out pointers \<open>Slot i\<close> into its array and, once that is used up, \<open>Dyn a\<close>
    to objects made with \<open>new\<close>; using a deleted object gives \<open>None\<close>.
  \<^item> The locale \<open>packet_memory\<close> is the contract the packet queues rely on: a block is never
    handed out twice, and no operation changes the bytes of a block somebody else holds.
\<close>

section \<open>Integers in network byte order\<close>

abbreviation sizeof_word :: "'a::len itself \<Rightarrow> nat" where
  "sizeof_word T \<equiv> LENGTH('a) div 8"

definition word_bytes :: "'a::len word \<Rightarrow> byte list" where
  "word_bytes w = map (\<lambda>i. ucast (drop_bit (8 * i) w)) [0..<LENGTH('a) div 8]"

primrec bytes_word :: "byte list \<Rightarrow> 'a::len word" where
  "bytes_word [] = 0" |
  "bytes_word (b # bs) = ucast b OR push_bit 8 (bytes_word bs)"

definition bswap :: "'a::len word \<Rightarrow> 'a word" where
  "bswap w = bytes_word (rev (word_bytes w))"

abbreviation htons :: "u16 \<Rightarrow> u16" where "htons \<equiv> bswap"
abbreviation ntohs :: "u16 \<Rightarrow> u16" where "ntohs \<equiv> bswap"
abbreviation htonl :: "u32 \<Rightarrow> u32" where "htonl \<equiv> bswap"
abbreviation ntohl :: "u32 \<Rightarrow> u32" where "ntohl \<equiv> bswap"
abbreviation htobe64 :: "u64 \<Rightarrow> u64" where "htobe64 \<equiv> bswap"
abbreviation be64toh :: "u64 \<Rightarrow> u64" where "be64toh \<equiv> bswap"

definition UnpackInt :: "byte list \<Rightarrow> nat \<Rightarrow> 'a::len word \<Rightarrow> ('a word \<times> nat) option" where
  "UnpackInt buffer ptr sz = do {
     let n = (if unat sz > LENGTH('a) div 8 then LENGTH('a) div 8 else unat sz);
     mem \<leftarrow> mem_read buffer ptr n;
     let bytes = (bytes_word mem :: 'a word);
     Some (if n = 8 then ucast (be64toh (ucast bytes))
           else if n = 4 then ucast (ntohl (ucast bytes))
           else if n = 2 then ucast (ntohs (ucast bytes))
           else bytes, ptr + n)
   }"

definition PackInt :: "byte list \<Rightarrow> nat \<Rightarrow> 'a::len word \<Rightarrow> (byte list \<times> nat \<times> 'a word) option" where
  "PackInt buffer ptr value = do {
     let iSize = LENGTH('a) div 8;
     let value = (if iSize = 8 then ucast (htobe64 (ucast value))
                  else if iSize = 4 then ucast (htonl (ucast value))
                  else if iSize = 2 then ucast (htons (ucast value))
                  else value :: 'a word);
     buffer' \<leftarrow> mem_write buffer ptr (word_bytes value);
     Some (buffer', ptr + iSize, of_nat iSize)
   }"

definition PackStruct :: "u16 \<Rightarrow> byte list \<Rightarrow> byte list \<Rightarrow> (byte list \<times> nat) option" where
  "PackStruct wProto rst buffer = do {
     b1 \<leftarrow> mem_write buffer 0 (word_bytes (htons wProto));
     b2 \<leftarrow> mem_write b1 2 rst;
     Some (b2, 2 + length rst)
   }"

lemma length_word_bytes [simp]: "length (word_bytes (w :: 'a::len word)) = LENGTH('a) div 8"
  by (simp add: word_bytes_def)

lemma bit_bytes_word:
  "bit (bytes_word bs :: 'a::len word) n \<longleftrightarrow>
     n < LENGTH('a) \<and> n div 8 < length bs \<and> bit (bs ! (n div 8)) (n mod 8)"
proof (induction bs arbitrary: n)
  case Nil
  then show ?case by simp
next
  case (Cons b bs)
  show ?case
  proof (cases "n < 8")
    case True
    then show ?thesis
      by (auto simp: bit_or_iff bit_push_bit_iff bit_unsigned_iff)
  next
    case False
    then obtain m where m: "n = m + 8" by (metis add.commute le_Suc_ex not_less)
    have "\<not> bit b n" using False by (auto dest: bit_imp_le_length)
    moreover have "(m + 8) div 8 = Suc (m div 8)" by simp
    ultimately show ?thesis
      using m Cons.IH [of m]
      by (auto simp: bit_or_iff bit_push_bit_iff bit_unsigned_iff)
  qed
qed

lemma bytes_word_word_bytes [simp]:
  assumes "8 dvd LENGTH('a)"
  shows "bytes_word (word_bytes w) = (w :: 'a::len word)"
proof (rule bit_word_eqI)
  fix n assume n: "n < LENGTH('a)"
  obtain k where k: "LENGTH('a) = 8 * k" using assms by auto
  have "n div 8 < LENGTH('a) div 8" using n k by (simp add: less_mult_imp_div_less mult.commute)
  then show "bit (bytes_word (word_bytes w) :: 'a word) n = bit w n"
    using n by (simp add: bit_bytes_word word_bytes_def bit_unsigned_iff bit_drop_bit_eq)
qed

lemma word_bytes_bytes_word [simp]:
  assumes "length bs = LENGTH('a) div 8" and "8 dvd LENGTH('a)"
  shows "word_bytes (bytes_word bs :: 'a::len word) = bs"
proof (rule nth_equalityI)
  show "length (word_bytes (bytes_word bs :: 'a word)) = length bs" using assms(1) by simp
next
  fix i assume "i < length (word_bytes (bytes_word bs :: 'a word))"
  then have i: "i < LENGTH('a) div 8" by simp
  obtain k where k: "LENGTH('a) = 8 * k" using assms(2) by auto
  have ik: "i < k" using i k by simp
  show "word_bytes (bytes_word bs :: 'a word) ! i = bs ! i"
  proof (rule bit_word_eqI)
    fix n assume n: "n < LENGTH(8)"
    then have n8: "n < 8" by simp
    have "8 * i + n < 8 * k" using ik n8 by linarith
    then show "bit (word_bytes (bytes_word bs :: 'a word) ! i) n = bit (bs ! i) n"
      using i n8 assms(1) k
      by (simp add: word_bytes_def bit_unsigned_iff bit_drop_bit_eq bit_bytes_word)
  qed
qed

lemma word_bytes_bswap [simp]:
  "8 dvd LENGTH('a) \<Longrightarrow> word_bytes (bswap w :: 'a::len word) = rev (word_bytes w)"
  by (simp add: bswap_def)

lemma bswap_bswap [simp]: "8 dvd LENGTH('a) \<Longrightarrow> bswap (bswap w) = (w :: 'a::len word)"
  unfolding bswap_def [of "bswap w"] by simp

lemma bytes_word_rev: "8 dvd LENGTH('a) \<Longrightarrow> length bs = LENGTH('a) div 8 \<Longrightarrow>
   bswap (bytes_word bs :: 'a::len word) = bytes_word (rev bs)"
  by (simp add: bswap_def)

abbreviation c_int_type :: "'a::len itself \<Rightarrow> bool" where
  "c_int_type T \<equiv> LENGTH('a) \<in> {16, 32, 64}"

lemma ucast_same_length: "LENGTH('a) = LENGTH('b) \<Longrightarrow> (ucast (ucast w :: 'b::len word)) = (w :: 'a::len word)"
  by (rule bit_word_eqI) (simp add: bit_unsigned_iff)

lemma word_bytes_ucast:
  assumes "LENGTH('a) = LENGTH('b)"
  shows "word_bytes (ucast (w :: 'b::len word) :: 'a::len word) = word_bytes w"
proof -
  have "(ucast (drop_bit k (ucast w :: 'a word)) :: byte) = ucast (drop_bit k w)" for k
    using assms by (intro bit_word_eqI) (auto simp: bit_unsigned_iff bit_drop_bit_eq dest: bit_imp_le_length)
  then show ?thesis by (simp add: word_bytes_def assms)
qed

lemma bswap_ucast:
  assumes "LENGTH('a) = LENGTH('b)" "8 dvd LENGTH('b)"
  shows "ucast (bswap (ucast (w :: 'a::len word) :: 'b::len word)) = bswap w"
proof -
  let ?x = "bswap (ucast w :: 'b word)"
  have "word_bytes (ucast ?x :: 'a word) = rev (word_bytes w)"
    using assms by (simp add: word_bytes_ucast)
  then have "bytes_word (word_bytes (ucast ?x :: 'a word)) = (bytes_word (rev (word_bytes w)) :: 'a word)"
    by simp
  then show ?thesis using assms by (simp add: bswap_def)
qed

lemma PackInt_bswap:
  assumes "c_int_type TYPE('a::len)"
  shows "PackInt buffer ptr (v :: 'a word) =
    map_option (\<lambda>b. (b, ptr + LENGTH('a) div 8, of_nat (LENGTH('a) div 8)))
      (mem_write buffer ptr (rev (word_bytes v)))"
  using assms
  by (auto simp: PackInt_def Let_def bswap_ucast map_option_case split: option.splits)

lemma UnpackInt_bswap:
  assumes "c_int_type TYPE('a::len)"
  shows "UnpackInt buffer ptr (of_nat (LENGTH('a) div 8) :: 'a word) =
    map_option (\<lambda>m. (bytes_word (rev m), ptr + LENGTH('a) div 8))
      (mem_read buffer ptr (LENGTH('a) div 8))"
proof -
  have "unat (of_nat (LENGTH('a) div 8) :: 'a word) = LENGTH('a) div 8"
    using assms by (auto simp: unat_of_nat)
  then show ?thesis
    using assms
    by (auto simp: UnpackInt_def Let_def bswap_ucast map_option_case bytes_word_rev
        mem_read_def split: option.splits)
qed

section \<open>Packet memory\<close>

definition NETWORK_PACKET_BUFFER_DEFAULT_SIZE :: nat where
  "NETWORK_PACKET_BUFFER_DEFAULT_SIZE = 256"

definition NETWORK_PACKET_BUFFER_MAX_SIZE :: int where
  "NETWORK_PACKET_BUFFER_MAX_SIZE = 10240"

definition MAX_PACKET_MEMORY_POOL_SIZE :: nat where
  "MAX_PACKET_MEMORY_POOL_SIZE = 4096"

definition NETWORK_PACKET_HEADER_SIZE :: int where
  "NETWORK_PACKET_HEADER_SIZE = 2 * 2"

definition NETWORK_PACKET_TAIL_SIZE :: int where
  "NETWORK_PACKET_TAIL_SIZE = 8"

lemmas packet_consts = NETWORK_PACKET_BUFFER_DEFAULT_SIZE_def NETWORK_PACKET_BUFFER_MAX_SIZE_def
  MAX_PACKET_MEMORY_POOL_SIZE_def NETWORK_PACKET_HEADER_SIZE_def NETWORK_PACKET_TAIL_SIZE_def

record ST_PacketMemory =
  m_iIndex :: int
  m_achBytesArray :: "byte list"
  m_pchBytesExtraSpace :: "byte list option"

definition memory_construct :: ST_PacketMemory where
  "memory_construct = \<lparr>m_iIndex = 0,
     m_achBytesArray = replicate NETWORK_PACKET_BUFFER_DEFAULT_SIZE 0,
     m_pchBytesExtraSpace = None\<rparr>"

definition memory_release :: "ST_PacketMemory \<Rightarrow> ST_PacketMemory" where
  "memory_release m = memory_construct"

definition memory_GetBuffer :: "ST_PacketMemory \<Rightarrow> byte list" where
  "memory_GetBuffer m =
     (case m_pchBytesExtraSpace m of Some extra \<Rightarrow> extra | None \<Rightarrow> m_achBytesArray m)"

definition memory_Init :: "int \<Rightarrow> byte list \<Rightarrow> ST_PacketMemory \<Rightarrow> ST_PacketMemory option" where
  "memory_Init iBufferSize pchBuffer m =
     (if iBufferSize < 0 \<or> iBufferSize \<ge> int (length (m_achBytesArray m)) then
        (if NETWORK_PACKET_BUFFER_MAX_SIZE \<ge> iBufferSize then
           (if iBufferSize < 0 then None
            else do {
              src \<leftarrow> mem_read pchBuffer 0 (nat iBufferSize);
              Some (m\<lparr>m_pchBytesExtraSpace := Some src\<rparr>)
            })
         else None)
      else do {
        src \<leftarrow> mem_read pchBuffer 0 (nat iBufferSize);
        arr \<leftarrow> mem_write (m_achBytesArray m) 0 src;
        Some (m\<lparr>m_achBytesArray := arr\<rparr>)
      })"

definition memory_SetIndex :: "int \<Rightarrow> ST_PacketMemory \<Rightarrow> ST_PacketMemory" where
  "memory_SetIndex i m = m\<lparr>m_iIndex := i\<rparr>"

datatype mem_ptr = Slot nat | Dyn nat

record CPacketMemoryPool =
  m_PacketMemoryPool :: "ST_PacketMemory list"
  m_PacketIndexFreeQueue :: "nat list"
  new_memory :: "nat \<Rightarrow> ST_PacketMemory option"
  new_next :: nat

definition memory_at :: "CPacketMemoryPool \<Rightarrow> mem_ptr \<Rightarrow> ST_PacketMemory option" where
  "memory_at P p = (case p of
     Slot i \<Rightarrow> if i < length (m_PacketMemoryPool P) then Some (m_PacketMemoryPool P ! i) else None
   | Dyn a \<Rightarrow> new_memory P a)"

definition memory_store :: "mem_ptr \<Rightarrow> ST_PacketMemory \<Rightarrow> CPacketMemoryPool \<Rightarrow> CPacketMemoryPool" where
  "memory_store p m P = (case p of
     Slot i \<Rightarrow> P\<lparr>m_PacketMemoryPool := (m_PacketMemoryPool P)[i := m]\<rparr>
   | Dyn a \<Rightarrow> P\<lparr>new_memory := (new_memory P)(a \<mapsto> m)\<rparr>)"

definition CPacketMemoryPool_new :: CPacketMemoryPool where
  "CPacketMemoryPool_new = \<lparr>
     m_PacketMemoryPool = map (\<lambda>i. memory_SetIndex (int i) memory_construct) [0..<MAX_PACKET_MEMORY_POOL_SIZE],
     m_PacketIndexFreeQueue = [0..<MAX_PACKET_MEMORY_POOL_SIZE],
     new_memory = (\<lambda>_. None), new_next = 0\<rparr>"

definition GetFreePacketMemory :: "CPacketMemoryPool \<Rightarrow> (mem_ptr \<times> CPacketMemoryPool) option" where
  "GetFreePacketMemory P = (case m_PacketIndexFreeQueue P of
     [] \<Rightarrow> let p = Dyn (new_next P) in
            Some (p, memory_store p (memory_SetIndex (- 1) memory_construct) (P\<lparr>new_next := Suc (new_next P)\<rparr>))
   | iIndex # q \<Rightarrow> do {
       let p = Slot iIndex;
       m \<leftarrow> memory_at P p;
       Some (p, memory_store p (memory_SetIndex (int iIndex) m) (P\<lparr>m_PacketIndexFreeQueue := q\<rparr>))
     })"

definition ReleasePacketMemory :: "mem_ptr \<Rightarrow> CPacketMemoryPool \<Rightarrow> CPacketMemoryPool option" where
  "ReleasePacketMemory p P = do {
     m \<leftarrow> memory_at P p;
     let iIndex = m_iIndex m;
     let P = memory_store p (memory_release m) P;
     if iIndex \<le> - 1 then
       (case p of Dyn a \<Rightarrow> Some (P\<lparr>new_memory := (new_memory P)(a := None)\<rparr>) | Slot i \<Rightarrow> None)
     else Some (P\<lparr>m_PacketIndexFreeQueue := m_PacketIndexFreeQueue P @ [nat iIndex]\<rparr>)
   }"

subsection \<open>The contract of packet memory\<close>

text \<open>
  \<open>acquire n src s\<close> gives a fresh block that holds the first \<open>n\<close> bytes of \<open>src\<close>, \<open>discard p s\<close>
  gives the block back, \<open>fetch s p\<close> is the block's buffer, and \<open>held s L\<close> says that exactly
  the blocks \<open>L\<close> are in use.
\<close>

locale packet_memory =
  fixes acquire :: "int \<Rightarrow> byte list \<Rightarrow> 's \<Rightarrow> ('p \<times> 's) option"
    and discard :: "'p \<Rightarrow> 's \<Rightarrow> 's option"
    and fetch :: "'s \<Rightarrow> 'p \<Rightarrow> byte list option"
    and held :: "'s \<Rightarrow> 'p set \<Rightarrow> bool"
    and limit :: int
  assumes acquire_fresh: "held s L \<Longrightarrow> 0 \<le> n \<Longrightarrow> n \<le> limit \<Longrightarrow> nat n \<le> length src \<Longrightarrow>
      \<exists>p s' b. acquire n src s = Some (p, s') \<and> p \<notin> L \<and> held s' (insert p L) \<and>
        fetch s' p = Some b \<and> nat n \<le> length b \<and> take (nat n) b = take (nat n) src \<and>
        (\<forall>q\<in>L. fetch s' q = fetch s q)"
    and acquire_limit: "n < 0 \<or> limit < n \<Longrightarrow> held s L \<Longrightarrow> acquire n src s = None"
    and discard_held: "held s L \<Longrightarrow> p \<in> L \<Longrightarrow>
      \<exists>s'. discard p s = Some s' \<and> held s' (L - {p}) \<and> (\<forall>q\<in>L - {p}. fetch s' q = fetch s q)"
begin

fun discard_all :: "'p list \<Rightarrow> 's \<Rightarrow> 's option" where
  "discard_all [] s = Some s"
| "discard_all (p # ps) s = discard p s \<bind> discard_all ps"

lemma discard_all_held:
  "held s L \<Longrightarrow> distinct ps \<Longrightarrow> set ps \<subseteq> L \<Longrightarrow>
   \<exists>s'. discard_all ps s = Some s' \<and> held s' (L - set ps) \<and> (\<forall>q\<in>L - set ps. fetch s' q = fetch s q)"
proof (induction ps arbitrary: s L)
  case Nil
  then show ?case by simp
next
  case (Cons p ps)
  obtain s1 where s1: "discard p s = Some s1" "held s1 (L - {p})" "\<forall>q\<in>L - {p}. fetch s1 q = fetch s q"
    using discard_held [of s L p] Cons.prems by auto
  have "set ps \<subseteq> L - {p}" using Cons.prems by auto
  then obtain s2 where s2: "discard_all ps s1 = Some s2" "held s2 (L - {p} - set ps)"
      "\<forall>q\<in>L - {p} - set ps. fetch s2 q = fetch s1 q"
    using Cons.IH [OF s1(2)] Cons.prems by auto
  have "L - {p} - set ps = L - set (p # ps)" by auto
  then show ?case using s1 s2 by simp
qed

end

subsection \<open>The pool keeps the contract\<close>

definition pool_Init :: "mem_ptr \<Rightarrow> int \<Rightarrow> byte list \<Rightarrow> CPacketMemoryPool \<Rightarrow> CPacketMemoryPool option" where
  "pool_Init p iBufferSize pchBuffer P = do {
     m \<leftarrow> memory_at P p;
     m' \<leftarrow> memory_Init iBufferSize pchBuffer m;
     Some (memory_store p m' P)
   }"

definition pool_acquire :: "int \<Rightarrow> byte list \<Rightarrow> CPacketMemoryPool \<Rightarrow> (mem_ptr \<times> CPacketMemoryPool) option" where
  "pool_acquire n src P = do {
     (p, P1) \<leftarrow> GetFreePacketMemory P;
     P2 \<leftarrow> pool_Init p n src P1;
     Some (p, P2)
   }"

definition pool_fetch :: "CPacketMemoryPool \<Rightarrow> mem_ptr \<Rightarrow> byte list option" where
  "pool_fetch P p = map_option memory_GetBuffer (memory_at P p)"

definition pool_wf :: "CPacketMemoryPool \<Rightarrow> mem_ptr set \<Rightarrow> bool" where
  "pool_wf P L \<longleftrightarrow>
     length (m_PacketMemoryPool P) = MAX_PACKET_MEMORY_POOL_SIZE \<and>
     distinct (m_PacketIndexFreeQueue P) \<and>
     (\<forall>i. Slot i \<in> L \<longleftrightarrow> i < MAX_PACKET_MEMORY_POOL_SIZE \<and> i \<notin> set (m_PacketIndexFreeQueue P)) \<and>
     set (m_PacketIndexFreeQueue P) \<subseteq> {..<MAX_PACKET_MEMORY_POOL_SIZE} \<and>
     (\<forall>i. Slot i \<in> L \<longrightarrow> m_iIndex (m_PacketMemoryPool P ! i) = int i) \<and>
     (\<forall>i\<in>set (m_PacketIndexFreeQueue P). m_pchBytesExtraSpace (m_PacketMemoryPool P ! i) = None \<and>
        length (m_achBytesArray (m_PacketMemoryPool P ! i)) = NETWORK_PACKET_BUFFER_DEFAULT_SIZE) \<and>
     (\<forall>a. Dyn a \<in> L \<longleftrightarrow> new_memory P a \<noteq> None) \<and>
     (\<forall>a m. new_memory P a = Some m \<longrightarrow> m_iIndex m = - 1 \<and> a < new_next P)"

lemma memory_at_store:
  "memory_at P p \<noteq> None \<or> (\<exists>a. p = Dyn a) \<Longrightarrow>
   memory_at (memory_store p m P) q = (if q = p then Some m else memory_at P q)"
  by (auto simp: memory_at_def memory_store_def nth_list_update split: mem_ptr.splits if_splits)

lemma memory_Init_ok:
  assumes "m_pchBytesExtraSpace m = None" "length (m_achBytesArray m) = NETWORK_PACKET_BUFFER_DEFAULT_SIZE"
    and "0 \<le> n" "n \<le> NETWORK_PACKET_BUFFER_MAX_SIZE" "nat n \<le> length src"
  obtains m' where "memory_Init n src m = Some m'" "m_iIndex m' = m_iIndex m"
    "nat n \<le> length (memory_GetBuffer m')" "take (nat n) (memory_GetBuffer m') = take (nat n) src"
  using assms
  by (cases "n \<ge> 256") (auto simp: memory_Init_def memory_GetBuffer_def packet_consts mem_simps)

lemma pool_wf_new: "pool_wf CPacketMemoryPool_new {}"
  by (auto simp: pool_wf_def CPacketMemoryPool_new_def memory_construct_def memory_SetIndex_def)

lemma pool_wf_live: "pool_wf P L \<Longrightarrow> p \<in> L \<Longrightarrow> \<exists>m. memory_at P p = Some m"
  by (cases p) (auto simp: pool_wf_def memory_at_def)

lemma GetFreePacketMemory_ok:
  assumes "pool_wf P L"
  obtains p P' m where "GetFreePacketMemory P = Some (p, P')" "p \<notin> L" "pool_wf P' (insert p L)"
    "memory_at P' p = Some m" "m_pchBytesExtraSpace m = None"
    "length (m_achBytesArray m) = NETWORK_PACKET_BUFFER_DEFAULT_SIZE"
    "\<forall>q. q \<noteq> p \<longrightarrow> memory_at P' q = memory_at P q"
proof (cases "m_PacketIndexFreeQueue P")
  case Nil
  let ?p = "Dyn (new_next P)"
  let ?m = "memory_SetIndex (- 1) memory_construct"
  let ?P = "memory_store ?p ?m (P\<lparr>new_next := Suc (new_next P)\<rparr>)"
  have "new_memory P (new_next P) = None" using assms by (cases "new_memory P (new_next P)") (auto simp: pool_wf_def)
  then have "?p \<notin> L" using assms by (auto simp: pool_wf_def)
  moreover have "pool_wf ?P (insert ?p L)"
    using assms Nil by (auto simp: pool_wf_def memory_store_def memory_SetIndex_def less_Suc_eq)
  moreover have "\<forall>q. q \<noteq> ?p \<longrightarrow> memory_at ?P q = memory_at P q"
    by (auto simp: memory_at_def memory_store_def split: mem_ptr.splits)
  moreover have "memory_at ?P ?p = Some ?m" by (simp add: memory_at_def memory_store_def)
  ultimately show ?thesis
    using that [of ?p ?P ?m] Nil
    by (simp add: GetFreePacketMemory_def memory_SetIndex_def memory_construct_def Let_def)
next
  case (Cons i q)
  let ?p = "Slot i"
  let ?m = "memory_SetIndex (int i) (m_PacketMemoryPool P ! i)"
  let ?P = "memory_store ?p ?m (P\<lparr>m_PacketIndexFreeQueue := q\<rparr>)"
  have i: "i < length (m_PacketMemoryPool P)" "i < MAX_PACKET_MEMORY_POOL_SIZE" "i \<notin> set q"
      "length (m_PacketMemoryPool P) = MAX_PACKET_MEMORY_POOL_SIZE"
    using assms Cons by (auto simp: pool_wf_def)
  then have "?p \<notin> L" using assms Cons by (auto simp: pool_wf_def)
  moreover have "pool_wf ?P (insert ?p L)"
    using assms Cons i
    by (auto simp: pool_wf_def memory_store_def memory_SetIndex_def nth_list_update)
  moreover have "\<forall>q. q \<noteq> ?p \<longrightarrow> memory_at ?P q = memory_at P q"
    by (auto simp: memory_at_def memory_store_def nth_list_update split: mem_ptr.splits)
  moreover have "memory_at ?P ?p = Some ?m" using i by (simp add: memory_at_def memory_store_def)
  moreover have "m_pchBytesExtraSpace ?m = None"
      "length (m_achBytesArray ?m) = NETWORK_PACKET_BUFFER_DEFAULT_SIZE"
    using assms Cons by (auto simp: pool_wf_def memory_SetIndex_def)
  moreover have "GetFreePacketMemory P = Some (?p, ?P)"
    using Cons i by (simp add: GetFreePacketMemory_def memory_at_def Let_def)
  ultimately show ?thesis using that by blast
qed

lemma pool_wf_store:
  assumes "pool_wf P L" "p \<in> L" "memory_at P p = Some m" "m_iIndex m' = m_iIndex m"
  shows "pool_wf (memory_store p m' P) L"
proof (cases p)
  case (Slot i)
  then show ?thesis
    using assms by (auto simp: pool_wf_def memory_store_def memory_at_def nth_list_update)
next
  case (Dyn a)
  then show ?thesis
    using assms by (auto simp: pool_wf_def memory_store_def memory_at_def)
qed

lemma pool_acquire_ok:
  assumes "pool_wf P L" "0 \<le> n" "n \<le> NETWORK_PACKET_BUFFER_MAX_SIZE" "nat n \<le> length src"
  shows "\<exists>p P' b. pool_acquire n src P = Some (p, P') \<and> p \<notin> L \<and> pool_wf P' (insert p L) \<and>
    pool_fetch P' p = Some b \<and> nat n \<le> length b \<and> take (nat n) b = take (nat n) src \<and>
    (\<forall>q\<in>L. pool_fetch P' q = pool_fetch P q)"
proof -
  obtain p P1 m where g: "GetFreePacketMemory P = Some (p, P1)" "p \<notin> L" "pool_wf P1 (insert p L)"
    "memory_at P1 p = Some m" "m_pchBytesExtraSpace m = None"
    "length (m_achBytesArray m) = NETWORK_PACKET_BUFFER_DEFAULT_SIZE"
    "\<forall>q. q \<noteq> p \<longrightarrow> memory_at P1 q = memory_at P q"
    using GetFreePacketMemory_ok [OF assms(1)] .
  obtain m' where m': "memory_Init n src m = Some m'" "m_iIndex m' = m_iIndex m"
    "nat n \<le> length (memory_GetBuffer m')" "take (nat n) (memory_GetBuffer m') = take (nat n) src"
    using memory_Init_ok [OF g(5,6) assms(2-4)] .
  let ?P = "memory_store p m' P1"
  have "pool_acquire n src P = Some (p, ?P)"
    using g(1,4) m'(1) by (simp add: pool_acquire_def pool_Init_def)
  moreover have "pool_wf ?P (insert p L)"
    using pool_wf_store [OF g(3) _ g(4) m'(2)] by simp
  moreover have "pool_fetch ?P q = (if q = p then Some (memory_GetBuffer m') else pool_fetch P q)" for q
    using g(4,7) by (simp add: pool_fetch_def memory_at_store)
  ultimately show ?thesis using g(2) m' by auto
qed

lemma pool_release_ok:
  assumes "pool_wf P L" "p \<in> L"
  shows "\<exists>P'. ReleasePacketMemory p P = Some P' \<and> pool_wf P' (L - {p}) \<and>
    (\<forall>q\<in>L - {p}. pool_fetch P' q = pool_fetch P q)"
proof (cases p)
  case (Slot i)
  have i: "i < length (m_PacketMemoryPool P)" "i \<notin> set (m_PacketIndexFreeQueue P)"
      "m_iIndex (m_PacketMemoryPool P ! i) = int i" "length (m_PacketMemoryPool P) = MAX_PACKET_MEMORY_POOL_SIZE"
    using assms Slot by (auto simp: pool_wf_def)
  let ?P = "memory_store p memory_construct P\<lparr>m_PacketIndexFreeQueue := m_PacketIndexFreeQueue P @ [i]\<rparr>"
  have "ReleasePacketMemory p P = Some ?P"
    using i Slot by (simp add: ReleasePacketMemory_def memory_at_def memory_release_def memory_store_def)
  moreover have "pool_wf ?P (L - {p})"
    using assms Slot i
    by (auto simp: pool_wf_def memory_store_def memory_construct_def nth_list_update)
  moreover have "\<forall>q\<in>L - {p}. pool_fetch ?P q = pool_fetch P q"
    using Slot i(1) by (auto simp: pool_fetch_def memory_at_def memory_store_def nth_list_update split: mem_ptr.splits)
  ultimately show ?thesis by blast
next
  case (Dyn a)
  obtain m where m: "new_memory P a = Some m" "m_iIndex m = - 1"
    using assms Dyn by (fastforce simp: pool_wf_def)
  let ?P = "P\<lparr>new_memory := (new_memory P)(a := None)\<rparr>"
  have "ReleasePacketMemory p P = Some ?P"
    using m Dyn by (simp add: ReleasePacketMemory_def memory_at_def memory_release_def memory_store_def)
  moreover have "pool_wf ?P (L - {p})"
    using assms Dyn m by (auto simp: pool_wf_def)
  moreover have "\<forall>q\<in>L - {p}. pool_fetch ?P q = pool_fetch P q"
    using Dyn by (auto simp: pool_fetch_def memory_at_def split: mem_ptr.splits)
  ultimately show ?thesis by blast
qed

lemma pool_acquire_limit:
  assumes "n < 0 \<or> NETWORK_PACKET_BUFFER_MAX_SIZE < n" "pool_wf P L"
  shows "pool_acquire n src P = None"
proof -
  obtain p P1 m where g: "GetFreePacketMemory P = Some (p, P1)" "memory_at P1 p = Some m"
    "length (m_achBytesArray m) = NETWORK_PACKET_BUFFER_DEFAULT_SIZE"
    using GetFreePacketMemory_ok [OF assms(2)] .
  then show ?thesis
    using assms(1) by (auto simp: pool_acquire_def pool_Init_def memory_Init_def packet_consts)
qed

interpretation pool: packet_memory pool_acquire ReleasePacketMemory pool_fetch pool_wf
  NETWORK_PACKET_BUFFER_MAX_SIZE
proof unfold_locales
  show "\<exists>p s' b. pool_acquire n src s = Some (p, s') \<and> p \<notin> L \<and> pool_wf s' (insert p L) \<and>
        pool_fetch s' p = Some b \<and> nat n \<le> length b \<and> take (nat n) b = take (nat n) src \<and>
        (\<forall>q\<in>L. pool_fetch s' q = pool_fetch s q)"
    if "pool_wf s L" "0 \<le> n" "n \<le> NETWORK_PACKET_BUFFER_MAX_SIZE" "nat n \<le> length src" for s L n src
    using pool_acquire_ok [OF that] .
  show "pool_acquire n src s = None"
    if "n < 0 \<or> NETWORK_PACKET_BUFFER_MAX_SIZE < n" "pool_wf s L" for n s L src
    using pool_acquire_limit [OF that] .
  show "\<exists>s'. ReleasePacketMemory p s = Some s' \<and> pool_wf s' (L - {p}) \<and>
      (\<forall>q\<in>L - {p}. pool_fetch s' q = pool_fetch s q)"
    if "pool_wf s L" "p \<in> L" for s L p
    using pool_release_ok [OF that] .
qed

text \<open>
  The blocks in use of a pool whose users keep to the rules: they give back only blocks they
  hold. \<open>H\<close> records what each holder has stored.
\<close>

inductive pool_use :: "CPacketMemoryPool \<Rightarrow> (mem_ptr \<Rightarrow> byte list option) \<Rightarrow> bool" where
  pool_start: "pool_use CPacketMemoryPool_new (\<lambda>_. None)"
| pool_take: "pool_use P H \<Longrightarrow> pool_acquire n src P = Some (p, P') \<Longrightarrow> nat n \<le> length src \<Longrightarrow>
    pool_use P' (H(p \<mapsto> take (nat n) src))"
| pool_give: "pool_use P H \<Longrightarrow> H p \<noteq> None \<Longrightarrow> ReleasePacketMemory p P = Some P' \<Longrightarrow>
    pool_use P' (H(p := None))"

definition pool_holds :: "CPacketMemoryPool \<Rightarrow> (mem_ptr \<Rightarrow> byte list option) \<Rightarrow> bool" where
  "pool_holds P H \<longleftrightarrow> pool_wf P (dom H) \<and>
     (\<forall>p b. H p = Some b \<longrightarrow> (\<exists>buf. pool_fetch P p = Some buf \<and> length b \<le> length buf \<and> take (length b) buf = b))"

lemma pool_holds_take:
  assumes "pool_holds P H" "pool_acquire n src P = Some (p, P')" "nat n \<le> length src"
  shows "H p = None \<and> pool_holds P' (H(p \<mapsto> take (nat n) src))"
proof -
  have n: "0 \<le> n" "n \<le> NETWORK_PACKET_BUFFER_MAX_SIZE"
    using assms pool.acquire_limit [of n P "dom H" src] by (force simp: pool_holds_def not_less)+
  obtain b where b: "p \<notin> dom H" "pool_wf P' (insert p (dom H))" "pool_fetch P' p = Some b"
      "nat n \<le> length b" "take (nat n) b = take (nat n) src" "\<forall>q\<in>dom H. pool_fetch P' q = pool_fetch P q"
    using pool.acquire_fresh [of P "dom H" n src] assms n by (auto simp: pool_holds_def)
  have "dom (H(p \<mapsto> take (nat n) src)) = insert p (dom H)" by simp
  moreover have "H p = None" "\<And>q c. H q = Some c \<Longrightarrow> pool_fetch P' q = pool_fetch P q"
    using b(1,6) by auto
  ultimately show ?thesis
    using assms(1,3) b(2-5) unfolding pool_holds_def by auto
qed

lemma pool_holds_give:
  assumes "pool_holds P H" "H p \<noteq> None" "ReleasePacketMemory p P = Some P'"
  shows "pool_holds P' (H(p := None))"
proof -
  have r: "pool_wf P' (dom H - {p})" "\<forall>q\<in>dom H - {p}. pool_fetch P' q = pool_fetch P q"
    using pool.discard_held [of P "dom H" p] assms by (auto simp: pool_holds_def)
  have "pool_fetch P' q = pool_fetch P q" if "q \<noteq> p" "H q = Some b" for q b
    using r(2) that by auto
  then show ?thesis
    using assms(1) r(1) by (auto simp: pool_holds_def)
qed

lemma pool_use_holds: "pool_use P H \<Longrightarrow> pool_holds P H"
proof (induction rule: pool_use.induct)
  case pool_start
  then show ?case by (simp add: pool_holds_def pool_wf_new)
next
  case (pool_take P H n src p P')
  then show ?case using pool_holds_take by blast
next
  case (pool_give P H p P')
  then show ?case using pool_holds_give by blast
qed

text \<open>
  C15. The packet pool never hands out a block that is in use and never loses bytes: whatever
  sequence of acquisitions and releases has run, each block in use still holds the bytes stored
  in it, the next acquisition of up to \<open>NETWORK_PACKET_BUFFER_MAX_SIZE\<close> bytes succeeds (from the
  array or, when all 4096 slots are taken, from the heap) with a block nobody holds, a larger one
  is refused, and every block in use can be released.
\<close>

theorem packet_pool_safe:
  assumes "pool_use P H"
  shows "(\<forall>p b. H p = Some b \<longrightarrow> (\<exists>buf. pool_fetch P p = Some buf \<and> take (length b) buf = b)) \<and>
    (\<forall>n src. 0 \<le> n \<and> n \<le> 10240 \<and> nat n \<le> length src \<longrightarrow>
       (\<exists>p P'. pool_acquire n src P = Some (p, P') \<and> H p = None)) \<and>
    (\<forall>n src. n < 0 \<or> 10240 < n \<longrightarrow> pool_acquire n src P = None) \<and>
    (\<forall>p. H p \<noteq> None \<longrightarrow> (\<exists>P'. ReleasePacketMemory p P = Some P'))"
proof -
  have h: "pool_holds P H" using assms by (rule pool_use_holds)
  then have wf: "pool_wf P (dom H)" by (simp add: pool_holds_def)
  have "\<exists>p P'. pool_acquire n src P = Some (p, P') \<and> H p = None"
    if "0 \<le> n" "n \<le> 10240" "nat n \<le> length src" for n src
  proof -
    have "n \<le> NETWORK_PACKET_BUFFER_MAX_SIZE"
      using that by (simp add: NETWORK_PACKET_BUFFER_MAX_SIZE_def)
    then show ?thesis using pool.acquire_fresh [OF wf that(1) _ that(3)] by (auto simp: dom_def)
  qed
  moreover have "pool_acquire n src P = None" if "n < 0 \<or> 10240 < n" for n src
    using pool.acquire_limit [OF _ wf] that by (simp add: NETWORK_PACKET_BUFFER_MAX_SIZE_def)
  moreover have "\<exists>P'. ReleasePacketMemory p P = Some P'" if "H p \<noteq> None" for p
    using pool.discard_held [OF wf] that by blast
  moreover have "\<exists>buf. pool_fetch P p = Some buf \<and> take (length b) buf = b" if "H p = Some b" for p b
    using h that by (auto simp: pool_holds_def)
  ultimately show ?thesis by auto
qed

theorem packet_pool_safe_witness:
  "\<exists>P p buf. pool_use P [p \<mapsto> [7, 8, 9]] \<and> pool_fetch P p = Some buf \<and> take 3 buf = [7, 8, 9]"
proof -
  obtain p P where "pool_acquire 3 [7, 8, 9] CPacketMemoryPool_new = Some (p, P)"
    using packet_pool_safe [OF pool_start, THEN conjunct2, THEN conjunct1, rule_format, of 3 "[7, 8, 9]"]
    by auto
  then have u: "pool_use P [p \<mapsto> [7, 8, 9]]"
    using pool_take [OF pool_start, of 3 "[7, 8, 9]" p P] by simp
  then show ?thesis
    using packet_pool_safe [OF u, THEN conjunct1, rule_format, of p "[7, 8, 9]"]
    by (auto simp: eval_nat_numeral)
qed

section \<open>Packets\<close>

record NetPacketBuffer =
  m_ulClientSeq :: u64
  m_iSockFd :: int
  m_iProtoNo :: int
  m_iBufferSize :: int
  m_dwCreateTime :: u64
  m_pstMemory :: "mem_ptr option"

definition NetPacketBuffer_new ::
    "u64 \<Rightarrow> u64 \<Rightarrow> int \<Rightarrow> int \<Rightarrow> int \<Rightarrow> mem_ptr \<Rightarrow> byte list \<Rightarrow> CPacketMemoryPool
     \<Rightarrow> (NetPacketBuffer \<times> CPacketMemoryPool) option" where
  "NetPacketBuffer_new now ulClientSeq iSockFd iProtoNo iBufferSize pstMemory pchBuffer P = do {
     P' \<leftarrow> pool_Init pstMemory iBufferSize pchBuffer P;
     Some (\<lparr>m_ulClientSeq = ulClientSeq, m_iSockFd = iSockFd, m_iProtoNo = iProtoNo,
            m_iBufferSize = iBufferSize, m_dwCreateTime = now, m_pstMemory = Some pstMemory\<rparr>, P')
   }"

definition NetPacketBuffer_new_empty :: "u64 \<Rightarrow> u64 \<Rightarrow> int \<Rightarrow> int \<Rightarrow> int \<Rightarrow> NetPacketBuffer" where
  "NetPacketBuffer_new_empty now ulClientSeq iSockFd iProtoNo iBufferSize =
     \<lparr>m_ulClientSeq = ulClientSeq, m_iSockFd = iSockFd, m_iProtoNo = iProtoNo,
      m_iBufferSize = iBufferSize, m_dwCreateTime = now, m_pstMemory = None\<rparr>"

definition GetPacketSize :: "NetPacketBuffer \<Rightarrow> int" where
  "GetPacketSize k = m_iBufferSize k + NETWORK_PACKET_HEADER_SIZE"

definition packet_GetBuffer :: "CPacketMemoryPool \<Rightarrow> NetPacketBuffer \<Rightarrow> byte list option" where
  "packet_GetBuffer P k = do {
     p \<leftarrow> m_pstMemory k;
     m \<leftarrow> memory_at P p;
     Some (memory_GetBuffer m)
   }"

definition RequireMemory :: "int \<Rightarrow> byte list \<Rightarrow> NetPacketBuffer \<Rightarrow> CPacketMemoryPool
     \<Rightarrow> (NetPacketBuffer \<times> CPacketMemoryPool) option" where
  "RequireMemory iBufferSize pchBuffer k P = do {
     P \<leftarrow> (case m_pstMemory k of Some p \<Rightarrow> ReleasePacketMemory p P | None \<Rightarrow> Some P);
     (p, P) \<leftarrow> GetFreePacketMemory P;
     P \<leftarrow> pool_Init p iBufferSize pchBuffer P;
     Some (k\<lparr>m_pstMemory := Some p\<rparr>, P)
   }"

definition ReleaseMemory :: "NetPacketBuffer \<Rightarrow> CPacketMemoryPool \<Rightarrow> CPacketMemoryPool option" where
  "ReleaseMemory k P = m_pstMemory k \<bind> (\<lambda>p. ReleasePacketMemory p P)"

definition PrepareHeader :: "NetPacketBuffer \<Rightarrow> byte list \<Rightarrow> byte list option" where
  "PrepareHeader k pchBuffer = do {
     (b, ptr, _) \<leftarrow> PackInt pchBuffer 0
        (word_of_int (m_iBufferSize k + NETWORK_PACKET_HEADER_SIZE + NETWORK_PACKET_TAIL_SIZE) :: u16);
     (b, ptr, _) \<leftarrow> PackInt b ptr (word_of_int (m_iProtoNo k) :: u16);
     Some b
   }"

definition PrepareTail :: "u64 \<Rightarrow> byte list \<Rightarrow> byte list option" where
  "PrepareTail now pchBuffer = do {
     (b, ptr, _) \<leftarrow> PackInt pchBuffer 0 now;
     Some b
   }"

definition be_bytes :: "'a::len word \<Rightarrow> byte list" where
  "be_bytes w = rev (word_bytes w)"

lemma length_be_bytes [simp]: "length (be_bytes (w :: 'a::len word)) = LENGTH('a) div 8"
  by (simp add: be_bytes_def)

lemma bytes_word_be [simp]: "8 dvd LENGTH('a) \<Longrightarrow> bytes_word (rev (be_bytes w)) = (w :: 'a::len word)"
  by (simp add: be_bytes_def)

lemma PrepareHeader_bytes:
  assumes "length b = 4"
  shows "PrepareHeader k b =
    Some (be_bytes (word_of_int (m_iBufferSize k + 12) :: u16) @ be_bytes (word_of_int (m_iProtoNo k) :: u16))"
  using assms
  by (simp add: PrepareHeader_def PackInt_bswap be_bytes_def packet_consts mem_simps add.commute)

lemma PrepareTail_bytes: "length b = 8 \<Longrightarrow> PrepareTail now b = Some (be_bytes now)"
  by (simp add: PrepareTail_def PackInt_bswap be_bytes_def mem_simps)

lemma UnpackInt_be:
  assumes "LENGTH('a) \<in> {16, 32, 64}" "drop ptr buffer = be_bytes (w :: 'a::len word) @ rest" "ptr \<le> length buffer"
  shows "UnpackInt buffer ptr (of_nat (LENGTH('a) div 8) :: 'a word) = Some (w, ptr + LENGTH('a) div 8)"
proof -
  have "length buffer - ptr = LENGTH('a) div 8 + length rest"
    using arg_cong [OF assms(2), of length] by simp
  then have "mem_read buffer ptr (LENGTH('a) div 8) = Some (be_bytes w)"
    using assms(2,3) by (simp add: mem_read_def)
  then show ?thesis
    using assms(1) by (auto simp: UnpackInt_bswap)
qed

text \<open>
  C29. Round trip of the byte-order helpers: for every 16-, 32- and 64-bit integer type, \<open>PackInt\<close>
  writes the value's bytes with the most significant first and advances the pointer by the size
  of the type, touching nothing else, and \<open>UnpackInt\<close> at the same place reads the value back and
  advances by the same amount.
\<close>

theorem pack_unpack_int:
  fixes v :: "'a::len word"
  assumes "LENGTH('a) \<in> {16, 32, 64}" and "ptr + LENGTH('a) div 8 \<le> length buffer"
  shows "\<exists>buffer'. PackInt buffer ptr v = Some (buffer', ptr + LENGTH('a) div 8, of_nat (LENGTH('a) div 8)) \<and>
    UnpackInt buffer' ptr (of_nat (LENGTH('a) div 8) :: 'a word) = Some (v, ptr + LENGTH('a) div 8) \<and>
    buffer' = take ptr buffer @ rev (word_bytes v) @ drop (ptr + LENGTH('a) div 8) buffer"
proof -
  let ?n = "LENGTH('a) div 8"
  let ?b = "take ptr buffer @ be_bytes v @ drop (ptr + ?n) buffer"
  have "mem_write buffer ptr (rev (word_bytes v)) = Some ?b"
    using assms(2) by (simp add: mem_write_def be_bytes_def)
  then have "PackInt buffer ptr v = Some (?b, ptr + ?n, of_nat ?n)"
    using assms(1) by (simp only: PackInt_bswap) simp
  moreover have "UnpackInt ?b ptr (of_nat ?n :: 'a word) = Some (v, ptr + ?n)"
  proof (rule UnpackInt_be [OF assms(1)])
    show "drop ptr ?b = be_bytes v @ drop (ptr + ?n) buffer" "ptr \<le> length ?b"
      using assms(2) by simp_all
  qed
  ultimately show ?thesis by (simp add: be_bytes_def)
qed

theorem pack_unpack_int_witness:
  "PackInt [1, 2, 3, 4] 1 (0x1234 :: u16) = Some ([1, 0x12, 0x34, 4], 3, 2) \<and>
   UnpackInt [1, 0x12, 0x34, 4] 1 (2 :: u16) = Some (0x1234, 3)"
proof -
  have "rev (word_bytes (0x1234 :: u16)) = [0x12, 0x34]" by code_simp
  moreover have "take 1 [1, 2, 3, 4 :: byte] = [1]" "drop 3 [1, 2, 3, 4 :: byte] = [4]" by code_simp+
  ultimately show ?thesis
    using pack_unpack_int [where v = "0x1234 :: u16" and ptr = 1 and buffer = "[1, 2, 3, 4]"]
    by simp
qed

end
