(* ===== verification/Network.thy ===== *)
theory Network
  imports Packet C_String "HOL-Library.Multiset"
begin

unbundle bit_operations_syntax

text \<open>
  The packet pipeline between the network threads and the logic thread: \<open>network/queue.h\<close>
  (packet queues), \<open>network/context.h\<close> (client buffers, the client pool, the receive and send
  queues of a server or connector) and \<open>network/socket/socket_ctx.h\<close> (a client of the socket
  server).
  \<^item> The packet pool is a singleton of the program and is passed along as a state of its own.
  \<^item> Each read/write lock covers the whole body of the operation that takes it, so every
    operation here is one step; readings of the clock are arguments.
  \<^item> \<open>frames_of\<close> is the reference definition of the wire format: what a byte stream means as a
    sequence of packets. \<open>UnpackPacketToRecvQueue\<close> is shown equal to it.
\<close>

section \<open>Packet queues\<close>

record NetPacketQueue =
  m_iPacketNum :: int
  m_vecPacketPool :: "NetPacketBuffer list"

definition queue_Init :: NetPacketQueue where
  "queue_Init = \<lparr>m_iPacketNum = 0, m_vecPacketPool = []\<rparr>"

definition queue_Size :: "NetPacketQueue \<Rightarrow> int" where
  "queue_Size q = m_iPacketNum q"

definition CopyFrom :: "NetPacketQueue \<Rightarrow> NetPacketQueue \<Rightarrow> NetPacketQueue \<times> NetPacketQueue \<times> int" where
  "CopyFrom q rstPacketQueue =
     (if m_iPacketNum q > 0 then
        (let vec = m_vecPacketPool q @ m_vecPacketPool rstPacketQueue;
             q' = q\<lparr>m_vecPacketPool := vec, m_iPacketNum := int (length vec)\<rparr>
         in (q', queue_Init, m_iPacketNum q'))
      else
        (let vec = m_vecPacketPool rstPacketQueue;
             q' = q\<lparr>m_vecPacketPool := vec, m_iPacketNum := int (length vec)\<rparr>
         in (q', queue_Init, m_iPacketNum q')))"

definition AddPacket ::
    "u64 \<Rightarrow> u64 \<Rightarrow> int \<Rightarrow> int \<Rightarrow> int \<Rightarrow> byte list \<Rightarrow> NetPacketQueue \<Rightarrow> CPacketMemoryPool
     \<Rightarrow> (NetPacketQueue \<times> CPacketMemoryPool) option" where
  "AddPacket now ulClientSeq iSockFd iProtoNo iBufferSize pchBuffer q P = do {
     (pstMemory, P) \<leftarrow> GetFreePacketMemory P;
     (k, P) \<leftarrow> NetPacketBuffer_new now ulClientSeq iSockFd iProtoNo iBufferSize pstMemory pchBuffer P;
     Some (q\<lparr>m_vecPacketPool := m_vecPacketPool q @ [k], m_iPacketNum := m_iPacketNum q + 1\<rparr>, P)
   }"

fun release_packets :: "NetPacketBuffer list \<Rightarrow> CPacketMemoryPool \<Rightarrow> CPacketMemoryPool option" where
  "release_packets [] P = Some P"
| "release_packets (k # ks) P = ReleaseMemory k P \<bind> release_packets ks"

definition ReleaseAllPackets ::
    "NetPacketQueue \<Rightarrow> CPacketMemoryPool \<Rightarrow> (NetPacketQueue \<times> CPacketMemoryPool) option" where
  "ReleaseAllPackets q P = do {
     P \<leftarrow> release_packets (m_vecPacketPool q) P;
     Some (q\<lparr>m_vecPacketPool := []\<rparr>, P)
   }"

section \<open>Client buffers\<close>

definition NETWORK_SERVER_IP_ADDRESS_LEN :: nat where
  "NETWORK_SERVER_IP_ADDRESS_LEN = 64"

definition NETWORK_PACKET_BUFFER_READ_SIZE :: nat where
  "NETWORK_PACKET_BUFFER_READ_SIZE = 10 * 1024"

record ST_ClientContextBuffer =
  ctx_ulClientSeq :: u64
  m_iClientFd :: int
  m_chClientIP :: "byte list"
  ctx_iBufferSize :: int
  m_chBuffer :: "byte list"

definition context_construct :: ST_ClientContextBuffer where
  "context_construct = \<lparr>ctx_ulClientSeq = 0, m_iClientFd = 0,
     m_chClientIP = replicate NETWORK_SERVER_IP_ADDRESS_LEN 0, ctx_iBufferSize = 0,
     m_chBuffer = replicate (NETWORK_PACKET_BUFFER_READ_SIZE * 10) 0\<rparr>"

definition MoveBufferPtr :: "nat \<Rightarrow> int \<Rightarrow> ST_ClientContextBuffer \<Rightarrow> ST_ClientContextBuffer option" where
  "MoveBufferPtr pchBufferPtr iLeftSize c =
     (if iLeftSize \<le> 0 then
        Some (c\<lparr>m_chBuffer := replicate (length (m_chBuffer c)) 0, ctx_iBufferSize := 0\<rparr>)
      else do {
        src \<leftarrow> mem_read (m_chBuffer c) pchBufferPtr (nat iLeftSize);
        buf \<leftarrow> mem_write (m_chBuffer c) 0 src;
        Some (c\<lparr>m_chBuffer := buf, ctx_iBufferSize := iLeftSize\<rparr>)
      })"

section \<open>The client pool\<close>

text \<open>
  Clients are pointers of a type \<open>'c\<close>. \<open>RemoveClientByFd\<close> reads the pointer it returns through an
  iterator it has just erased; that value is the parameter \<open>junk\<close>.
\<close>

record 'c ClientContextPool =
  m_stClientSeqPool :: "u64 \<Rightarrow> 'c option"
  m_stClientFdPool :: "int \<Rightarrow> 'c option"

definition GetClient :: "u64 \<Rightarrow> 'c ClientContextPool \<Rightarrow> 'c option" where
  "GetClient ulClientSeq cp = m_stClientSeqPool cp ulClientSeq"

definition GetClientByFd :: "int \<Rightarrow> 'c ClientContextPool \<Rightarrow> 'c option" where
  "GetClientByFd iClientFd cp = m_stClientFdPool cp iClientFd"

definition RemoveClientByFd ::
    "'c option \<Rightarrow> int \<Rightarrow> 'c ClientContextPool \<Rightarrow> 'c option \<times> 'c ClientContextPool" where
  "RemoveClientByFd junk iClientFd cp = (case m_stClientFdPool cp iClientFd of
     Some _ \<Rightarrow> (junk, cp\<lparr>m_stClientFdPool := (m_stClientFdPool cp)(iClientFd := None)\<rparr>)
   | None \<Rightarrow> (None, cp))"

definition map_insert :: "'k \<Rightarrow> 'v \<Rightarrow> ('k \<Rightarrow> 'v option) \<Rightarrow> ('k \<Rightarrow> 'v option)" where
  "map_insert k v m = (case m k of Some _ \<Rightarrow> m | None \<Rightarrow> m(k \<mapsto> v))"

definition AddClient :: "u64 \<Rightarrow> 'c \<Rightarrow> int \<Rightarrow> 'c ClientContextPool \<Rightarrow> 'c ClientContextPool" where
  "AddClient ulClientSeq pstClient iFd cp =
     cp\<lparr>m_stClientSeqPool := map_insert ulClientSeq pstClient (m_stClientSeqPool cp),
        m_stClientFdPool := map_insert iFd pstClient (m_stClientFdPool cp)\<rparr>"

definition RemoveClient ::
    "('c \<Rightarrow> int) \<Rightarrow> 'c option \<Rightarrow> u64 \<Rightarrow> 'c ClientContextPool \<Rightarrow> 'c option \<times> 'c ClientContextPool" where
  "RemoveClient fd_of junk ulClientSeq cp = (case m_stClientSeqPool cp ulClientSeq of
     Some pstClient \<Rightarrow>
       (let (_, cp) = RemoveClientByFd junk (fd_of pstClient) cp
        in (Some pstClient, cp\<lparr>m_stClientSeqPool := (m_stClientSeqPool cp)(ulClientSeq := None)\<rparr>))
   | None \<Rightarrow> (None, cp))"

section \<open>The queues of a server or connector\<close>

record ST_GameSingnal =
  m_bHasSignal :: bool

definition signal_new :: ST_GameSingnal where
  "signal_new = \<lparr>m_bHasSignal = False\<rparr>"

definition Emit :: "ST_GameSingnal \<Rightarrow> ST_GameSingnal" where
  "Emit s = s\<lparr>m_bHasSignal := True\<rparr>"

definition CheckAndSetSignalActived :: "ST_GameSingnal \<Rightarrow> bool \<times> ST_GameSingnal" where
  "CheckAndSetSignalActived s = (m_bHasSignal s, s\<lparr>m_bHasSignal := False\<rparr>)"

record NetworkContext =
  m_stNetPacketRecvPrepareQueue :: NetPacketQueue
  m_stNetPacketRecvQueue :: NetPacketQueue
  m_stNetPacketLogicQueue :: NetPacketQueue
  m_stNetPacketSendPrepareQueue :: NetPacketQueue
  m_stNetPacketSendQueue :: NetPacketQueue
  m_stNetPacketSendCache :: NetPacketQueue
  m_stSignalExec :: ST_GameSingnal

definition NetworkContext_new :: NetworkContext where
  "NetworkContext_new = \<lparr>m_stNetPacketRecvPrepareQueue = queue_Init, m_stNetPacketRecvQueue = queue_Init,
     m_stNetPacketLogicQueue = queue_Init, m_stNetPacketSendPrepareQueue = queue_Init,
     m_stNetPacketSendQueue = queue_Init, m_stNetPacketSendCache = queue_Init,
     m_stSignalExec = signal_new\<rparr>"

definition PacketRecvPrepare :: "NetworkContext \<Rightarrow> int \<times> NetworkContext" where
  "PacketRecvPrepare N =
     (let (to, from, n) = CopyFrom (m_stNetPacketRecvQueue N) (m_stNetPacketRecvPrepareQueue N)
      in (n, N\<lparr>m_stNetPacketRecvQueue := to, m_stNetPacketRecvPrepareQueue := from\<rparr>))"

definition CopyPacketsFromNetToLogic :: "NetworkContext \<Rightarrow> int \<times> NetworkContext" where
  "CopyPacketsFromNetToLogic N =
     (let (to, from, n) = CopyFrom queue_Init (m_stNetPacketRecvQueue N)
      in (n, N\<lparr>m_stNetPacketLogicQueue := to, m_stNetPacketRecvQueue := from\<rparr>))"

definition PacketSendPrepare :: "NetworkContext \<Rightarrow> int \<times> NetworkContext" where
  "PacketSendPrepare N =
     (let (to, from, n) = CopyFrom (m_stNetPacketSendQueue N) (m_stNetPacketSendPrepareQueue N)
      in (n, N\<lparr>m_stNetPacketSendQueue := to, m_stNetPacketSendPrepareQueue := from\<rparr>))"

definition PacketSendPrepareCache :: "NetworkContext \<Rightarrow> int \<times> NetworkContext" where
  "PacketSendPrepareCache N =
     (let (to, from, _) = CopyFrom (m_stNetPacketSendCache N) (m_stNetPacketSendQueue N)
      in (queue_Size to, N\<lparr>m_stNetPacketSendCache := to, m_stNetPacketSendQueue := from\<rparr>))"

text \<open>
  The protobuf message is a parameter: \<open>ByteSizeLong\<close> is its encoded size and \<open>SerializeToArray\<close>
  the encoding it writes when the array is large enough.
\<close>

definition PackProtobufStruct ::
    "('m \<Rightarrow> int \<Rightarrow> byte list) \<Rightarrow> 'm \<Rightarrow> int \<Rightarrow> int \<Rightarrow> byte list \<Rightarrow> (byte list \<times> int) option" where
  "PackProtobufStruct SerializeToArray rstProto iBufferSize iProtoSize buffer = do {
     let iBufferSize = (if iBufferSize > iProtoSize then iProtoSize else iBufferSize);
     b \<leftarrow> mem_write buffer 0 (SerializeToArray rstProto iBufferSize);
     Some (b, 2 + iBufferSize)
   }"

definition PacketProduceProtobufPacket ::
    "('m \<Rightarrow> int) \<Rightarrow> ('m \<Rightarrow> int \<Rightarrow> byte list) \<Rightarrow> u64 \<Rightarrow> u64 \<Rightarrow> int \<Rightarrow> int \<Rightarrow> 'm
     \<Rightarrow> NetworkContext \<Rightarrow> CPacketMemoryPool \<Rightarrow> (bool \<times> NetworkContext \<times> CPacketMemoryPool) option" where
  "PacketProduceProtobufPacket ByteSizeLong SerializeToArray now ulClientSeq iClientFd iProtoNo rstProto N P = do {
     let iBufferSize = ByteSizeLong rstProto;
     let chRspBuffer = replicate (nat iBufferSize) 0;
     (chRspBuffer, _) \<leftarrow> PackProtobufStruct SerializeToArray rstProto iBufferSize iBufferSize chRspBuffer;
     (q, P) \<leftarrow> AddPacket now ulClientSeq iClientFd iProtoNo iBufferSize chRspBuffer
                 (m_stNetPacketSendPrepareQueue N) P;
     Some (True, N\<lparr>m_stNetPacketSendPrepareQueue := q\<rparr>, P)
   }"

subsection \<open>Splitting the received bytes into packets\<close>

function unpack_loop ::
    "(nat \<Rightarrow> u64) \<Rightarrow> ST_ClientContextBuffer \<Rightarrow> nat \<Rightarrow> int \<Rightarrow> nat \<Rightarrow> NetPacketQueue \<Rightarrow> CPacketMemoryPool
     \<Rightarrow> (int \<times> nat \<times> int \<times> nat \<times> NetPacketQueue \<times> CPacketMemoryPool) option" where
  "unpack_loop clock c pchBufferPtr iLeftSize iTotalPackets q P =
     (if iLeftSize \<ge> NETWORK_PACKET_HEADER_SIZE then do {
        (sz, ptr) \<leftarrow> UnpackInt (m_chBuffer c) pchBufferPtr (2 :: u16);
        let iPacketSize = sint sz;
        (if iLeftSize < iPacketSize \<or> iPacketSize < NETWORK_PACKET_HEADER_SIZE then
           Some (0, pchBufferPtr, iLeftSize, iTotalPackets, q, P)
         else do {
           (pno, ptr) \<leftarrow> UnpackInt (m_chBuffer c) ptr (2 :: u16);
           let iProtoNo = sint pno;
           let iBodySize = iPacketSize - NETWORK_PACKET_HEADER_SIZE;
           (if 0 \<ge> iBodySize then Some (- 2, pchBufferPtr, iLeftSize, iTotalPackets, q, P)
            else if NETWORK_PACKET_BUFFER_MAX_SIZE < iBodySize then
              Some (- 3, pchBufferPtr, iLeftSize, iTotalPackets, q, P)
            else do {
              (q, P) \<leftarrow> AddPacket (clock iTotalPackets) (ctx_ulClientSeq c) (m_iClientFd c) iProtoNo iBodySize
                          (drop ptr (m_chBuffer c)) q P;
              unpack_loop clock c (pchBufferPtr + nat iPacketSize) (iLeftSize - iPacketSize)
                (Suc iTotalPackets) q P
            })
         })
      }
      else Some (0, pchBufferPtr, iLeftSize, iTotalPackets, q, P))"
  by pat_completeness auto

termination unpack_loop
  by (relation "measure (\<lambda>(clock, c, pos, left, total, q, P). nat left)")
     (auto simp: NETWORK_PACKET_HEADER_SIZE_def)

declare unpack_loop.simps [simp del]

definition UnpackPacketToRecvQueue ::
    "(nat \<Rightarrow> u64) \<Rightarrow> ST_ClientContextBuffer option \<Rightarrow> NetworkContext \<Rightarrow> CPacketMemoryPool
     \<Rightarrow> (int \<times> ST_ClientContextBuffer option \<times> NetworkContext \<times> CPacketMemoryPool) option" where
  "UnpackPacketToRecvQueue clock pstContextBuffer N P = (case pstContextBuffer of
     None \<Rightarrow> Some (- 1, None, N, P)
   | Some c \<Rightarrow> do {
       (ret, ptr, iLeftSize, iTotalPackets, q, P) \<leftarrow>
          unpack_loop clock c 0 (ctx_iBufferSize c) 0 (m_stNetPacketRecvPrepareQueue N) P;
       let N = N\<lparr>m_stNetPacketRecvPrepareQueue := q\<rparr>;
       (if ret \<noteq> 0 then Some (ret, Some c, N, P)
        else do {
          c \<leftarrow> MoveBufferPtr ptr iLeftSize c;
          let N = snd (PacketRecvPrepare N);
          let N = (if iTotalPackets > 0 then N\<lparr>m_stSignalExec := Emit (m_stSignalExec N)\<rparr> else N);
          Some (0, Some c, N, P)
        })
     })"

section \<open>A client of the socket server\<close>

record SocketClientCtx =
  m_ulClientUniqSeq :: u64
  m_stContextBuffer :: ST_ClientContextBuffer

definition SocketClientCtx_new :: "u64 \<Rightarrow> int \<Rightarrow> SocketClientCtx" where
  "SocketClientCtx_new uuid iClientFd = \<lparr>m_ulClientUniqSeq = uuid,
     m_stContextBuffer = context_construct\<lparr>m_iClientFd := iClientFd\<rparr>\<rparr>"

definition SetClientIP :: "byte list \<Rightarrow> nat \<Rightarrow> SocketClientCtx \<Rightarrow> SocketClientCtx option" where
  "SetClientIP pchIP dwSize s = do {
     let dwSize = (if dwSize > NETWORK_SERVER_IP_ADDRESS_LEN then NETWORK_SERVER_IP_ADDRESS_LEN else dwSize);
     src \<leftarrow> mem_read pchIP 0 dwSize;
     ip \<leftarrow> mem_write (replicate (length (m_chClientIP (m_stContextBuffer s))) 0) 0 src;
     Some (s\<lparr>m_stContextBuffer := (m_stContextBuffer s)\<lparr>m_chClientIP := ip\<rparr>\<rparr>)
   }"

definition PacketBufferRead :: "byte list \<Rightarrow> int \<Rightarrow> SocketClientCtx \<Rightarrow> (int \<times> SocketClientCtx) option" where
  "PacketBufferRead pchBuffer iBufferNeedRead s = do {
     let c = m_stContextBuffer s;
     let iLeftSpace = int (length (m_chBuffer c)) - ctx_iBufferSize c;
     (if iLeftSpace < iBufferNeedRead then Some (- 1, s)
      else if iBufferNeedRead < 0 then None
      else do {
        src \<leftarrow> mem_read pchBuffer 0 (nat iBufferNeedRead);
        buf \<leftarrow> mem_write (m_chBuffer c) (nat (ctx_iBufferSize c)) src;
        Some (iBufferNeedRead,
              s\<lparr>m_stContextBuffer := c\<lparr>m_chBuffer := buf, ctx_iBufferSize := ctx_iBufferSize c + iBufferNeedRead\<rparr>\<rparr>)
      })
   }"

definition PacketBufferSend :: "u64 \<Rightarrow> CPacketMemoryPool \<Rightarrow> NetPacketBuffer \<Rightarrow> (int \<times> byte list) option" where
  "PacketBufferSend now P k = do {
     let iSizeTotal = NETWORK_PACKET_HEADER_SIZE + m_iBufferSize k + NETWORK_PACKET_TAIL_SIZE;
     let buffer = replicate (nat iSizeTotal) (0 :: byte);
     chHeaderArray \<leftarrow> PrepareHeader k (replicate (nat NETWORK_PACKET_HEADER_SIZE) 0);
     chTailArray \<leftarrow> PrepareTail now (replicate (nat NETWORK_PACKET_TAIL_SIZE) 0);
     buffer \<leftarrow> mem_write buffer 0 chHeaderArray;
     mem \<leftarrow> packet_GetBuffer P k;
     body \<leftarrow> mem_read mem 0 (nat (m_iBufferSize k));
     buffer \<leftarrow> mem_write buffer (nat NETWORK_PACKET_HEADER_SIZE) body;
     buffer \<leftarrow> mem_write buffer (nat (NETWORK_PACKET_HEADER_SIZE + m_iBufferSize k)) chTailArray;
     Some (m_iSockFd k, buffer)
   }"

subsection \<open>Sending everything that is queued\<close>

fun send_packets ::
    "(NetPacketBuffer \<Rightarrow> bool) \<Rightarrow> (nat \<Rightarrow> u64) \<Rightarrow> nat \<Rightarrow> CPacketMemoryPool \<Rightarrow> NetPacketBuffer list
     \<Rightarrow> (int \<times> byte list) list option" where
  "send_packets has_client clock i P [] = Some []"
| "send_packets has_client clock i P (k # ks) =
     (if has_client k then do {
        out \<leftarrow> PacketBufferSend (clock i) P k;
        outs \<leftarrow> send_packets has_client clock (Suc i) P ks;
        Some (out # outs)
      }
      else send_packets has_client clock i P ks)"

partial_function (option) send_all_loop ::
    "(NetPacketBuffer \<Rightarrow> bool) \<Rightarrow> (nat \<Rightarrow> u64) \<Rightarrow> nat \<Rightarrow> NetworkContext \<Rightarrow> CPacketMemoryPool
     \<Rightarrow> (int \<times> (int \<times> byte list) list \<times> NetworkContext \<times> CPacketMemoryPool) option" where
  "send_all_loop has_client clock i N P = do {
     outs \<leftarrow> send_packets has_client clock i P (m_vecPacketPool (m_stNetPacketSendCache N));
     (cache, P) \<leftarrow> ReleaseAllPackets (m_stNetPacketSendCache N) P;
     let (iTotalPackets, N) = PacketSendPrepareCache (N\<lparr>m_stNetPacketSendCache := cache\<rparr>);
     (if iTotalPackets > 0 then do {
        (n, outs', N, P) \<leftarrow> send_all_loop has_client clock (i + length outs) N P;
        Some (n, outs @ outs', N, P)
      }
      else Some (iTotalPackets, outs, N, P))
   }"

definition server_ExecuteCmdSendAllPacket ::
    "'c ClientContextPool \<Rightarrow> (nat \<Rightarrow> u64) \<Rightarrow> NetworkContext \<Rightarrow> CPacketMemoryPool
     \<Rightarrow> (int \<times> (int \<times> byte list) list \<times> NetworkContext \<times> CPacketMemoryPool) option" where
  "server_ExecuteCmdSendAllPacket cp clock N P =
     send_all_loop (\<lambda>k. GetClient (m_ulClientSeq k) cp \<noteq> None) clock 0 (snd (PacketSendPrepareCache N)) P"

definition connector_ExecuteCmdSendAllPacket ::
    "'c option \<Rightarrow> (nat \<Rightarrow> u64) \<Rightarrow> NetworkContext \<Rightarrow> CPacketMemoryPool
     \<Rightarrow> (int \<times> (int \<times> byte list) list \<times> NetworkContext \<times> CPacketMemoryPool) option" where
  "connector_ExecuteCmdSendAllPacket m_pstClientCtx clock N P =
     (if m_pstClientCtx = None then Some (- 1, [], N, P)
      else send_all_loop (\<lambda>_. True) clock 0 (snd (PacketSendPrepareCache N)) P)"

definition server_GetClientIP :: "('c \<Rightarrow> string) \<Rightarrow> u64 \<Rightarrow> 'c ClientContextPool \<Rightarrow> string" where
  "server_GetClientIP ip_of ulClientSeq cp = (case GetClient ulClientSeq cp of
     None \<Rightarrow> ''Unknown'' | Some pstClientCtx \<Rightarrow> ip_of pstClientCtx)"

section \<open>Packets as the logic sees them\<close>

type_synonym packet = "u64 \<times> int \<times> int \<times> byte list"

definition packet_ptr :: "NetPacketBuffer \<Rightarrow> mem_ptr" where
  "packet_ptr k = the (m_pstMemory k)"

definition packet_ok :: "CPacketMemoryPool \<Rightarrow> NetPacketBuffer \<Rightarrow> bool" where
  "packet_ok P k \<longleftrightarrow> m_pstMemory k \<noteq> None \<and> 0 \<le> m_iBufferSize k \<and> m_iBufferSize k \<le> NETWORK_PACKET_BUFFER_MAX_SIZE \<and>
     (\<exists>b. pool_fetch P (packet_ptr k) = Some b \<and> nat (m_iBufferSize k) \<le> length b)"

definition packet_view :: "CPacketMemoryPool \<Rightarrow> NetPacketBuffer \<Rightarrow> packet" where
  "packet_view P k = (m_ulClientSeq k, m_iSockFd k, m_iProtoNo k,
     take (nat (m_iBufferSize k)) (case pool_fetch P (packet_ptr k) of Some b \<Rightarrow> b | None \<Rightarrow> []))"

definition queue_wf :: "NetPacketQueue \<Rightarrow> bool" where
  "queue_wf q \<longleftrightarrow> 0 \<le> m_iPacketNum q \<and>
     (m_vecPacketPool q \<noteq> [] \<longrightarrow> m_iPacketNum q = int (length (m_vecPacketPool q)))"

definition queue_add :: "NetPacketBuffer list \<Rightarrow> NetPacketQueue \<Rightarrow> NetPacketQueue" where
  "queue_add ks q = q\<lparr>m_vecPacketPool := m_vecPacketPool q @ ks, m_iPacketNum := m_iPacketNum q + int (length ks)\<rparr>"

lemma queue_add_simps [simp]:
  "m_vecPacketPool (queue_add ks q) = m_vecPacketPool q @ ks" "queue_add [] q = q"
  "queue_add js (queue_add ks q) = queue_add (ks @ js) q"
  by (simp_all add: queue_add_def)

lemma packet_frame:
  assumes "\<forall>q\<in>L. pool_fetch P' q = pool_fetch P q" "packet_ptr k \<in> L"
  shows "packet_ok P' k = packet_ok P k" "packet_view P' k = packet_view P k"
  using assms by (simp_all add: packet_ok_def packet_view_def)

lemma packets_frame:
  assumes "\<forall>q\<in>L. pool_fetch P' q = pool_fetch P q" "packet_ptr ` set ks \<subseteq> L"
  shows "(\<forall>k\<in>set ks. packet_ok P' k) = (\<forall>k\<in>set ks. packet_ok P k)"
    "map (packet_view P') ks = map (packet_view P) ks"
proof -
  have "packet_ok P' k = packet_ok P k" "packet_view P' k = packet_view P k" if "k \<in> set ks" for k
    using packet_frame [OF assms(1)] assms(2) that by blast+
  then show "(\<forall>k\<in>set ks. packet_ok P' k) = (\<forall>k\<in>set ks. packet_ok P k)"
    "map (packet_view P') ks = map (packet_view P) ks" by simp_all
qed

lemma AddPacket_ok:
  assumes "pool_wf P L" "0 \<le> n" "n \<le> NETWORK_PACKET_BUFFER_MAX_SIZE" "nat n \<le> length src"
  obtains k P' where "AddPacket now seq fd pno n src q P = Some (queue_add [k] q, P')"
    "packet_ptr k \<notin> L" "pool_wf P' (insert (packet_ptr k) L)" "packet_ok P' k"
    "packet_view P' k = (seq, fd, pno, take (nat n) src)"
    "\<forall>q\<in>L. pool_fetch P' q = pool_fetch P q"
proof -
  obtain p P' b where a: "pool_acquire n src P = Some (p, P')" "p \<notin> L" "pool_wf P' (insert p L)"
      "pool_fetch P' p = Some b" "nat n \<le> length b" "take (nat n) b = take (nat n) src"
      "\<forall>q\<in>L. pool_fetch P' q = pool_fetch P q"
    using pool.acquire_fresh [OF assms] by auto
  let ?k = "\<lparr>m_ulClientSeq = seq, m_iSockFd = fd, m_iProtoNo = pno, m_iBufferSize = n,
      m_dwCreateTime = now, m_pstMemory = Some p\<rparr>"
  have "AddPacket now seq fd pno n src q P = Some (queue_add [?k] q, P')"
    using a(1)
    by (auto simp: AddPacket_def pool_acquire_def NetPacketBuffer_new_def queue_add_def bind_eq_Some_conv)
  moreover have "packet_ptr ?k = p" by (simp add: packet_ptr_def)
  ultimately show ?thesis
    using that [of ?k P'] a assms(2,3) by (simp add: packet_ok_def packet_view_def)
qed

section \<open>The wire format\<close>

text \<open>
  A frame is a 16-bit big-endian length that counts the whole frame, a 16-bit big-endian protocol
  number, and the body. \<open>frame_head\<close> decides what the first bytes of a stream are.
\<close>

datatype frame_kind = Frame_Wait | Frame_Error int | Frame int nat

definition be16 :: "byte list \<Rightarrow> int" where
  "be16 d = sint (bytes_word (rev (take 2 d)) :: u16)"

definition frame_head :: "byte list \<Rightarrow> frame_kind" where
  "frame_head d =
     (if length d < 4 \<or> int (length d) < be16 d \<or> be16 d < 4 then Frame_Wait
      else if be16 d = 4 then Frame_Error (- 2)
      else if 10240 < be16 d - 4 then Frame_Error (- 3)
      else Frame (be16 (drop 2 d)) (nat (be16 d)))"

lemma frame_headD: "frame_head d = Frame pno n \<Longrightarrow> 4 < n \<and> n \<le> length d \<and> n \<le> 10244"
  by (auto simp: frame_head_def split: if_splits)

function frames_of :: "byte list \<Rightarrow> (int \<times> byte list) list \<times> byte list \<times> int" where
  "frames_of d = (case frame_head d of
     Frame_Wait \<Rightarrow> ([], d, 0)
   | Frame_Error e \<Rightarrow> ([], d, e)
   | Frame pno n \<Rightarrow> (case frames_of (drop n d) of (fs, rest, e) \<Rightarrow>
       ((pno, take (n - 4) (drop 4 d)) # fs, rest, e)))"
  by pat_completeness auto

termination frames_of
  by (relation "measure length") (auto dest: frame_headD)

declare frames_of.simps [simp del]

definition encode_frame :: "int \<times> byte list \<Rightarrow> byte list" where
  "encode_frame f = be_bytes (of_nat (length (snd f) + 4) :: u16) @ be_bytes (word_of_int (fst f) :: u16) @ snd f"

definition frame_ok :: "int \<times> byte list \<Rightarrow> bool" where
  "frame_ok f \<longleftrightarrow> - 32768 \<le> fst f \<and> fst f < 32768 \<and> snd f \<noteq> [] \<and> length (snd f) \<le> 10240"

lemma length_encode_frame [simp]: "length (encode_frame f) = length (snd f) + 4"
  by (simp add: encode_frame_def)

lemma sint_u16_small:
  assumes "- 32768 \<le> i" "i < 32768"
  shows "sint (word_of_int i :: u16) = i"
  using assms by (simp add: signed_of_int signed_take_bit_int_eq_self)

lemma be16_be_bytes:
  assumes "- 32768 \<le> i" "i < 32768"
  shows "be16 (be_bytes (word_of_int i :: u16) @ d) = i"
proof -
  have "bytes_word (rev (be_bytes (word_of_int i :: u16))) = (word_of_int i :: u16)" by simp
  then show ?thesis using assms by (simp add: be16_def sint_u16_small)
qed

lemma be16_encode:
  assumes "frame_ok f"
  shows "be16 (encode_frame f @ d) = int (length (snd f)) + 4"
proof -
  have *: "(of_nat (length (snd f) + 4) :: u16) = word_of_int (int (length (snd f)) + 4)" by simp
  show ?thesis
    using assms be16_be_bytes [of "int (length (snd f)) + 4"]
    unfolding encode_frame_def * append_assoc by (simp add: frame_ok_def)
qed

lemma frame_head_encode:
  assumes "frame_ok f"
  shows "frame_head (encode_frame f @ d) = Frame (fst f) (length (snd f) + 4)"
proof -
  have "be16 (drop 2 (encode_frame f @ d)) = fst f"
    using assms be16_be_bytes [of "fst f"] by (simp add: encode_frame_def frame_ok_def)
  moreover have "0 < length (snd f)" "length (snd f) \<le> 10240" using assms by (auto simp: frame_ok_def)
  ultimately show ?thesis using be16_encode [OF assms, of d] by (simp add: frame_head_def nat_add_distrib)
qed

lemma frames_of_encode:
  assumes "frame_ok f"
  shows "frames_of (encode_frame f @ d) = (case frames_of d of (fs, rest, e) \<Rightarrow> (f # fs, rest, e))"
proof -
  have "drop 4 (encode_frame f @ d) = snd f @ d" by (simp add: encode_frame_def)
  then show ?thesis
    by (subst frames_of.simps) (simp add: frame_head_encode [OF assms] split: prod.splits)
qed

lemma frames_of_encode_list:
  assumes "\<forall>f\<in>set fs. frame_ok f"
  shows "frames_of (concat (map encode_frame fs) @ d) = (case frames_of d of (gs, rest, e) \<Rightarrow> (fs @ gs, rest, e))"
  using assms
proof (induction fs)
  case Nil
  then show ?case by simp
next
  case (Cons f fs)
  then show ?case by (simp add: frames_of_encode split: prod.splits)
qed

lemma frame_head_prefix:
  assumes "frame_ok f" "n < length (encode_frame f)"
  shows "frame_head (take n (encode_frame f)) = Frame_Wait"
proof (cases "n < 4")
  case True
  then show ?thesis by (simp add: frame_head_def)
next
  case False
  have "take 2 (take n (encode_frame f)) = take 2 (encode_frame f)" using False by simp
  then have "be16 (take n (encode_frame f)) = be16 (encode_frame f)" by (simp add: be16_def)
  moreover have "be16 (encode_frame f) = int (length (snd f)) + 4"
    using be16_encode [OF assms(1), of "[]"] by simp
  ultimately show ?thesis using assms by (simp add: frame_head_def)
qed

lemma frames_of_wait: "frame_head d = Frame_Wait \<Longrightarrow> frames_of d = ([], d, 0)"
  by (subst frames_of.simps) simp

subsection \<open>The receive loop computes the frames\<close>

definition recv_tag :: "ST_ClientContextBuffer \<Rightarrow> int \<times> byte list \<Rightarrow> packet" where
  "recv_tag c f = (ctx_ulClientSeq c, m_iClientFd c, fst f, snd f)"

definition fresh_packets ::
    "CPacketMemoryPool \<Rightarrow> mem_ptr set \<Rightarrow> NetPacketBuffer list \<Rightarrow> packet list \<Rightarrow> CPacketMemoryPool \<Rightarrow> bool" where
  "fresh_packets P L ks vs P' \<longleftrightarrow>
     distinct (map packet_ptr ks) \<and> packet_ptr ` set ks \<inter> L = {} \<and>
     pool_wf P' (L \<union> packet_ptr ` set ks) \<and> (\<forall>k\<in>set ks. packet_ok P' k) \<and>
     map (packet_view P') ks = vs \<and> (\<forall>q\<in>L. pool_fetch P' q = pool_fetch P q)"

lemma fresh_packets_nil [simp]: "fresh_packets P L [] vs P' \<longleftrightarrow>
    vs = [] \<and> pool_wf P' L \<and> (\<forall>q\<in>L. pool_fetch P' q = pool_fetch P q)"
  by (auto simp: fresh_packets_def)

lemma fresh_packets_cons:
  assumes "packet_ptr k \<notin> L" "packet_ok P1 k" "packet_view P1 k = v"
    "\<forall>q\<in>L. pool_fetch P1 q = pool_fetch P q"
    "fresh_packets P1 (insert (packet_ptr k) L) ks vs P'"
  shows "fresh_packets P L (k # ks) (v # vs) P'"
proof -
  have k: "packet_ok P' k" "packet_view P' k = v"
    using packet_frame [of "insert (packet_ptr k) L" P' P1 k] assms by (auto simp: fresh_packets_def)
  have "insert (packet_ptr k) (L \<union> packet_ptr ` set ks) = insert (packet_ptr k) L \<union> packet_ptr ` set ks"
    by auto
  then show ?thesis using assms k by (auto simp: fresh_packets_def)
qed

lemma UnpackInt_at:
  assumes "d = take n (drop pos b)" "i + 2 \<le> n" "pos + n \<le> length b"
  shows "UnpackInt b (pos + i) (2 :: u16) = Some (bytes_word (rev (take 2 (drop i d))), pos + i + 2)"
proof -
  have "take 2 (drop i d) = take 2 (drop (pos + i) b)"
    using assms by (simp add: drop_take min_def add.commute)
  moreover have "(2 :: u16) = of_nat (LENGTH(16) div 8)" by simp
  ultimately show ?thesis
    using assms UnpackInt_bswap [where 'a = 16, of b "pos + i"] by (simp add: mem_read_def)
qed

lemma unpack_loop_step:
  assumes "pos + length d \<le> length (m_chBuffer c)" "d = take (length d) (drop pos (m_chBuffer c))"
  shows "unpack_loop clock c pos (int (length d)) t q P = (case frame_head d of
      Frame_Wait \<Rightarrow> Some (0, pos, int (length d), t, q, P)
    | Frame_Error e \<Rightarrow> Some (e, pos, int (length d), t, q, P)
    | Frame pno n \<Rightarrow> AddPacket (clock t) (ctx_ulClientSeq c) (m_iClientFd c) pno (int n - 4)
          (drop (pos + 4) (m_chBuffer c)) q P \<bind>
        (\<lambda>(q, P). unpack_loop clock c (pos + n) (int (length d) - int n) (Suc t) q P))"
proof (cases "length d < 4")
  case True
  then show ?thesis
    by (subst unpack_loop.simps) (simp add: NETWORK_PACKET_HEADER_SIZE_def frame_head_def)
next
  case False
  have "UnpackInt (m_chBuffer c) pos (2 :: u16) = Some (bytes_word (rev (take 2 d)), pos + 2)"
    using UnpackInt_at [of d "length d" pos "m_chBuffer c" 0] assms False by simp
  moreover have "UnpackInt (m_chBuffer c) (pos + 2) (2 :: u16) = Some (bytes_word (rev (take 2 (drop 2 d))), pos + 4)"
    using UnpackInt_at [of d "length d" pos "m_chBuffer c" 2] assms False by simp
  ultimately show ?thesis
    using False
    by (subst unpack_loop.simps)
       (auto simp add: packet_consts frame_head_def be16_def Let_def)
qed

lemma unpack_loop_frames:
  assumes "pool_wf P L" "pos + length d \<le> length (m_chBuffer c)"
    "d = take (length d) (drop pos (m_chBuffer c))" "frames_of d = (fs, rest, e)"
  shows "\<exists>ks P'. unpack_loop clock c pos (int (length d)) t q P =
      Some (e, pos + (length d - length rest), int (length rest), t + length fs, queue_add ks q, P') \<and>
    fresh_packets P L ks (map (recv_tag c) fs) P' \<and>
    length rest \<le> length d \<and> rest = drop (length d - length rest) d"
  using assms
proof (induction "length d" arbitrary: d pos t q P L fs rest e rule: less_induct)
  case less
  let ?b = "m_chBuffer c"
  note step = unpack_loop_step [OF less.prems(2,3), of clock t q P]
  show ?case
  proof (cases "frame_head d")
    case Frame_Wait
    then show ?thesis
      using less.prems step frames_of_wait [OF Frame_Wait]
      by (intro exI [of _ "[]"] exI [of _ P]) simp
  next
    case (Frame_Error e')
    then have "frames_of d = ([], d, e')" by (subst frames_of.simps) simp
    then show ?thesis
      using less.prems step Frame_Error by (intro exI [of _ "[]"] exI [of _ P]) simp
  next
    case (Frame pno n)
    have n: "4 < n" "n \<le> length d" "n \<le> 10244" using frame_headD [OF Frame] by auto
    let ?d = "drop n d"
    let ?body = "take (n - 4) (drop 4 d)"
    obtain fs' where fs: "fs = (pno, ?body) # fs'" "frames_of ?d = (fs', rest, e)"
      using less.prems(4) Frame by (subst (asm) frames_of.simps) (auto split: prod.splits)
    have body: "take (nat (int n - 4)) (drop (pos + 4) ?b) = ?body"
    proof -
      have "drop 4 d = take (length d - 4) (drop (pos + 4) ?b)"
        using less.prems(3) by (metis drop_drop drop_take add.commute)
      then show ?thesis using n by (simp add: nat_diff_distrib min_def)
    qed
    have m: "0 \<le> int n - 4" "int n - 4 \<le> NETWORK_PACKET_BUFFER_MAX_SIZE"
        "nat (int n - 4) \<le> length (drop (pos + 4) ?b)"
      using n less.prems(2) by (simp_all add: NETWORK_PACKET_BUFFER_MAX_SIZE_def)
    obtain k P1 where k: "AddPacket (clock t) (ctx_ulClientSeq c) (m_iClientFd c) pno (int n - 4)
          (drop (pos + 4) ?b) q P = Some (queue_add [k] q, P1)"
        "packet_ptr k \<notin> L" "pool_wf P1 (insert (packet_ptr k) L)" "packet_ok P1 k"
        "packet_view P1 k = (ctx_ulClientSeq c, m_iClientFd c, pno, ?body)"
        "\<forall>q\<in>L. pool_fetch P1 q = pool_fetch P q"
      by (rule AddPacket_ok [OF less.prems(1) m, where now = "clock t" and seq = "ctx_ulClientSeq c"
            and fd = "m_iClientFd c" and pno = pno and q = q, unfolded body])
    have "?d = take (length ?d) (drop (pos + n) ?b)"
      using less.prems(3) n by (metis drop_drop drop_take length_drop add.commute)
    moreover have "length ?d < length d" "pos + n + length ?d \<le> length ?b" using n less.prems(2) by auto
    ultimately obtain ks P' where ih: "unpack_loop clock c (pos + n) (int (length ?d)) (Suc t) (queue_add [k] q) P1 =
        Some (e, pos + n + (length ?d - length rest), int (length rest), Suc t + length fs',
              queue_add ks (queue_add [k] q), P')"
      "fresh_packets P1 (insert (packet_ptr k) L) ks (map (recv_tag c) fs') P'"
      "length rest \<le> length ?d" "rest = drop (length ?d - length rest) ?d"
      using less.hyps [OF _ k(3) _ _ fs(2), of "pos + n" "Suc t" "queue_add [k] q"] by blast
    have "unpack_loop clock c pos (int (length d)) t q P =
        Some (e, pos + (length d - length rest), int (length rest), t + length fs, queue_add (k # ks) q, P')"
      using step Frame k(1) ih(1,3) n fs(1) by (simp add: of_nat_diff)
    moreover have "fresh_packets P L (k # ks) (map (recv_tag c) fs) P'"
      using fresh_packets_cons [OF k(2,4,5,6) ih(2)] fs(1) by (simp add: recv_tag_def)
    moreover have "rest = drop (length d - length rest) d"
    proof -
      have "length ?d - length rest + n = length d - length rest" using ih(3) n by simp
      then show ?thesis using ih(4) by (metis drop_drop)
    qed
    ultimately show ?thesis using ih(3) by auto
  qed
qed

section \<open>The invariant of the pipeline\<close>

definition all_queues :: "NetworkContext \<Rightarrow> NetPacketQueue list" where
  "all_queues N = [m_stNetPacketRecvPrepareQueue N, m_stNetPacketRecvQueue N, m_stNetPacketLogicQueue N,
     m_stNetPacketSendPrepareQueue N, m_stNetPacketSendQueue N, m_stNetPacketSendCache N]"

definition all_packets :: "NetworkContext \<Rightarrow> NetPacketBuffer list" where
  "all_packets N = concat (map m_vecPacketPool (all_queues N))"

text \<open>
  \<open>ReleaseAllPackets\<close> leaves the packet counter of the logic queue and of the send cache behind, so
  these two only satisfy \<open>queue_wf\<close>; the counters of the other four queues are exact.
\<close>

definition queue_exact :: "NetPacketQueue \<Rightarrow> bool" where
  "queue_exact q \<longleftrightarrow> m_iPacketNum q = int (length (m_vecPacketPool q))"

definition packets_inv :: "NetPacketBuffer list \<Rightarrow> CPacketMemoryPool \<Rightarrow> mem_ptr set \<Rightarrow> bool" where
  "packets_inv ks P L \<longleftrightarrow> pool_wf P L \<and> distinct (map packet_ptr ks) \<and> packet_ptr ` set ks \<subseteq> L \<and>
     (\<forall>k\<in>set ks. packet_ok P k)"

definition net_inv :: "NetworkContext \<Rightarrow> CPacketMemoryPool \<Rightarrow> mem_ptr set \<Rightarrow> bool" where
  "net_inv N P L \<longleftrightarrow> packets_inv (all_packets N) P L \<and>
     queue_exact (m_stNetPacketRecvPrepareQueue N) \<and> queue_exact (m_stNetPacketRecvQueue N) \<and>
     queue_wf (m_stNetPacketLogicQueue N) \<and> queue_exact (m_stNetPacketSendPrepareQueue N) \<and>
     queue_exact (m_stNetPacketSendQueue N) \<and> queue_wf (m_stNetPacketSendCache N)"

abbreviation queue_view :: "CPacketMemoryPool \<Rightarrow> NetPacketQueue \<Rightarrow> packet list" where
  "queue_view P q \<equiv> map (packet_view P) (m_vecPacketPool q)"

definition queue_of :: "NetPacketBuffer list \<Rightarrow> NetPacketQueue" where
  "queue_of ks = \<lparr>m_iPacketNum = int (length ks), m_vecPacketPool = ks\<rparr>"

lemma queue_of_simps [simp]:
  "m_vecPacketPool (queue_of ks) = ks" "m_iPacketNum (queue_of ks) = int (length ks)"
  "queue_wf (queue_of ks)" "queue_wf queue_Init" "queue_exact (queue_of ks)" "queue_exact queue_Init" "m_vecPacketPool queue_Init = []" "queue_Size (queue_of ks) = int (length ks)"
  by (simp_all add: queue_of_def queue_wf_def queue_exact_def queue_Init_def queue_Size_def)

lemma CopyFrom_wf: "queue_wf q \<Longrightarrow>
    CopyFrom q r = (queue_of (m_vecPacketPool q @ m_vecPacketPool r), queue_Init,
      int (length (m_vecPacketPool q) + length (m_vecPacketPool r)))"
  by (cases "m_vecPacketPool q = []") (auto simp: CopyFrom_def queue_wf_def queue_of_def Let_def)

lemma queue_exact_wf: "queue_exact q \<Longrightarrow> queue_wf q"
  by (simp add: queue_exact_def queue_wf_def)

lemma queue_exact_add [simp]: "queue_exact q \<Longrightarrow> queue_exact (queue_add ks q)"
  by (simp add: queue_exact_def queue_add_def)

lemma net_inv_new: "pool_wf P L \<Longrightarrow> net_inv NetworkContext_new P L"
  by (simp add: net_inv_def packets_inv_def NetworkContext_new_def all_packets_def all_queues_def)

lemma packets_inv_mset: "packets_inv ks P L \<Longrightarrow> mset js = mset ks \<Longrightarrow> packets_inv js P L"
  using mset_eq_imp_distinct_iff [of "map packet_ptr js" "map packet_ptr ks"] mset_eq_setD [of js ks]
  by (simp add: packets_inv_def)

lemma packets_inv_fresh:
  assumes "packets_inv ks P L" "fresh_packets P L js vs P'"
  shows "packets_inv (ks @ js) P' (L \<union> packet_ptr ` set js)" "map (packet_view P') ks = map (packet_view P) ks"
proof -
  have fr: "\<forall>k\<in>set ks. packet_ok P' k" "map (packet_view P') ks = map (packet_view P) ks"
    using packets_frame [of L P' P ks] assms by (simp_all add: packets_inv_def fresh_packets_def)
  show "map (packet_view P') ks = map (packet_view P) ks" by (rule fr)
  have "packet_ptr ` set ks \<inter> packet_ptr ` set js = {}"
    using assms by (auto simp: packets_inv_def fresh_packets_def)
  then show "packets_inv (ks @ js) P' (L \<union> packet_ptr ` set js)"
    using assms fr(1) by (auto simp: packets_inv_def fresh_packets_def)
qed

text \<open>The bytes a client buffer holds, and its well-formedness.\<close>

definition ctx_data :: "ST_ClientContextBuffer \<Rightarrow> byte list" where
  "ctx_data c = take (nat (ctx_iBufferSize c)) (m_chBuffer c)"

definition ctx_ok :: "ST_ClientContextBuffer \<Rightarrow> bool" where
  "ctx_ok c \<longleftrightarrow> 0 \<le> ctx_iBufferSize c \<and> nat (ctx_iBufferSize c) \<le> length (m_chBuffer c) \<and>
     length (m_chBuffer c) = NETWORK_PACKET_BUFFER_READ_SIZE * 10"

lemma ctx_data_length: "ctx_ok c \<Longrightarrow> int (length (ctx_data c)) = ctx_iBufferSize c"
  by (simp add: ctx_data_def ctx_ok_def)

lemma MoveBufferPtr_ok:
  assumes "ctx_ok c" "r \<le> length (ctx_data c)"
  obtains c' where "MoveBufferPtr (length (ctx_data c) - r) (int r) c = Some c'" "ctx_ok c'"
    "ctx_data c' = drop (length (ctx_data c) - r) (ctx_data c)"
    "ctx_ulClientSeq c' = ctx_ulClientSeq c" "m_iClientFd c' = m_iClientFd c" "m_chClientIP c' = m_chClientIP c"
proof (cases "r = 0")
  case True
  then show ?thesis
    using that [of "c\<lparr>m_chBuffer := replicate (length (m_chBuffer c)) 0, ctx_iBufferSize := 0\<rparr>"] assms
    by (simp add: MoveBufferPtr_def ctx_ok_def ctx_data_def)
next
  case False
  let ?n = "nat (ctx_iBufferSize c)"
  let ?src = "take r (drop (?n - r) (m_chBuffer c))"
  let ?c = "c\<lparr>m_chBuffer := ?src @ drop r (m_chBuffer c), ctx_iBufferSize := int r\<rparr>"
  have l: "length (ctx_data c) = ?n" "?n \<le> length (m_chBuffer c)"
    using assms(1) by (simp_all add: ctx_data_def ctx_ok_def)
  have "MoveBufferPtr (?n - r) (int r) c = Some ?c"
    using assms l False by (simp add: MoveBufferPtr_def mem_simps)
  moreover have "ctx_data ?c = drop (?n - r) (ctx_data c)"
    using assms l by (simp add: ctx_data_def drop_take)
  moreover have "ctx_ok ?c" using assms l by (simp add: ctx_ok_def)
  ultimately show ?thesis using that [of ?c] l by simp
qed

lemma UnpackPacketToRecvQueue_frames:
  assumes inv: "net_inv N P L" and c: "ctx_ok c" and fs: "frames_of (ctx_data c) = (fs, rest, e)"
  obtains c' N' P' L' where "UnpackPacketToRecvQueue clock (Some c) N P = Some (e, Some c', N', P')"
    "net_inv N' P' L'" "ctx_ok c'" "ctx_data c' = (if e = 0 then rest else ctx_data c)"
    "ctx_ulClientSeq c' = ctx_ulClientSeq c" "m_iClientFd c' = m_iClientFd c" "m_chClientIP c' = m_chClientIP c"
    "queue_view P' (m_stNetPacketRecvQueue N') @ queue_view P' (m_stNetPacketRecvPrepareQueue N') =
     queue_view P (m_stNetPacketRecvQueue N) @ queue_view P (m_stNetPacketRecvPrepareQueue N) @ map (recv_tag c) fs"
    "e = 0 \<Longrightarrow> m_vecPacketPool (m_stNetPacketRecvPrepareQueue N') = []"
    "m_bHasSignal (m_stSignalExec N') = (m_bHasSignal (m_stSignalExec N) \<or> (e = 0 \<and> fs \<noteq> []))"
    "N'\<lparr>m_stNetPacketRecvPrepareQueue := q1, m_stNetPacketRecvQueue := q2, m_stSignalExec := s1\<rparr> =
     N\<lparr>m_stNetPacketRecvPrepareQueue := q1, m_stNetPacketRecvQueue := q2, m_stSignalExec := s1\<rparr>"
    "L \<subseteq> L'" "\<forall>q\<in>L. pool_fetch P' q = pool_fetch P q"
proof -
  let ?d = "ctx_data c" and ?q = "m_stNetPacketRecvPrepareQueue N"
  have d: "length ?d \<le> length (m_chBuffer c)" "?d = take (length ?d) (m_chBuffer c)"
    using c by (simp_all add: ctx_data_def ctx_ok_def)
  have wf: "pool_wf P L" using inv by (simp add: net_inv_def packets_inv_def)
  obtain ks P' where u: "unpack_loop clock c 0 (int (length ?d)) 0 ?q P =
      Some (e, length ?d - length rest, int (length rest), length fs, queue_add ks ?q, P')"
    and fresh: "fresh_packets P L ks (map (recv_tag c) fs) P'"
    and rest: "length rest \<le> length ?d" "rest = drop (length ?d - length rest) ?d"
    using unpack_loop_frames [OF wf, of 0 ?d c fs rest e clock 0 ?q] d fs
    by auto
  have ksv: "map (packet_view P') ks = map (recv_tag c) fs" using fresh by (simp add: fresh_packets_def)
  have fr: "\<forall>q\<in>L. pool_fetch P' q = pool_fetch P q" using fresh by (simp add: fresh_packets_def)
  let ?N1 = "N\<lparr>m_stNetPacketRecvPrepareQueue := queue_add ks ?q\<rparr>"
  let ?N2 = "N\<lparr>m_stNetPacketRecvPrepareQueue := queue_Init,
      m_stNetPacketRecvQueue := queue_of (m_vecPacketPool (m_stNetPacketRecvQueue N) @ m_vecPacketPool ?q @ ks)\<rparr>"
  let ?L = "L \<union> packet_ptr ` set ks"
  have "packets_inv (all_packets N) P L" using inv by (simp add: net_inv_def)
  note all = packets_inv_fresh(1) [OF this fresh] and v = packets_inv_fresh(2) [OF this fresh]
  have vq: "queue_view P' (m_stNetPacketRecvQueue N) = queue_view P (m_stNetPacketRecvQueue N)"
      "queue_view P' ?q = queue_view P ?q"
    using v by (simp_all add: all_packets_def all_queues_def)
  have inv1: "net_inv ?N1 P' ?L"
    using inv packets_inv_mset [OF all, of "all_packets ?N1"]
    by (simp add: net_inv_def all_packets_def all_queues_def)
  have inv2: "net_inv ?N2 P' ?L"
    using inv packets_inv_mset [OF all, of "all_packets ?N2"]
    by (simp add: net_inv_def all_packets_def all_queues_def)
  note u' = u [unfolded ctx_data_length [OF c]]
  show ?thesis
  proof (cases "e = 0")
    case False
    then show ?thesis
      using that [of c ?N1 P' ?L] u' inv1 c vq ksv fr False
      by (simp add: UnpackPacketToRecvQueue_def)
  next
    case True
    obtain c' where c': "MoveBufferPtr (length ?d - length rest) (int (length rest)) c = Some c'" "ctx_ok c'"
        "ctx_data c' = drop (length ?d - length rest) ?d" "ctx_ulClientSeq c' = ctx_ulClientSeq c"
        "m_iClientFd c' = m_iClientFd c" "m_chClientIP c' = m_chClientIP c"
      using MoveBufferPtr_ok [OF c rest(1)] .
    have prep: "snd (PacketRecvPrepare ?N1) = ?N2"
      using inv CopyFrom_wf [OF queue_exact_wf, of "m_stNetPacketRecvQueue N" "queue_add ks ?q"]
      by (simp add: PacketRecvPrepare_def net_inv_def)
    let ?N3 = "if length fs > 0 then ?N2\<lparr>m_stSignalExec := Emit (m_stSignalExec ?N2)\<rparr> else ?N2"
    have "UnpackPacketToRecvQueue clock (Some c) N P = Some (e, Some c', ?N3, P')"
      using True u' c'(1) prep by (simp add: UnpackPacketToRecvQueue_def)
    moreover have "net_inv ?N3 P' ?L"
      using inv2 by (simp add: net_inv_def all_packets_def all_queues_def)
    ultimately show ?thesis
      using that [of c' ?N3 P' ?L] c' rest(2) True vq ksv fr by (simp add: Emit_def)
  qed
qed

text \<open>
  C5. The receive loop is the wire format: with any valid client buffer, whatever bytes it holds,
  \<open>UnpackPacketToRecvQueue\<close> returns the status of the reference parser \<open>frames_of\<close>, hands exactly
  the parsed frames, in order and with the client's identity, to the receive queues behind what
  was there, keeps exactly the unparsed bytes in the buffer (all of them on an error), raises the
  signal when packets were delivered, reads and writes only inside the buffer, and preserves the
  invariant of the queues and of the packet pool.
\<close>

theorem unpack_is_wire_format:
  assumes "net_inv N P L" and "ctx_ok c" and "frames_of (ctx_data c) = (fs, rest, e)"
  shows "\<exists>c' N' P' L'. UnpackPacketToRecvQueue clock (Some c) N P = Some (e, Some c', N', P') \<and>
    net_inv N' P' L' \<and> ctx_ok c' \<and> ctx_data c' = (if e = 0 then rest else ctx_data c) \<and>
    queue_view P' (m_stNetPacketRecvQueue N') @ queue_view P' (m_stNetPacketRecvPrepareQueue N') =
      queue_view P (m_stNetPacketRecvQueue N) @ queue_view P (m_stNetPacketRecvPrepareQueue N) @
      map (\<lambda>(pno, body). (ctx_ulClientSeq c, m_iClientFd c, pno, body)) fs \<and>
    m_bHasSignal (m_stSignalExec N') = (m_bHasSignal (m_stSignalExec N) \<or> (e = 0 \<and> fs \<noteq> []))"
proof -
  have tag: "recv_tag c = (\<lambda>(pno, body). (ctx_ulClientSeq c, m_iClientFd c, pno, body))"
    by (auto simp: recv_tag_def fun_eq_iff)
  show ?thesis
  proof (rule UnpackPacketToRecvQueue_frames [OF assms, where clock = clock])
    fix c' N' P' L'
    assume "UnpackPacketToRecvQueue clock (Some c) N P = Some (e, Some c', N', P')" "net_inv N' P' L'" "ctx_ok c'"
      "ctx_data c' = (if e = 0 then rest else ctx_data c)"
      "queue_view P' (m_stNetPacketRecvQueue N') @ queue_view P' (m_stNetPacketRecvPrepareQueue N') =
       queue_view P (m_stNetPacketRecvQueue N) @ queue_view P (m_stNetPacketRecvPrepareQueue N) @ map (recv_tag c) fs"
      "m_bHasSignal (m_stSignalExec N') = (m_bHasSignal (m_stSignalExec N) \<or> (e = 0 \<and> fs \<noteq> []))"
    then show ?thesis unfolding tag by (intro exI conjI)
  qed
qed

theorem unpack_is_wire_format_witness:
  "\<exists>c' N' P' L'. UnpackPacketToRecvQueue (\<lambda>_. 0)
      (Some (context_construct\<lparr>m_iClientFd := 5, m_chBuffer := encode_frame (1, [9, 8]) @ [0] @ replicate 102393 0,
        ctx_iBufferSize := 7\<rparr>)) NetworkContext_new CPacketMemoryPool_new = Some (0, Some c', N', P') \<and>
    net_inv N' P' L' \<and> ctx_data c' = [0] \<and>
    queue_view P' (m_stNetPacketRecvQueue N') @ queue_view P' (m_stNetPacketRecvPrepareQueue N') = [(0, 5, 1, [9, 8])] \<and>
    m_bHasSignal (m_stSignalExec N')"
proof -
  let ?c = "context_construct\<lparr>m_iClientFd := 5, m_chBuffer := encode_frame (1, [9, 8]) @ [0] @ replicate 102393 0,
        ctx_iBufferSize := 7\<rparr>"
  have "ctx_ok ?c" by (simp add: ctx_ok_def NETWORK_PACKET_BUFFER_READ_SIZE_def)
  moreover have d: "ctx_data ?c = encode_frame (1, [9, 8]) @ [0]" by (simp add: ctx_data_def)
  moreover have "frames_of [0] = ([], [0], 0)" by (rule frames_of_wait) (simp add: frame_head_def)
  then have "frames_of (encode_frame (1, [9, 8]) @ [0]) = ([(1, [9, 8])], [0], 0)"
    using frames_of_encode [of "(1, [9, 8])" "[0]"] by (simp add: frame_ok_def)
  moreover have "net_inv NetworkContext_new CPacketMemoryPool_new {}"
    by (rule net_inv_new [OF pool_wf_new])
  moreover have "m_vecPacketPool (m_stNetPacketRecvQueue NetworkContext_new) = []"
      "m_vecPacketPool (m_stNetPacketRecvPrepareQueue NetworkContext_new) = []"
    by (simp_all add: NetworkContext_new_def)
  moreover have "ctx_ulClientSeq ?c = 0" "m_iClientFd ?c = 5" by (simp_all add: context_construct_def)
  ultimately show ?thesis
    using unpack_is_wire_format [of NetworkContext_new CPacketMemoryPool_new "{}" ?c "[(1, [9, 8])]" "[0]" 0 "\<lambda>_. 0"]
    by (simp only: d) auto
qed

section \<open>The send side\<close>

definition sent_frame :: "u64 \<Rightarrow> packet \<Rightarrow> int \<times> byte list" where
  "sent_frame now v = (case v of (seq, fd, pno, body) \<Rightarrow> (fd, encode_frame (pno, body @ be_bytes now)))"

lemma PacketBufferSend_frame:
  assumes "packet_ok P k"
  shows "PacketBufferSend now P k = Some (sent_frame now (packet_view P k))"
proof -
  obtain p b where k: "m_pstMemory k = Some p" "pool_fetch P p = Some b" "nat (m_iBufferSize k) \<le> length b"
      "0 \<le> m_iBufferSize k"
    using assms by (auto simp: packet_ok_def packet_ptr_def)
  let ?n = "nat (m_iBufferSize k)"
  have get: "packet_GetBuffer P k = Some b"
    using k by (auto simp: packet_GetBuffer_def pool_fetch_def)
  have total: "nat (NETWORK_PACKET_HEADER_SIZE + m_iBufferSize k + NETWORK_PACKET_TAIL_SIZE) = 12 + ?n"
      "nat (NETWORK_PACKET_HEADER_SIZE + m_iBufferSize k) = 4 + ?n" "nat NETWORK_PACKET_HEADER_SIZE = 4"
      "nat NETWORK_PACKET_TAIL_SIZE = 8"
    using k(4) by (simp_all add: packet_consts nat_add_distrib)
  have len: "(word_of_int (m_iBufferSize k + 12) :: u16) = of_nat (length (take ?n b @ be_bytes now) + 4)"
  proof -
    have "m_iBufferSize k + 12 = int (length (take ?n b @ be_bytes now) + 4)" using k by simp
    then show ?thesis by (metis of_int_of_nat_eq)
  qed
  have view: "packet_view P k = (m_ulClientSeq k, m_iSockFd k, m_iProtoNo k, take ?n b)"
    using k by (simp add: packet_view_def packet_ptr_def)
  let ?h = "be_bytes (of_nat (length (take ?n b @ be_bytes now) + 4) :: u16) @ be_bytes (word_of_int (m_iProtoNo k) :: u16)"
  have head: "PrepareHeader k (replicate 4 0) = Some ?h"
    unfolding len [symmetric] by (rule PrepareHeader_bytes) simp
  have "length ?h = 4" by simp
  then show ?thesis
    unfolding PacketBufferSend_def Let_def total view sent_frame_def encode_frame_def head
    using get k by (simp add: PrepareTail_bytes mem_simps)
qed

primrec sent_frames :: "(nat \<Rightarrow> u64) \<Rightarrow> nat \<Rightarrow> packet list \<Rightarrow> (int \<times> byte list) list" where
  "sent_frames clock i [] = []"
| "sent_frames clock i (v # vs) = sent_frame (clock i) v # sent_frames clock (Suc i) vs"

lemma send_packets_frames:
  "\<forall>k\<in>set ks. packet_ok P k \<Longrightarrow>
   send_packets hc clock i P ks = Some (sent_frames clock i (map (packet_view P) (filter hc ks)))"
  by (induction ks arbitrary: i) (auto simp: PacketBufferSend_frame)

lemma release_packets_discard:
  "\<forall>k\<in>set ks. m_pstMemory k \<noteq> None \<Longrightarrow> release_packets ks P = pool.discard_all (map packet_ptr ks) P"
proof (induction ks arbitrary: P)
  case Nil
  then show ?case by simp
next
  case (Cons k ks)
  then have "release_packets ks = pool.discard_all (map packet_ptr ks)" by auto
  then show ?case using Cons.prems by (auto simp: ReleaseMemory_def packet_ptr_def [of k])
qed

lemma release_packets_ok:
  assumes "packets_inv (ks @ js) P L"
  obtains P' where "release_packets ks P = Some P'" "packets_inv js P' (L - packet_ptr ` set ks)"
    "map (packet_view P') js = map (packet_view P) js"
    "\<forall>q\<in>L - packet_ptr ` set ks. pool_fetch P' q = pool_fetch P q"
proof -
  have ks: "\<forall>k\<in>set ks. m_pstMemory k \<noteq> None" "distinct (map packet_ptr ks)" "set (map packet_ptr ks) \<subseteq> L" "pool_wf P L"
    using assms by (auto simp: packets_inv_def packet_ok_def)
  obtain P' where P': "release_packets ks P = Some P'" "pool_wf P' (L - packet_ptr ` set ks)"
      "\<forall>q\<in>L - packet_ptr ` set ks. pool_fetch P' q = pool_fetch P q"
    using pool.discard_all_held [OF ks(4,2,3)] release_packets_discard [OF ks(1)] by auto
  have js: "packet_ptr ` set js \<subseteq> L - packet_ptr ` set ks"
    using assms by (auto simp: packets_inv_def)
  show ?thesis
    using that [of P'] P' packets_frame [OF P'(3) js] js assms by (simp add: packets_inv_def)
qed

lemma send_all_loop_sends:
  assumes inv: "net_inv N P L" and empty: "m_vecPacketPool (m_stNetPacketSendQueue N) = []"
  obtains P' where "send_all_loop hc clock i N P = Some (0,
      sent_frames clock i (map (packet_view P) (filter hc (m_vecPacketPool (m_stNetPacketSendCache N)))),
      N\<lparr>m_stNetPacketSendQueue := queue_Init, m_stNetPacketSendCache := queue_of []\<rparr>, P')"
    "net_inv (N\<lparr>m_stNetPacketSendQueue := queue_Init, m_stNetPacketSendCache := queue_of []\<rparr>) P'
       (L - packet_ptr ` set (m_vecPacketPool (m_stNetPacketSendCache N)))"
    "\<forall>q\<in>L - packet_ptr ` set (m_vecPacketPool (m_stNetPacketSendCache N)). pool_fetch P' q = pool_fetch P q"
proof -
  let ?ks = "m_vecPacketPool (m_stNetPacketSendCache N)"
  let ?N = "N\<lparr>m_stNetPacketSendQueue := queue_Init, m_stNetPacketSendCache := queue_of []\<rparr>"
  have all: "packets_inv (all_packets N) P L" using inv by (simp add: net_inv_def)
  have "packets_inv (?ks @ all_packets ?N) P L"
    by (rule packets_inv_mset [OF all]) (use empty in \<open>simp add: all_packets_def all_queues_def\<close>)
  then obtain P' where P': "release_packets ?ks P = Some P'" "packets_inv (all_packets ?N) P' (L - packet_ptr ` set ?ks)"
      "\<forall>q\<in>L - packet_ptr ` set ?ks. pool_fetch P' q = pool_fetch P q"
    by (rule release_packets_ok)
  have ok: "\<forall>k\<in>set ?ks. packet_ok P k"
    using all by (auto simp: packets_inv_def all_packets_def all_queues_def)
  let ?c = "(m_stNetPacketSendCache N)\<lparr>m_vecPacketPool := []\<rparr>"
  have "queue_wf ?c" using inv by (simp add: net_inv_def queue_wf_def)
  then have "PacketSendPrepareCache (N\<lparr>m_stNetPacketSendCache := ?c\<rparr>) = (0, ?N)"
    using CopyFrom_wf [of ?c "m_stNetPacketSendQueue N"] empty by (simp add: PacketSendPrepareCache_def)
  then have "send_all_loop hc clock i N P =
      Some (0, sent_frames clock i (map (packet_view P) (filter hc ?ks)), ?N, P')"
    using P'(1) send_packets_frames [OF ok, of hc clock i]
    by (subst send_all_loop.simps) (simp add: ReleaseAllPackets_def)
  moreover have "net_inv ?N P' (L - packet_ptr ` set ?ks)"
    using inv P'(2) by (simp add: net_inv_def)
  ultimately show ?thesis using that P'(3) by blast
qed

text \<open>
  C14. Sending: from any state that satisfies the invariant, \<open>ExecuteCmdSendAllPacket\<close> of the
  server terminates and writes, for the packets of the send cache followed by those of the send
  queue, in order and skipping those whose client is not in the client pool, one frame each to the
  packet's socket: length, protocol number, body and the time stamp of the tail. Afterwards both
  queues are empty, the memory of every one of these packets has gone back to the pool, and the
  invariant holds.
\<close>

theorem send_all_sends_queued:
  assumes "net_inv N P L"
  shows "\<exists>N' P'. server_ExecuteCmdSendAllPacket cp clock N P = Some (0,
      sent_frames clock 0 (map (packet_view P) (filter (\<lambda>k. GetClient (m_ulClientSeq k) cp \<noteq> None)
        (m_vecPacketPool (m_stNetPacketSendCache N) @ m_vecPacketPool (m_stNetPacketSendQueue N)))), N', P') \<and>
    N' = N\<lparr>m_stNetPacketSendQueue := queue_Init, m_stNetPacketSendCache := queue_Init\<rparr> \<and>
    net_inv N' P' (L - packet_ptr ` set (m_vecPacketPool (m_stNetPacketSendCache N) @
      m_vecPacketPool (m_stNetPacketSendQueue N)))"
proof -
  let ?ks = "m_vecPacketPool (m_stNetPacketSendCache N) @ m_vecPacketPool (m_stNetPacketSendQueue N)"
  let ?N = "N\<lparr>m_stNetPacketSendCache := queue_of ?ks, m_stNetPacketSendQueue := queue_Init\<rparr>"
  have pre: "snd (PacketSendPrepareCache N) = ?N"
    using assms CopyFrom_wf [of "m_stNetPacketSendCache N" "m_stNetPacketSendQueue N"]
    by (simp add: PacketSendPrepareCache_def net_inv_def)
  have "packets_inv (all_packets ?N) P L"
    by (rule packets_inv_mset [of "all_packets N"])
       (use assms in \<open>simp_all add: net_inv_def all_packets_def all_queues_def\<close>)
  then have inv: "net_inv ?N P L" using assms by (simp add: net_inv_def)
  have e: "queue_of [] = queue_Init" by (simp add: queue_of_def queue_Init_def)
  show ?thesis
  proof (rule send_all_loop_sends [OF inv, where hc = "\<lambda>k. GetClient (m_ulClientSeq k) cp \<noteq> None" and clock = clock and i = 0])
    show "m_vecPacketPool (m_stNetPacketSendQueue ?N) = []" by simp
  qed (simp add: server_ExecuteCmdSendAllPacket_def pre e)
qed

theorem send_all_sends_queued_witness:
  "\<exists>N P. server_ExecuteCmdSendAllPacket \<lparr>m_stClientSeqPool = [7 \<mapsto> ()], m_stClientFdPool = [5 \<mapsto> ()]\<rparr> (\<lambda>_. 1)
     NetworkContext_new CPacketMemoryPool_new = Some (0, [], N, P) \<and> N = NetworkContext_new \<and> net_inv N P {} \<and>
   (\<exists>k N1 P1 N2 P2. m_vecPacketPool (m_stNetPacketSendQueue N1) = [k] \<and> packet_view P1 k = (7, 5, 1, [9]) \<and>
     server_ExecuteCmdSendAllPacket \<lparr>m_stClientSeqPool = [7 \<mapsto> ()], m_stClientFdPool = [5 \<mapsto> ()]\<rparr> (\<lambda>_. 1) N1 P1 =
       Some (0, [(5, encode_frame (1, [9, 0, 0, 0, 0, 0, 0, 0, 1]))], N2, P2) \<and> net_inv N2 P2 {})"
proof -
  let ?cp = "\<lparr>m_stClientSeqPool = [7 \<mapsto> ()], m_stClientFdPool = [5 \<mapsto> ()]\<rparr>"
  have inv0: "net_inv NetworkContext_new CPacketMemoryPool_new {}"
    by (rule net_inv_new [OF pool_wf_new])
  obtain N P where 0: "server_ExecuteCmdSendAllPacket ?cp (\<lambda>_. 1) NetworkContext_new CPacketMemoryPool_new =
      Some (0, [], N, P)" "N = NetworkContext_new" "net_inv N P {}"
    using send_all_sends_queued [OF inv0, of ?cp "\<lambda>_. 1"] by (auto simp: NetworkContext_new_def)
  have n: "0 \<le> (1 :: int)" "1 \<le> NETWORK_PACKET_BUFFER_MAX_SIZE" "nat 1 \<le> length [9 :: byte]"
    by (simp_all add: NETWORK_PACKET_BUFFER_MAX_SIZE_def)
  obtain k P1 where k: "AddPacket 0 7 5 1 1 [9] queue_Init CPacketMemoryPool_new = Some (queue_add [k] queue_Init, P1)"
      "packet_ptr k \<notin> {}" "pool_wf P1 (insert (packet_ptr k) {})" "packet_ok P1 k"
      "packet_view P1 k = (7, 5, 1, take (nat 1) [9])" "\<forall>q\<in>{}. pool_fetch P1 q = pool_fetch CPacketMemoryPool_new q"
    by (rule AddPacket_ok [OF pool_wf_new n])
  let ?N = "NetworkContext_new\<lparr>m_stNetPacketSendQueue := queue_of [k]\<rparr>"
  have inv1: "net_inv ?N P1 {packet_ptr k}"
    using k by (simp add: net_inv_def packets_inv_def all_packets_def all_queues_def NetworkContext_new_def)
  have seq: "m_ulClientSeq k = 7" using k(5) by (simp add: packet_view_def)
  have ts: "be_bytes (1 :: u64) = [0, 0, 0, 0, 0, 0, 0, 1]" by code_simp
  obtain N2 P2 where 1: "server_ExecuteCmdSendAllPacket ?cp (\<lambda>_. 1) ?N P1 =
      Some (0, [(5, encode_frame (1, [9, 0, 0, 0, 0, 0, 0, 0, 1]))], N2, P2)" "net_inv N2 P2 {}"
    using send_all_sends_queued [OF inv1, of ?cp "\<lambda>_. 1"] k(5) seq ts
    by (auto simp: NetworkContext_new_def GetClient_def sent_frame_def)
  have "m_vecPacketPool (m_stNetPacketSendQueue ?N) = [k]" by simp
  moreover have "packet_view P1 k = (7, 5, 1, [9])" using k(5) by simp
  ultimately show ?thesis using 0 1 by blast
qed

end
