(* ===== verification/Uuid.thy ===== *)
theory Uuid
  imports Prelude
begin

unbundle bit_operations_syntax

text \<open>
  Unique ids, \<open>common/utils/uuid.h\<close>: a snowflake generator over a microsecond clock. The clock is
  a parameter, the list of the readings \<open>GetMicroSecond\<close> gives one after the other; \<open>None\<close> means
  that the generator still waits for the clock when the readings end.
\<close>

section \<open>The generator\<close>

record SnowFlakeUUID =
  m_dwHostID :: u32
  m_dwGameSvrID :: u32
  m_ulSequenceID :: u64
  m_ulLastTimestamp :: u64

definition SnowFlakeUUID_Init :: "u32 \<Rightarrow> u32 \<Rightarrow> SnowFlakeUUID \<Rightarrow> SnowFlakeUUID" where
  "SnowFlakeUUID_Init dwHostID dwGameSvrID u = u\<lparr>m_dwHostID := dwHostID, m_dwGameSvrID := dwGameSvrID\<rparr>"

fun WaitNextTimestamp :: "u64 \<Rightarrow> u64 list \<Rightarrow> (u64 \<times> u64 list) option" where
  "WaitNextTimestamp ulLastTimestamp [] = None"
| "WaitNextTimestamp ulLastTimestamp (ulNowTimestamp # clock) =
     (if ulNowTimestamp \<le> ulLastTimestamp then WaitNextTimestamp ulLastTimestamp clock
      else Some (ulNowTimestamp, clock))"

definition uuid_value :: "u64 \<Rightarrow> u32 \<Rightarrow> u32 \<Rightarrow> u64 \<Rightarrow> u64" where
  "uuid_value ulNowTimestamp dwHostID dwGameSvrID ulSequenceID =
     push_bit 22 (ulNowTimestamp AND 0x1FFFFFF) OR
     ucast (push_bit 17 (dwHostID AND 0x1F)) OR
     ucast (push_bit 12 (dwGameSvrID AND 0x1F)) OR
     (ulSequenceID AND 0xFFF)"

definition GenerateSeqID :: "SnowFlakeUUID \<Rightarrow> u64 list \<Rightarrow> (u64 \<times> SnowFlakeUUID \<times> u64 list) option" where
  "GenerateSeqID u clock = (case clock of
     [] \<Rightarrow> None
   | ulNowTimestamp # clock \<Rightarrow> do {
       (ulSequenceID, ulNowTimestamp, clock) \<leftarrow>
         (if m_ulLastTimestamp u = ulNowTimestamp then
            let s = (m_ulSequenceID u + 1) AND 0xFFF in
            (if s = 0 then do {
               (t, clock) \<leftarrow> WaitNextTimestamp (m_ulLastTimestamp u) clock;
               Some (s, t, clock)
             }
             else Some (s, ulNowTimestamp, clock))
          else Some (0, ulNowTimestamp, clock));
       let u = u\<lparr>m_ulSequenceID := ulSequenceID, m_ulLastTimestamp := ulNowTimestamp\<rparr>;
       Some (uuid_value ulNowTimestamp (m_dwHostID u) (m_dwGameSvrID u) ulSequenceID, u, clock)
     })"

fun GenerateSeqIDs :: "nat \<Rightarrow> SnowFlakeUUID \<Rightarrow> u64 list \<Rightarrow> (u64 list \<times> SnowFlakeUUID \<times> u64 list) option" where
  "GenerateSeqIDs 0 u clock = Some ([], u, clock)"
| "GenerateSeqIDs (Suc n) u clock = do {
     (x, u, clock) \<leftarrow> GenerateSeqID u clock;
     (xs, u, clock) \<leftarrow> GenerateSeqIDs n u clock;
     Some (x # xs, u, clock)
   }"

section \<open>Ids are distinct\<close>

definition uuid_time :: "u64 \<Rightarrow> u64" where
  "uuid_time x = drop_bit 22 x"

lemma uuid_value_seq: "uuid_value t h g s AND 0xFFF = s AND 0xFFF"
proof (rule bit_word_eqI)
  fix n assume "n < LENGTH(64)"
  have m: "(0xFFF :: u64) = mask 12" by (simp add: mask_eq_exp_minus_1)
  show "bit (uuid_value t h g s AND 0xFFF) n = bit (s AND 0xFFF) n"
    unfolding uuid_value_def m by (auto simp: bit_simps)
qed

lemma uuid_value_time: "uuid_time (uuid_value t h g s) = t AND mask 25"
proof (rule bit_word_eqI)
  fix n assume n: "n < LENGTH(64)"
  have m: "(0x1FFFFFF :: u64) = mask 25" "(0x1F :: u32) = mask 5" "(0xFFF :: u64) = mask 12"
    by (simp_all add: mask_eq_exp_minus_1)
  show "bit (uuid_time (uuid_value t h g s)) n = bit (t AND mask 25) n"
    using n unfolding uuid_time_def uuid_value_def m by (auto simp: bit_simps)
qed

lemma mod_window:
  assumes "a mod m = b mod m" "a < t + m" "b < t + m" "t \<le> a" "t \<le> b"
  shows "a = (b :: nat)"
proof -
  have "a = b" if "a \<le> b" "a mod m = b mod m" "b < t + m" "t \<le> a" for a b :: nat
  proof -
    have "m dvd b - a" using that by (metis mod_eq_dvd_iff_nat)
    moreover have "b - a < m" using that by linarith
    ultimately show ?thesis using that(1) nat_dvd_not_less by fastforce
  qed
  from this [of a b] this [of b a] show ?thesis using assms by (cases "a \<le> b") auto
qed

lemma uuid_value_inj:
  assumes "uuid_value t h g s = uuid_value t' h g s'" "s \<le> 0xFFF" "s' \<le> 0xFFF"
    "unat t0 \<le> unat t" "unat t0 \<le> unat t'" "unat t < unat t0 + 2 ^ 25" "unat t' < unat t0 + 2 ^ 25"
  shows "t = t' \<and> s = s'"
proof
  have m: "x AND 0xFFF = x" if "x \<le> 0xFFF" for x :: u64
  proof -
    have "(0xFFF :: u64) = mask 12" by (simp add: mask_eq_exp_minus_1)
    moreover have "unat x < 2 ^ 12" using that by (simp add: word_le_nat_alt)
    ultimately show ?thesis
      by (metis unat_and_mask mod_less word_unat_eq_iff)
  qed
  show "s = s'" using assms(1-3) uuid_value_seq m by metis
  have "t AND mask 25 = t' AND mask 25" using assms(1) uuid_value_time by metis
  then have "unat t mod 2 ^ 25 = unat t' mod 2 ^ 25" by (metis unat_and_mask)
  then have "unat t = unat t'" using mod_window assms(4-7) by blast
  then show "t = t'" by (simp add: word_unat_eq_iff)
qed


text \<open>The pairs of time stamp and sequence number behind the ids of a run increase strictly.\<close>

definition uuid_clock_ok :: "SnowFlakeUUID \<Rightarrow> u64 list \<Rightarrow> bool" where
  "uuid_clock_ok u clock \<longleftrightarrow> sorted (m_ulLastTimestamp u # clock) \<and> m_ulSequenceID u \<le> 0xFFF"

lemma WaitNextTimestamp_later:
  "WaitNextTimestamp l clock = Some (t, clock') \<Longrightarrow> sorted clock \<Longrightarrow>
   l < t \<and> sorted (t # clock') \<and> t \<in> set clock \<and> set clock' \<subseteq> set clock"
  by (induction clock) (auto split: if_splits)

lemma seq_mask_le: "(x AND 0xFFF :: u64) \<le> 0xFFF"
  by (rule word_and_le1)

lemma seq_mask: "(0xFFF :: u64) = mask 12"
  by (simp add: mask_eq_exp_minus_1)

lemma seq_mask_Suc:
  assumes "s \<le> 0xFFF" "(s + 1) AND 0xFFF \<noteq> 0"
  shows "s < (s + 1) AND (0xFFF :: u64)"
proof -
  have s: "unat s \<le> 4095" using assms(1) by (simp add: word_le_nat_alt)
  then have u: "unat (s + 1) = unat s + 1" by (simp add: unat_word_ariths)
  have "unat s \<noteq> 4095" using assms(2) u unfolding seq_mask by (auto simp: word_unat_eq_iff unat_and_mask)
  then have "unat ((s + 1) AND 0xFFF) = unat s + 1"
    using s u unfolding seq_mask by (simp add: unat_and_mask)
  then show ?thesis by (simp add: word_less_nat_alt)
qed

lemma GenerateSeqID_step:
  assumes "GenerateSeqID u clock = Some (x, u', clock')" "uuid_clock_ok u clock"
  shows "uuid_clock_ok u' clock' \<and> set clock' \<subseteq> set clock \<and> m_ulLastTimestamp u' \<in> set clock \<and>
    (m_ulLastTimestamp u < m_ulLastTimestamp u' \<or>
     m_ulLastTimestamp u = m_ulLastTimestamp u' \<and> m_ulSequenceID u < m_ulSequenceID u') \<and>
    x = uuid_value (m_ulLastTimestamp u') (m_dwHostID u) (m_dwGameSvrID u) (m_ulSequenceID u') \<and>
    m_dwHostID u' = m_dwHostID u \<and> m_dwGameSvrID u' = m_dwGameSvrID u"
proof -
  obtain t c where c: "clock = t # c" using assms(1) by (cases clock) (auto simp: GenerateSeqID_def)
  have t: "m_ulLastTimestamp u \<le> t" "sorted (t # c)" "m_ulSequenceID u \<le> 0xFFF"
    using assms(2) c by (auto simp: uuid_clock_ok_def)
  consider "m_ulLastTimestamp u < t" | "m_ulLastTimestamp u = t" "(m_ulSequenceID u + 1) AND 0xFFF = 0"
    | "m_ulLastTimestamp u = t" "(m_ulSequenceID u + 1) AND 0xFFF \<noteq> 0"
    using t(1) by fastforce
  then show ?thesis
  proof cases
    case 1
    then have "m_ulLastTimestamp u \<noteq> t" by simp
    then show ?thesis using 1 assms(1) c t by (auto simp: GenerateSeqID_def uuid_clock_ok_def)
  next
    case 2
    then show ?thesis
      using assms(1) c t WaitNextTimestamp_later [of t c]
      by (fastforce simp: GenerateSeqID_def uuid_clock_ok_def bind_eq_Some_conv)
  next
    case 3
    then show ?thesis
      using assms(1) c t seq_mask_Suc [OF t(3)] seq_mask_le [of "m_ulSequenceID u + 1"]
      by (auto simp: GenerateSeqID_def uuid_clock_ok_def Let_def)
  qed
qed

lemma GenerateSeqIDs_pairs:
  assumes "GenerateSeqIDs n u clock = Some (xs, u', clock')" "uuid_clock_ok u clock"
  shows "\<exists>ps. xs = map (\<lambda>(t, s). uuid_value t (m_dwHostID u) (m_dwGameSvrID u) s) ps \<and> length ps = n \<and>
    distinct ps \<and> (\<forall>(t, s)\<in>set ps. t \<in> set clock \<and> s \<le> 0xFFF \<and>
      (m_ulLastTimestamp u < t \<or> m_ulLastTimestamp u = t \<and> m_ulSequenceID u < s))"
  using assms
proof (induction n arbitrary: u clock xs)
  case 0
  then show ?case by simp
next
  case (Suc n)
  obtain x u1 c1 ys where g: "GenerateSeqID u clock = Some (x, u1, c1)" "GenerateSeqIDs n u1 c1 = Some (ys, u', clock')"
      "xs = x # ys"
    using Suc.prems(1) by (auto simp: bind_eq_Some_conv)
  note st = GenerateSeqID_step [OF g(1) Suc.prems(2)]
  obtain ps where ps: "ys = map (\<lambda>(t, s). uuid_value t (m_dwHostID u1) (m_dwGameSvrID u1) s) ps" "length ps = n"
      "distinct ps" "\<forall>(t, s)\<in>set ps. t \<in> set c1 \<and> s \<le> 0xFFF \<and>
      (m_ulLastTimestamp u1 < t \<or> m_ulLastTimestamp u1 = t \<and> m_ulSequenceID u1 < s)"
    using Suc.IH [OF g(2)] st by blast
  let ?p = "(m_ulLastTimestamp u1, m_ulSequenceID u1)"
  have "?p \<notin> set ps" using ps(4) by auto
  moreover have "m_ulSequenceID u1 \<le> 0xFFF" using st by (simp add: uuid_clock_ok_def)
  moreover have "\<forall>(t, s)\<in>set ps. t \<in> set clock \<and> s \<le> 0xFFF \<and>
      (m_ulLastTimestamp u < t \<or> m_ulLastTimestamp u = t \<and> m_ulSequenceID u < s)"
    using ps(4) st by fastforce
  ultimately show ?case
    using g(3) ps st by (intro exI [of _ "?p # ps"]) simp
qed

text \<open>
  C30. Ids are unique within a window of the clock: as long as the microsecond clock does not run
  backwards and the readings stay within $2^{25}$ microseconds of the first, any number of ids
  generated one after the other are pairwise distinct, also when more than 4096 are asked for in
  one microsecond.
\<close>

theorem uuid_distinct:
  assumes "GenerateSeqIDs n u clock = Some (xs, u', clock')"
    and "sorted (m_ulLastTimestamp u # clock)" and "m_ulSequenceID u \<le> 0xFFF"
    and "\<forall>t\<in>set clock. unat t < unat (hd clock) + 2 ^ 25"
  shows "distinct xs \<and> length xs = n"
proof -
  obtain ps where ps: "xs = map (\<lambda>(t, s). uuid_value t (m_dwHostID u) (m_dwGameSvrID u) s) ps" "length ps = n"
      "distinct ps" "\<forall>(t, s)\<in>set ps. t \<in> set clock \<and> s \<le> 0xFFF"
    using GenerateSeqIDs_pairs [OF assms(1)] assms(2,3) by (fastforce simp: uuid_clock_ok_def)
  have hd: "unat (hd clock) \<le> unat t" if "t \<in> set clock" for t
    using assms(2) that by (cases clock) (auto simp: word_le_nat_alt)
  have "inj_on (\<lambda>(t, s). uuid_value t (m_dwHostID u) (m_dwGameSvrID u) s) (set ps)"
  proof (rule inj_onI, clarify)
    fix t s t' s'
    assume p: "(t, s) \<in> set ps" "(t', s') \<in> set ps"
      "uuid_value t (m_dwHostID u) (m_dwGameSvrID u) s = uuid_value t' (m_dwHostID u) (m_dwGameSvrID u) s'"
    have "t \<in> set clock" "t' \<in> set clock" "s \<le> 0xFFF" "s' \<le> 0xFFF" using ps(4) p(1,2) by auto
    then show "t = t' \<and> s = s'"
      using uuid_value_inj [OF p(3), of "hd clock"] hd assms(4) by blast
  qed
  then show ?thesis using ps by (simp add: distinct_map)
qed

theorem uuid_distinct_witness:
  "\<exists>xs u' c'. GenerateSeqIDs 3 \<lparr>m_dwHostID = 1, m_dwGameSvrID = 2, m_ulSequenceID = 0xFFE, m_ulLastTimestamp = 10\<rparr>
      [10, 10, 10, 11, 11] = Some (xs, u', c') \<and> distinct xs \<and> length xs = 3"
proof -
  let ?u = "\<lparr>m_dwHostID = 1, m_dwGameSvrID = 2, m_ulSequenceID = 0xFFE, m_ulLastTimestamp = 10\<rparr>"
  have "GenerateSeqIDs 3 ?u [10, 10, 10, 11, 11] \<noteq> None" by code_simp
  then obtain xs u' c' where g: "GenerateSeqIDs 3 ?u [10, 10, 10, 11, 11] = Some (xs, u', c')" by auto
  show ?thesis using uuid_distinct [OF g] g by simp
qed

text \<open>
  The window is not larger: only 25 bits of the microsecond clock enter an id, so a generator
  gives the same id again $2^{25}$ microseconds (about 33.5 seconds) later.
\<close>

theorem uuid_repeats:
  assumes "m_ulLastTimestamp u \<noteq> t" and "m_ulLastTimestamp u \<noteq> t + 2 ^ 25"
  shows "\<exists>x u1. GenerateSeqID u [t] = Some (x, u1, []) \<and>
    (\<exists>u2. GenerateSeqID u1 [t + 2 ^ 25] = Some (x, u2, []))"
proof -
  have m: "(0x1FFFFFF :: u64) = mask 25" by (simp add: mask_eq_exp_minus_1)
  have "unat ((t + 2 ^ 25) AND mask 25) = unat (t AND mask 25)"
    by (simp add: unat_and_mask unat_word_ariths mod_mod_cancel)
  then have "(t + 2 ^ 25) AND 0x1FFFFFF = t AND 0x1FFFFFF"
    unfolding m by (simp add: word_unat_eq_iff)
  then have "uuid_value (t + 2 ^ 25) h g s = uuid_value t h g s" for h g s
    by (simp add: uuid_value_def)
  moreover have "t \<noteq> t + 2 ^ 25" by simp
  ultimately show ?thesis using assms by (simp add: GenerateSeqID_def)
qed

theorem uuid_repeats_witness:
  "\<exists>x u1 u2. GenerateSeqID \<lparr>m_dwHostID = 1, m_dwGameSvrID = 1, m_ulSequenceID = 0, m_ulLastTimestamp = 0\<rparr> [5] =
     Some (x, u1, []) \<and> GenerateSeqID u1 [5 + 2 ^ 25] = Some (x, u2, [])"
  using uuid_repeats [of "\<lparr>m_dwHostID = 1, m_dwGameSvrID = 1, m_ulSequenceID = 0, m_ulLastTimestamp = 0\<rparr>" 5]
  by auto

end
