(* ===== verification/Socket_Base.thy ===== *)
theory Socket_Base
  imports Packet
begin

unbundle bit_operations_syntax

text \<open>
  Data of the socket server (\<open>network/socket/socket_server.c\<close>, \<open>socket_server.h\<close>,
  \<open>socket_poll.h\<close>, \<open>socket_epoll.h\<close>) and the operating system around it.
  \<^item> The kernel is a parameter: \<open>w_env\<close> is the stream of its answers, one per system call, of
    which a call uses the fields that fit; the calls clip an answer to what their contract allows
    (\<open>write\<close> never accepts more than it is given), and \<open>w_trace\<close> records what was asked for.
  \<^item> A buffer handed to the server is a block of \<open>ss_heap\<close>; freeing a block twice, reading a
    freed block, a failed assertion and a loop that never ends all give \<open>None\<close>.
  \<^item> A linked list of write buffers is the sequence of its nodes. The union \<open>p\<close> of a socket is
    two fields: TCP sockets only use the size and UDP sockets only the address.
\<close>

section \<open>Constants\<close>

definition MAX_SOCKET :: nat where "MAX_SOCKET = 2 ^ 16"
definition MAX_EVENT :: nat where "MAX_EVENT = 64"
definition MIN_READ_BUFFER :: int where "MIN_READ_BUFFER = 64"
definition UDP_ADDRESS_SIZE :: nat where "UDP_ADDRESS_SIZE = 19"
definition MAX_UDP_PACKAGE :: nat where "MAX_UDP_PACKAGE = 65535"

definition SOCKET_DATA :: int where "SOCKET_DATA = 0"
definition SOCKET_CLOSE :: int where "SOCKET_CLOSE = 1"
definition SOCKET_OPEN :: int where "SOCKET_OPEN = 2"
definition SOCKET_ACCEPT :: int where "SOCKET_ACCEPT = 3"
definition SOCKET_ERROR :: int where "SOCKET_ERROR = 4"
definition SOCKET_EXIT :: int where "SOCKET_EXIT = 5"
definition SOCKET_UDP :: int where "SOCKET_UDP = 6"

lemmas socket_codes = SOCKET_DATA_def SOCKET_CLOSE_def SOCKET_OPEN_def SOCKET_ACCEPT_def
  SOCKET_ERROR_def SOCKET_EXIT_def SOCKET_UDP_def

datatype socket_type = SOCKET_TYPE_INVALID | SOCKET_TYPE_RESERVE | SOCKET_TYPE_PLISTEN
  | SOCKET_TYPE_LISTEN | SOCKET_TYPE_CONNECTING | SOCKET_TYPE_CONNECTED | SOCKET_TYPE_HALFCLOSE
  | SOCKET_TYPE_PACCEPT | SOCKET_TYPE_BIND

datatype priority = PRIORITY_HIGH | PRIORITY_LOW

datatype protocol = PROTOCOL_TCP | PROTOCOL_UDP | PROTOCOL_UDPv6

fun protocol_byte :: "protocol \<Rightarrow> byte" where
  "protocol_byte PROTOCOL_TCP = 0"
| "protocol_byte PROTOCOL_UDP = 1"
| "protocol_byte PROTOCOL_UDPv6 = 2"

definition HASH_ID :: "u32 \<Rightarrow> nat" where
  "HASH_ID i = unat i mod MAX_SOCKET"

section \<open>The operating system\<close>

datatype errno = EINTR | EAGAIN | EINPROGRESS | E_OTHER

datatype sockaddr_all = V4 u16 u32 | V6 u16 "128 word"

definition AF_INET :: int where "AF_INET = 2"
definition AF_INET6 :: int where "AF_INET6 = 10"

record addrinfo =
  ai_family :: int
  ai_addr :: sockaddr_all

record event =
  ev_s :: "nat option"
  ev_read :: bool
  ev_write :: bool

record answer =
  a_ret :: int
  a_errno :: errno
  a_val :: int
  a_data :: "byte list"
  a_addr :: sockaddr_all
  a_list :: "addrinfo list"
  a_fds :: "int \<times> int"
  a_events :: "event list"

datatype sys_call =
    Sys_Write int "byte list"
  | Sys_Sendto int "byte list" "sockaddr_all option"
  | Sys_Read int "byte list"
  | Sys_Recvfrom int "byte list"
  | Sys_Accept int
  | Sys_Socket int
  | Sys_Connect int sockaddr_all
  | Sys_Bind int sockaddr_all
  | Sys_Listen int int
  | Sys_Close int
  | Sys_Setsockopt int int int
  | Sys_Getsockopt int
  | Sys_Getpeername int
  | Sys_Getaddrinfo "byte list" int
  | Sys_Ntop sockaddr_all
  | Sys_Getfl int
  | Sys_Nonblock int
  | Sys_Epoll_Create
  | Sys_Epoll_Add int "nat option"
  | Sys_Epoll_Mod int nat bool
  | Sys_Epoll_Del int
  | Sys_Epoll_Wait "event list"
  | Sys_Select int
  | Sys_Pipe

record world =
  w_env :: "nat \<Rightarrow> answer"
  w_next :: nat
  w_trace :: "sys_call list"

definition next_answer :: "world \<Rightarrow> answer" where
  "next_answer W = w_env W (w_next W)"

definition sys_step :: "sys_call \<Rightarrow> world \<Rightarrow> world" where
  "sys_step c W = W\<lparr>w_next := Suc (w_next W), w_trace := w_trace W @ [c]\<rparr>"

definition io_count :: "int \<Rightarrow> nat \<Rightarrow> int" where
  "io_count r len = (if r < 0 then - 1 else min r (int len))"

definition sys_write :: "int \<Rightarrow> byte list \<Rightarrow> world \<Rightarrow> int \<times> errno \<times> world" where
  "sys_write fd bs W = (let n = io_count (a_ret (next_answer W)) (length bs)
     in (n, a_errno (next_answer W), sys_step (Sys_Write fd (take (nat n) bs)) W))"

definition sys_sendto :: "int \<Rightarrow> byte list \<Rightarrow> sockaddr_all option \<Rightarrow> world \<Rightarrow> int \<times> errno \<times> world" where
  "sys_sendto fd bs sa W = (let n = io_count (a_ret (next_answer W)) (length bs)
     in (n, a_errno (next_answer W), sys_step (Sys_Sendto fd (take (nat n) bs) sa) W))"

definition sys_read :: "int \<Rightarrow> nat \<Rightarrow> world \<Rightarrow> int \<times> byte list \<times> errno \<times> world" where
  "sys_read fd sz W = (let bs = take sz (a_data (next_answer W)) in
     (if a_ret (next_answer W) < 0 then (- 1, [], a_errno (next_answer W), sys_step (Sys_Read fd []) W)
      else (int (length bs), bs, a_errno (next_answer W), sys_step (Sys_Read fd bs) W)))"

definition sys_recvfrom :: "int \<Rightarrow> nat \<Rightarrow> world \<Rightarrow> int \<times> byte list \<times> sockaddr_all \<times> errno \<times> world" where
  "sys_recvfrom fd sz W = (let bs = take sz (a_data (next_answer W)) in
     (if a_ret (next_answer W) < 0 then
        (- 1, [], a_addr (next_answer W), a_errno (next_answer W), sys_step (Sys_Recvfrom fd []) W)
      else (int (length bs), bs, a_addr (next_answer W), a_errno (next_answer W), sys_step (Sys_Recvfrom fd bs) W)))"

definition sys_int :: "sys_call \<Rightarrow> world \<Rightarrow> int \<times> errno \<times> world" where
  "sys_int c W = (a_ret (next_answer W), a_errno (next_answer W), sys_step c W)"

definition sys_do :: "sys_call \<Rightarrow> world \<Rightarrow> world" where
  "sys_do c W = sys_step c W"

text \<open>\<open>inet_ntop\<close>: the text of an address, or a failure.\<close>

definition sys_ntop :: "sockaddr_all \<Rightarrow> world \<Rightarrow> byte list option \<times> world" where
  "sys_ntop sa W = (if a_ret (next_answer W) < 0 then None else Some (a_data (next_answer W)), sys_step (Sys_Ntop sa) W)"

definition sys_getaddrinfo :: "byte list \<Rightarrow> int \<Rightarrow> world \<Rightarrow> int \<times> addrinfo list \<times> world" where
  "sys_getaddrinfo host port W = (a_ret (next_answer W),
     if a_ret (next_answer W) = 0 then a_list (next_answer W) else [], sys_step (Sys_Getaddrinfo host port) W)"

section \<open>Sockets\<close>

record write_buffer =
  wb_buffer :: nat
  wb_ptr :: "nat \<times> nat"
  wb_sz :: int
  wb_userobject :: bool
  wb_udp_address :: "byte list"

record socket =
  opaque :: u64
  high :: "write_buffer list"
  low :: "write_buffer list"
  wb_size :: int
  fd :: int
  sid :: u32
  sprotocol :: protocol
  stype :: socket_type
  p_size :: int
  p_udp_address :: "byte list"

record socket_message =
  msg_id :: u32
  msg_opaque :: u64
  msg_ud :: int
  msg_data :: "byte list option"

type_synonym heap = "nat \<Rightarrow> byte list option"

record socket_object_interface =
  soi_buffer :: "nat \<Rightarrow> nat \<times> nat"
  soi_size :: "nat \<Rightarrow> int"
  soi_free :: "nat \<Rightarrow> heap \<Rightarrow> heap option"

record socket_server =
  recvctrl_fd :: int
  sendctrl_fd :: int
  checkctrl :: bool
  event_fd :: int
  alloc_id :: u32
  event_n :: int
  event_index :: int
  soi :: "socket_object_interface option"
  ev :: "event list"
  slot :: "nat \<Rightarrow> socket"
  ss_heap :: heap
  ss_world :: world

definition upd_slot :: "nat \<Rightarrow> (socket \<Rightarrow> socket) \<Rightarrow> socket_server \<Rightarrow> socket_server" where
  "upd_slot i f ss = ss\<lparr>slot := (slot ss)(i := f (slot ss i))\<rparr>"

definition upd_world :: "(world \<Rightarrow> world) \<Rightarrow> socket_server \<Rightarrow> socket_server" where
  "upd_world f ss = ss\<lparr>ss_world := f (ss_world ss)\<rparr>"

lemma upd_slot_simps [simp]:
  "slot (upd_slot i f ss) = (slot ss)(i := f (slot ss i))" "ss_heap (upd_slot i f ss) = ss_heap ss"
  "ss_world (upd_slot i f ss) = ss_world ss" "soi (upd_slot i f ss) = soi ss"
  "alloc_id (upd_slot i f ss) = alloc_id ss" "event_n (upd_slot i f ss) = event_n ss"
  "event_index (upd_slot i f ss) = event_index ss" "ev (upd_slot i f ss) = ev ss"
  "checkctrl (upd_slot i f ss) = checkctrl ss" "recvctrl_fd (upd_slot i f ss) = recvctrl_fd ss"
  "sendctrl_fd (upd_slot i f ss) = sendctrl_fd ss" "event_fd (upd_slot i f ss) = event_fd ss"
  by (simp_all add: upd_slot_def)

lemma upd_world_simps [simp]:
  "slot (upd_world f ss) = slot ss" "ss_heap (upd_world f ss) = ss_heap ss"
  "ss_world (upd_world f ss) = f (ss_world ss)" "soi (upd_world f ss) = soi ss"
  "alloc_id (upd_world f ss) = alloc_id ss" "event_n (upd_world f ss) = event_n ss"
  "event_index (upd_world f ss) = event_index ss" "ev (upd_world f ss) = ev ss"
  "checkctrl (upd_world f ss) = checkctrl ss" "recvctrl_fd (upd_world f ss) = recvctrl_fd ss"
  "sendctrl_fd (upd_world f ss) = sendctrl_fd ss" "event_fd (upd_world f ss) = event_fd ss"
  by (simp_all add: upd_world_def)

section \<open>The poll interface\<close>

definition sp_add :: "int \<Rightarrow> nat option \<Rightarrow> socket_server \<Rightarrow> int \<times> socket_server" where
  "sp_add sock ud ss = (case sys_int (Sys_Epoll_Add sock ud) (ss_world ss) of
     (r, e, W) \<Rightarrow> (if r = - 1 then 1 else 0, ss\<lparr>ss_world := W\<rparr>))"

definition sp_del :: "int \<Rightarrow> socket_server \<Rightarrow> socket_server" where
  "sp_del sock ss = upd_world (sys_do (Sys_Epoll_Del sock)) ss"

definition sp_write :: "int \<Rightarrow> nat \<Rightarrow> bool \<Rightarrow> socket_server \<Rightarrow> socket_server" where
  "sp_write sock ud enable ss = upd_world (sys_do (Sys_Epoll_Mod sock ud enable)) ss"

definition set_nonblocking :: "int \<Rightarrow> world \<Rightarrow> world" where
  "set_nonblocking f W = (case sys_int (Sys_Getfl f) W of
     (flag, e, W) \<Rightarrow> if flag = - 1 then W else sys_do (Sys_Nonblock f) W)"

definition sp_nonblocking :: "int \<Rightarrow> socket_server \<Rightarrow> socket_server" where
  "sp_nonblocking f ss = upd_world (set_nonblocking f) ss"

definition close_fd :: "int \<Rightarrow> socket_server \<Rightarrow> socket_server" where
  "close_fd f ss = upd_world (sys_do (Sys_Close f)) ss"

definition sp_wait :: "socket_server \<Rightarrow> int \<times> event list \<times> socket_server" where
  "sp_wait ss = (let a = next_answer (ss_world ss); es = take MAX_EVENT (a_events a) in
     (if a_ret a < 0 then (- 1, ev ss, upd_world (sys_do (Sys_Epoll_Wait [])) ss)
      else (int (length es), es @ drop (length es) (ev ss), upd_world (sys_do (Sys_Epoll_Wait es)) ss)))"

end
