(* ===== verification/Socket_Send.thy ===== *)
theory Socket_Send
  imports Socket_Base
begin

unbundle bit_operations_syntax

text \<open>
  The send side of a socket (\<open>socket_server.c\<close>): write buffers and their ownership, sending the
  high and low priority lists of a TCP or UDP socket, \<open>send_socket\<close>, and closing. Functions that
  take a \<open>struct socket *\<close> take its slot number; the out parameter \<open>result\<close> is passed and returned.
\<close>

section \<open>Buffers\<close>

definition free_block :: "nat \<Rightarrow> heap \<Rightarrow> heap option" where
  "free_block a h = (case h a of Some _ \<Rightarrow> Some (h(a := None)) | None \<Rightarrow> None)"

definition read_block :: "nat \<times> nat \<Rightarrow> int \<Rightarrow> heap \<Rightarrow> byte list option" where
  "read_block ptr sz h = (if sz < 0 then None else do {
     b \<leftarrow> h (fst ptr);
     mem_read b (snd ptr) (nat sz)
   })"

record send_object =
  so_userobject :: bool
  so_buffer :: "nat \<times> nat"
  so_sz :: int

definition send_object_init :: "socket_server \<Rightarrow> nat \<Rightarrow> int \<Rightarrow> send_object option" where
  "send_object_init ss object sz =
     (if sz < 0 then do {
        f \<leftarrow> soi ss;
        Some \<lparr>so_userobject = True, so_buffer = soi_buffer f object, so_sz = soi_size f object\<rparr>
      }
      else Some \<lparr>so_userobject = False, so_buffer = (object, 0), so_sz = sz\<rparr>)"

definition object_free :: "bool \<Rightarrow> nat \<Rightarrow> socket_server \<Rightarrow> socket_server option" where
  "object_free userobject object ss = do {
     h \<leftarrow> (if userobject then soi ss \<bind> (\<lambda>f. soi_free f object (ss_heap ss)) else free_block object (ss_heap ss));
     Some (ss\<lparr>ss_heap := h\<rparr>)
   }"

definition write_buffer_free :: "write_buffer \<Rightarrow> socket_server \<Rightarrow> socket_server option" where
  "write_buffer_free wb ss = object_free (wb_userobject wb) (wb_buffer wb) ss"

fun free_wbs :: "write_buffer list \<Rightarrow> socket_server \<Rightarrow> socket_server option" where
  "free_wbs [] ss = Some ss"
| "free_wbs (wb # wbs) ss = write_buffer_free wb ss \<bind> free_wbs wbs"

fun get_list :: "priority \<Rightarrow> socket \<Rightarrow> write_buffer list" where
  "get_list PRIORITY_HIGH s = high s"
| "get_list PRIORITY_LOW s = low s"

fun set_list :: "priority \<Rightarrow> write_buffer list \<Rightarrow> socket \<Rightarrow> socket" where
  "set_list PRIORITY_HIGH wbs s = s\<lparr>high := wbs\<rparr>"
| "set_list PRIORITY_LOW wbs s = s\<lparr>low := wbs\<rparr>"

definition free_wb_list :: "priority \<Rightarrow> nat \<Rightarrow> socket_server \<Rightarrow> socket_server option" where
  "free_wb_list l i ss = do {
     ss \<leftarrow> free_wbs (get_list l (slot ss i)) ss;
     Some (upd_slot i (set_list l []) ss)
   }"

definition force_close ::
    "nat \<Rightarrow> socket_message \<Rightarrow> socket_server \<Rightarrow> (socket_message \<times> socket_server) option" where
  "force_close i result ss = do {
     let s = slot ss i;
     let result = \<lparr>msg_id = sid s, msg_opaque = opaque s, msg_ud = 0, msg_data = None\<rparr>;
     (if stype s = SOCKET_TYPE_INVALID then Some (result, ss)
      else if stype s = SOCKET_TYPE_RESERVE then None
      else do {
        ss \<leftarrow> free_wb_list PRIORITY_HIGH i ss;
        ss \<leftarrow> free_wb_list PRIORITY_LOW i ss;
        let ss = (if stype s \<noteq> SOCKET_TYPE_PACCEPT \<and> stype s \<noteq> SOCKET_TYPE_PLISTEN then sp_del (fd s) ss else ss);
        let ss = (if stype s \<noteq> SOCKET_TYPE_BIND then close_fd (fd s) ss else ss);
        Some (result, upd_slot i (\<lambda>s. s\<lparr>stype := SOCKET_TYPE_INVALID\<rparr>) ss)
      })
   }"

section \<open>Sending the lists\<close>

partial_function (option) write_retry :: "int \<Rightarrow> byte list \<Rightarrow> world \<Rightarrow> (int \<times> errno \<times> world) option" where
  "write_retry f bs W = (case sys_write f bs W of
     (n, e, W) \<Rightarrow> if n < 0 \<and> e = EINTR then write_retry f bs W else Some (n, e, W))"

fun send_wbs_tcp ::
    "write_buffer list \<Rightarrow> priority \<Rightarrow> nat \<Rightarrow> socket_message \<Rightarrow> socket_server
     \<Rightarrow> (int \<times> socket_message \<times> socket_server) option" where
  "send_wbs_tcp [] l i result ss = Some (- 1, result, upd_slot i (set_list l []) ss)"
| "send_wbs_tcp (tmp # rest) l i result ss = do {
     bs \<leftarrow> read_block (wb_ptr tmp) (wb_sz tmp) (ss_heap ss);
     (sz, e, W) \<leftarrow> write_retry (fd (slot ss i)) bs (ss_world ss);
     let ss = ss\<lparr>ss_world := W\<rparr>;
     (if sz < 0 then
        (if e = EAGAIN then Some (- 1, result, ss)
         else do {
           (result, ss) \<leftarrow> force_close i result ss;
           Some (SOCKET_CLOSE, result, ss)
         })
      else do {
        let ss = upd_slot i (\<lambda>s. s\<lparr>wb_size := wb_size s - sz\<rparr>) ss;
        (if sz \<noteq> wb_sz tmp then
           let tmp = tmp\<lparr>wb_ptr := (fst (wb_ptr tmp), snd (wb_ptr tmp) + nat sz), wb_sz := wb_sz tmp - sz\<rparr>
           in Some (- 1, result, upd_slot i (set_list l (tmp # rest)) ss)
         else do {
           let ss = upd_slot i (set_list l rest) ss;
           ss \<leftarrow> write_buffer_free tmp ss;
           send_wbs_tcp rest l i result ss
         })
      })
   }"

definition send_list_tcp ::
    "priority \<Rightarrow> nat \<Rightarrow> socket_message \<Rightarrow> socket_server \<Rightarrow> (int \<times> socket_message \<times> socket_server) option" where
  "send_list_tcp l i result ss = send_wbs_tcp (get_list l (slot ss i)) l i result ss"

definition udp_socket_address :: "socket \<Rightarrow> byte list \<Rightarrow> sockaddr_all option" where
  "udp_socket_address s udp_address =
     (if udp_address ! 0 \<noteq> protocol_byte (sprotocol s) then None
      else let port = (bytes_word (take 2 (drop 1 udp_address)) :: u16) in
        (case sprotocol s of
           PROTOCOL_UDP \<Rightarrow> Some (V4 port (bytes_word (take 4 (drop 3 udp_address))))
         | PROTOCOL_UDPv6 \<Rightarrow> Some (V6 port (bytes_word (take 16 (drop 3 udp_address))))
         | PROTOCOL_TCP \<Rightarrow> None))"

fun send_wbs_udp ::
    "write_buffer list \<Rightarrow> priority \<Rightarrow> nat \<Rightarrow> socket_message \<Rightarrow> socket_server
     \<Rightarrow> (int \<times> socket_message \<times> socket_server) option" where
  "send_wbs_udp [] l i result ss = Some (- 1, result, upd_slot i (set_list l []) ss)"
| "send_wbs_udp (tmp # rest) l i result ss = do {
     bs \<leftarrow> read_block (wb_ptr tmp) (wb_sz tmp) (ss_heap ss);
     let (err, e, W) = sys_sendto (fd (slot ss i)) bs (udp_socket_address (slot ss i) (wb_udp_address tmp)) (ss_world ss);
     let ss = ss\<lparr>ss_world := W\<rparr>;
     (if err < 0 then Some (- 1, result, ss)
      else do {
        let ss = upd_slot i (\<lambda>s. set_list l rest (s\<lparr>wb_size := wb_size s - wb_sz tmp\<rparr>)) ss;
        ss \<leftarrow> write_buffer_free tmp ss;
        send_wbs_udp rest l i result ss
      })
   }"

definition send_list_udp ::
    "priority \<Rightarrow> nat \<Rightarrow> socket_message \<Rightarrow> socket_server \<Rightarrow> (int \<times> socket_message \<times> socket_server) option" where
  "send_list_udp l i result ss = send_wbs_udp (get_list l (slot ss i)) l i result ss"

definition send_list ::
    "priority \<Rightarrow> nat \<Rightarrow> socket_message \<Rightarrow> socket_server \<Rightarrow> (int \<times> socket_message \<times> socket_server) option" where
  "send_list l i result ss =
     (if sprotocol (slot ss i) = PROTOCOL_TCP then send_list_tcp l i result ss
      else send_list_udp l i result ss)"

definition list_uncomplete :: "write_buffer list \<Rightarrow> bool" where
  "list_uncomplete wbs = (case wbs of [] \<Rightarrow> False | wb # _ \<Rightarrow> wb_ptr wb \<noteq> (wb_buffer wb, 0))"

definition raise_uncomplete :: "nat \<Rightarrow> socket_server \<Rightarrow> socket_server option" where
  "raise_uncomplete i ss = (case low (slot ss i) of
     [] \<Rightarrow> None
   | tmp # rest \<Rightarrow>
       (if high (slot ss i) = [] then Some (upd_slot i (\<lambda>s. s\<lparr>low := rest, high := [tmp]\<rparr>) ss) else None))"

definition send_buffer ::
    "nat \<Rightarrow> socket_message \<Rightarrow> socket_server \<Rightarrow> (int \<times> socket_message \<times> socket_server) option" where
  "send_buffer i result ss =
     (if list_uncomplete (low (slot ss i)) then None
      else do {
        (r, result, ss) \<leftarrow> send_list PRIORITY_HIGH i result ss;
        (if r = SOCKET_CLOSE then Some (SOCKET_CLOSE, result, ss)
         else if high (slot ss i) = [] then
           (if low (slot ss i) \<noteq> [] then do {
              (r, result, ss) \<leftarrow> send_list PRIORITY_LOW i result ss;
              (if r = SOCKET_CLOSE then Some (SOCKET_CLOSE, result, ss)
               else if list_uncomplete (low (slot ss i)) then do {
                 ss \<leftarrow> raise_uncomplete i ss;
                 Some (- 1, result, ss)
               }
               else Some (- 1, result, ss))
            }
            else do {
              let ss = sp_write (fd (slot ss i)) i False ss;
              (if stype (slot ss i) = SOCKET_TYPE_HALFCLOSE then do {
                 (result, ss) \<leftarrow> force_close i result ss;
                 Some (SOCKET_CLOSE, result, ss)
               }
               else Some (- 1, result, ss))
            })
         else Some (- 1, result, ss))
      })"

section \<open>Queueing and sending a request\<close>

record request_send =
  rs_id :: u32
  rs_sz :: int
  rs_buffer :: nat

definition append_sendbuffer_to ::
    "priority \<Rightarrow> nat \<Rightarrow> request_send \<Rightarrow> int \<Rightarrow> byte list \<Rightarrow> socket_server \<Rightarrow> socket_server option" where
  "append_sendbuffer_to l i request n udp_address ss = do {
     so \<leftarrow> send_object_init ss (rs_buffer request) (rs_sz request);
     let buf = \<lparr>wb_buffer = rs_buffer request,
                wb_ptr = (fst (so_buffer so), snd (so_buffer so) + nat n), wb_sz = so_sz so - n,
                wb_userobject = so_userobject so, wb_udp_address = udp_address\<rparr>;
     Some (upd_slot i (\<lambda>s. set_list l (get_list l s @ [buf]) (s\<lparr>wb_size := wb_size s + wb_sz buf\<rparr>)) ss)
   }"

definition append_sendbuffer_udp ::
    "nat \<Rightarrow> priority \<Rightarrow> request_send \<Rightarrow> byte list \<Rightarrow> socket_server \<Rightarrow> socket_server option" where
  "append_sendbuffer_udp i priority request udp_address ss =
     append_sendbuffer_to priority i request 0 udp_address ss"

definition append_sendbuffer :: "nat \<Rightarrow> request_send \<Rightarrow> int \<Rightarrow> socket_server \<Rightarrow> socket_server option" where
  "append_sendbuffer i request n ss = append_sendbuffer_to PRIORITY_HIGH i request n [] ss"

definition append_sendbuffer_low :: "nat \<Rightarrow> request_send \<Rightarrow> socket_server \<Rightarrow> socket_server option" where
  "append_sendbuffer_low i request ss = append_sendbuffer_to PRIORITY_LOW i request 0 [] ss"

definition send_buffer_empty :: "socket \<Rightarrow> bool" where
  "send_buffer_empty s \<longleftrightarrow> high s = [] \<and> low s = []"

definition send_socket ::
    "request_send \<Rightarrow> socket_message \<Rightarrow> priority \<Rightarrow> byte list option \<Rightarrow> socket_server
     \<Rightarrow> (int \<times> socket_message \<times> socket_server) option" where
  "send_socket request result priority udp_address ss = do {
     let i = HASH_ID (rs_id request);
     let s = slot ss i;
     so \<leftarrow> send_object_init ss (rs_buffer request) (rs_sz request);
     (if stype s = SOCKET_TYPE_INVALID \<or> sid s \<noteq> rs_id request
        \<or> stype s = SOCKET_TYPE_HALFCLOSE \<or> stype s = SOCKET_TYPE_PACCEPT then do {
        ss \<leftarrow> object_free (so_userobject so) (rs_buffer request) ss;
        Some (- 1, result, ss)
      }
      else if stype s = SOCKET_TYPE_PLISTEN \<or> stype s = SOCKET_TYPE_LISTEN then None
      else if send_buffer_empty s \<and> stype s = SOCKET_TYPE_CONNECTED then
        (if sprotocol s = PROTOCOL_TCP then do {
           bs \<leftarrow> read_block (so_buffer so) (so_sz so) (ss_heap ss);
           let (n, e, W) = sys_write (fd s) bs (ss_world ss);
           let ss = ss\<lparr>ss_world := W\<rparr>;
           (if n < 0 \<and> e \<noteq> EINTR \<and> e \<noteq> EAGAIN then do {
              (result, ss) \<leftarrow> force_close i result ss;
              Some (SOCKET_CLOSE, result, ss)
            }
            else do {
              let n = (if n < 0 then 0 else n);
              (if n = so_sz so then do {
                 ss \<leftarrow> object_free (so_userobject so) (rs_buffer request) ss;
                 Some (- 1, result, ss)
               }
               else do {
                 ss \<leftarrow> append_sendbuffer i request n ss;
                 Some (- 1, result, sp_write (fd s) i True ss)
               })
            })
         }
         else do {
           let addr = (case udp_address of None \<Rightarrow> p_udp_address s | Some a \<Rightarrow> a);
           bs \<leftarrow> read_block (so_buffer so) (so_sz so) (ss_heap ss);
           let (n, e, W) = sys_sendto (fd s) bs (udp_socket_address s addr) (ss_world ss);
           let ss = ss\<lparr>ss_world := W\<rparr>;
           (if n \<noteq> so_sz so then do {
              ss \<leftarrow> append_sendbuffer_udp i priority request addr ss;
              Some (- 1, result, sp_write (fd s) i True ss)
            }
            else do {
              ss \<leftarrow> object_free (so_userobject so) (rs_buffer request) ss;
              Some (- 1, result, ss)
            })
         })
      else
        (if sprotocol s = PROTOCOL_TCP then do {
           ss \<leftarrow> (if priority = PRIORITY_LOW then append_sendbuffer_low i request ss
                  else append_sendbuffer i request 0 ss);
           Some (- 1, result, ss)
         }
         else do {
           let addr = (case udp_address of None \<Rightarrow> p_udp_address s | Some a \<Rightarrow> a);
           ss \<leftarrow> append_sendbuffer_udp i priority request addr ss;
           Some (- 1, result, ss)
         }))
   }"

section \<open>Closing\<close>

record request_close =
  rc_id :: u32
  rc_opaque :: u64

definition close_socket ::
    "request_close \<Rightarrow> socket_message \<Rightarrow> socket_server \<Rightarrow> (int \<times> socket_message \<times> socket_server) option" where
  "close_socket request result ss = do {
     let i = HASH_ID (rc_id request);
     (if stype (slot ss i) = SOCKET_TYPE_INVALID \<or> sid (slot ss i) \<noteq> rc_id request then
        Some (SOCKET_CLOSE, \<lparr>msg_id = rc_id request, msg_opaque = rc_opaque request, msg_ud = 0, msg_data = None\<rparr>, ss)
      else do {
        (t, result, ss) \<leftarrow> (if \<not> send_buffer_empty (slot ss i) then send_buffer i result ss
                           else Some (- 1, result, ss));
        (if t \<noteq> - 1 then Some (t, result, ss)
         else if send_buffer_empty (slot ss i) then do {
           (result, ss) \<leftarrow> force_close i result ss;
           Some (SOCKET_CLOSE, result\<lparr>msg_id := rc_id request, msg_opaque := rc_opaque request\<rparr>, ss)
         }
         else Some (- 1, result, upd_slot i (\<lambda>s. s\<lparr>stype := SOCKET_TYPE_HALFCLOSE\<rparr>) ss))
      })
   }"

end
