(* ===== verification/Socket_Stream.thy ===== *)
theory Socket_Stream
  imports Socket_Send
begin

text \<open>
  The byte stream of a connection of the socket server: what the lists of a TCP socket hold, and that
  sending, flushing and closing keep every packet whole, keep the order within each priority, count the
  bytes still queued and free every block exactly once.
\<close>

section \<open>What has been written\<close>

text \<open>The bytes the kernel has accepted on a descriptor.\<close>

fun call_bytes :: "int \<Rightarrow> sys_call \<Rightarrow> byte list" where
  "call_bytes f (Sys_Write g bs) = (if g = f then bs else [])"
| "call_bytes f _ = []"

definition written :: "int \<Rightarrow> world \<Rightarrow> byte list" where
  "written f W = concat (map (call_bytes f) (w_trace W))"

lemma written_step [simp]: "written f (sys_step c W) = written f W @ call_bytes f c"
  by (simp add: written_def sys_step_def)

lemma w_env_step [simp]: "w_env (sys_step c W) = w_env W" "w_next (sys_step c W) = Suc (w_next W)"
  by (simp_all add: sys_step_def)

text \<open>
  What is assumed of the kernel: a call is not interrupted for ever, and, where a claim needs it,
  a write fails only because it would block or was interrupted.
\<close>

definition interrupted :: "answer \<Rightarrow> bool" where
  "interrupted a \<longleftrightarrow> a_ret a < 0 \<and> a_errno a = EINTR"

definition eintr_fair :: "(nat \<Rightarrow> answer) \<Rightarrow> bool" where
  "eintr_fair env \<longleftrightarrow> (\<forall>k. \<exists>j\<ge>k. \<not> interrupted (env j))"

definition no_write_error :: "(nat \<Rightarrow> answer) \<Rightarrow> bool" where
  "no_write_error env \<longleftrightarrow> (\<forall>k. a_ret (env k) < 0 \<longrightarrow> a_errno (env k) \<in> {EINTR, EAGAIN})"

lemma io_count_bounds: "- 1 \<le> io_count r n" "io_count r n \<le> int n" "io_count r n < 0 \<longleftrightarrow> r < 0"
    "io_count r n < 0 \<Longrightarrow> nat (io_count r n) = 0"
  by (auto simp: io_count_def)

lemma write_retry_from:
  assumes "\<not> interrupted (w_env W (w_next W + d))"
  shows "\<exists>n e W'. write_retry f bs W = Some (n, e, W') \<and> w_env W' = w_env W \<and> - 1 \<le> n \<and> n \<le> int (length bs) \<and>
    \<not> (n < 0 \<and> e = EINTR) \<and> written f W' = written f W @ take (nat n) bs \<and>
    (n < 0 \<longrightarrow> (\<exists>k. a_ret (w_env W k) < 0 \<and> a_errno (w_env W k) = e))"
  using assms
proof (induction d arbitrary: W)
  case 0
  let ?n = "io_count (a_ret (w_env W (w_next W))) (length bs)"
  have "write_retry f bs W = Some (?n, a_errno (w_env W (w_next W)), sys_step (Sys_Write f (take (nat ?n) bs)) W)"
    using 0 by (subst write_retry.simps)
      (auto simp: sys_write_def next_answer_def interrupted_def io_count_bounds Let_def)
  then show ?case using 0 io_count_bounds [of "a_ret (w_env W (w_next W))" "length bs"]
    by (auto simp: interrupted_def)
next
  case (Suc d)
  show ?case
  proof (cases "interrupted (w_env W (w_next W))")
    case False
    let ?n = "io_count (a_ret (w_env W (w_next W))) (length bs)"
    have "write_retry f bs W = Some (?n, a_errno (w_env W (w_next W)), sys_step (Sys_Write f (take (nat ?n) bs)) W)"
      using False by (subst write_retry.simps)
        (auto simp: sys_write_def next_answer_def interrupted_def io_count_bounds Let_def)
    then show ?thesis using False io_count_bounds [of "a_ret (w_env W (w_next W))" "length bs"]
      by (auto simp: interrupted_def)
  next
    case True
    let ?W = "sys_step (Sys_Write f []) W"
    have "write_retry f bs W = write_retry f bs ?W"
      using True by (subst write_retry.simps)
        (auto simp: sys_write_def next_answer_def interrupted_def io_count_bounds Let_def)
    moreover have "\<not> interrupted (w_env ?W (w_next ?W + d))" using Suc.prems by simp
    ultimately show ?thesis using Suc.IH [of ?W] by simp
  qed
qed

lemma write_retry_ok:
  assumes "eintr_fair (w_env W)"
  obtains n e W' where "write_retry f bs W = Some (n, e, W')" "w_env W' = w_env W" "- 1 \<le> n"
    "n \<le> int (length bs)" "\<not> (n < 0 \<and> e = EINTR)" "written f W' = written f W @ take (nat n) bs"
    "no_write_error (w_env W) \<longrightarrow> n < 0 \<longrightarrow> e = EAGAIN"
proof -
  obtain j where "j \<ge> w_next W" "\<not> interrupted (w_env W j)"
    using assms by (auto simp: eintr_fair_def)
  then have "\<not> interrupted (w_env W (w_next W + (j - w_next W)))" by simp
  from write_retry_from [OF this, of f bs] obtain n e W' where *: "write_retry f bs W = Some (n, e, W')"
      "w_env W' = w_env W" "- 1 \<le> n" "n \<le> int (length bs)" "\<not> (n < 0 \<and> e = EINTR)"
      "written f W' = written f W @ take (nat n) bs"
      "n < 0 \<longrightarrow> (\<exists>k. a_ret (w_env W k) < 0 \<and> a_errno (w_env W k) = e)" by blast
  show ?thesis by (rule that [OF *(1-6)]) (use *(5,7) in \<open>auto simp: no_write_error_def\<close>)
qed

section \<open>Freeing\<close>

definition drop_blocks :: "nat set \<Rightarrow> heap \<Rightarrow> heap" where
  "drop_blocks A h = (\<lambda>a. if a \<in> A then None else h a)"

lemma drop_blocks_simps [simp]: "drop_blocks {} h = h"
  "drop_blocks A (drop_blocks B h) = drop_blocks (A \<union> B) h"
  "a \<notin> A \<Longrightarrow> drop_blocks A h a = h a" "a \<in> A \<Longrightarrow> drop_blocks A h a = None"
  by (auto simp: drop_blocks_def)

definition owned_wbs :: "heap \<Rightarrow> write_buffer list \<Rightarrow> bool" where
  "owned_wbs h wbs \<longleftrightarrow> distinct (map wb_buffer wbs) \<and> (\<forall>wb\<in>set wbs. \<not> wb_userobject wb \<and> h (wb_buffer wb) \<noteq> None)"

lemma owned_wbs_drop:
  assumes "owned_wbs h wbs" "A \<inter> wb_buffer ` set wbs = {}"
  shows "owned_wbs (drop_blocks A h) wbs"
proof -
  have "wb_buffer wb \<notin> A" if "wb \<in> set wbs" for wb using assms(2) that by auto
  then show ?thesis using assms(1) by (simp add: owned_wbs_def)
qed

lemma owned_wbs_append: "owned_wbs h (xs @ ys) \<longleftrightarrow>
    owned_wbs h xs \<and> owned_wbs h ys \<and> wb_buffer ` set xs \<inter> wb_buffer ` set ys = {}"
  by (auto simp: owned_wbs_def)

lemma owned_wbs_cons: "owned_wbs h (x # xs) \<longleftrightarrow>
    owned_wbs h xs \<and> wb_buffer x \<notin> wb_buffer ` set xs \<and> \<not> wb_userobject x \<and> h (wb_buffer x) \<noteq> None"
  by (auto simp: owned_wbs_def)

lemma object_free_plain: "ss_heap ss a \<noteq> None \<Longrightarrow>
    object_free False a ss = Some (ss\<lparr>ss_heap := drop_blocks {a} (ss_heap ss)\<rparr>)"
  by (auto simp: object_free_def free_block_def drop_blocks_def fun_eq_iff)

lemma write_buffer_free_plain: "\<not> wb_userobject wb \<Longrightarrow> ss_heap ss (wb_buffer wb) \<noteq> None \<Longrightarrow>
    write_buffer_free wb ss = Some (ss\<lparr>ss_heap := drop_blocks {wb_buffer wb} (ss_heap ss)\<rparr>)"
  by (simp add: write_buffer_free_def object_free_plain)

lemma free_wbs_owned:
  "owned_wbs (ss_heap ss) wbs \<Longrightarrow>
   free_wbs wbs ss = Some (ss\<lparr>ss_heap := drop_blocks (wb_buffer ` set wbs) (ss_heap ss)\<rparr>)"
proof (induction wbs arbitrary: ss)
  case Nil
  then show ?case by simp
next
  case (Cons wb wbs)
  let ?ss = "ss\<lparr>ss_heap := drop_blocks {wb_buffer wb} (ss_heap ss)\<rparr>"
  have "owned_wbs (ss_heap ?ss) wbs" using Cons.prems by (simp add: owned_wbs_cons owned_wbs_drop)
  moreover have "write_buffer_free wb ss = Some ?ss"
    using Cons.prems by (intro write_buffer_free_plain) (simp_all add: owned_wbs_cons)
  moreover have "drop_blocks (wb_buffer ` set wbs) (drop_blocks {wb_buffer wb} (ss_heap ss)) =
      drop_blocks (wb_buffer ` set (wb # wbs)) (ss_heap ss)" by (simp add: Un_commute)
  ultimately show ?case using Cons.IH [of ?ss] by simp
qed

text \<open>The state after \<open>force_close\<close> of a socket whose buffers it owns.\<close>

lemma force_close_owned:
  assumes "stype (slot ss i) \<notin> {SOCKET_TYPE_INVALID, SOCKET_TYPE_RESERVE}"
    and "owned_wbs (ss_heap ss) (high (slot ss i) @ low (slot ss i))"
  obtains ss' where "force_close i result ss = Some (\<lparr>msg_id = sid (slot ss i), msg_opaque = opaque (slot ss i),
      msg_ud = 0, msg_data = None\<rparr>, ss')"
    "slot ss' = (slot ss)(i := (slot ss i)\<lparr>high := [], low := [], stype := SOCKET_TYPE_INVALID\<rparr>)"
    "ss_heap ss' = drop_blocks (wb_buffer ` set (high (slot ss i) @ low (slot ss i))) (ss_heap ss)"
    "w_env (ss_world ss') = w_env (ss_world ss)" "soi ss' = soi ss" "\<forall>f. written f (ss_world ss') = written f (ss_world ss)"
proof -
  let ?s = "slot ss i"
  let ?h = "drop_blocks (wb_buffer ` set (high ?s)) (ss_heap ss)"
  let ?ss1 = "upd_slot i (set_list PRIORITY_HIGH []) (ss\<lparr>ss_heap := ?h\<rparr>)"
  have o1: "owned_wbs (ss_heap ss) (high ?s)" using assms(2) by (simp add: owned_wbs_append)
  have f1: "free_wb_list PRIORITY_HIGH i ss = Some ?ss1"
    using free_wbs_owned [OF o1] by (simp add: free_wb_list_def)
  have o2: "owned_wbs (ss_heap ?ss1) (low (slot ?ss1 i))"
    using assms(2) by (simp add: owned_wbs_append owned_wbs_drop)
  let ?ss2 = "upd_slot i (set_list PRIORITY_LOW [])
      (?ss1\<lparr>ss_heap := drop_blocks (wb_buffer ` set (low ?s)) ?h\<rparr>)"
  have f2: "free_wb_list PRIORITY_LOW i ?ss1 = Some ?ss2"
    using free_wbs_owned [OF o2] by (simp add: free_wb_list_def)
  show ?thesis
    using assms(1) that f1 f2
    by (auto simp: force_close_def Let_def sp_del_def close_fd_def sys_do_def image_Un Un_commute)
qed

section \<open>Packets in the lists\<close>

text \<open>A write buffer holds a packet of which the first \<open>off\<close> bytes are already sent.\<close>

definition wb_rep :: "heap \<Rightarrow> nat \<Rightarrow> write_buffer \<Rightarrow> byte list \<Rightarrow> bool" where
  "wb_rep h off wb pkt \<longleftrightarrow> \<not> wb_userobject wb \<and> wb_ptr wb = (wb_buffer wb, off) \<and>
     h (wb_buffer wb) = Some pkt \<and> 0 \<le> wb_sz wb \<and> off + nat (wb_sz wb) = length pkt"

fun list_rep :: "heap \<Rightarrow> nat \<Rightarrow> write_buffer list \<Rightarrow> byte list list \<Rightarrow> bool" where
  "list_rep h off [] [] \<longleftrightarrow> off = 0"
| "list_rep h off (wb # wbs) (pkt # pkts) \<longleftrightarrow> wb_rep h off wb pkt \<and> list_all2 (wb_rep h 0) wbs pkts"
| "list_rep h off _ _ \<longleftrightarrow> False"

lemma list_rep_zero: "list_rep h 0 wbs pkts \<longleftrightarrow> list_all2 (wb_rep h 0) wbs pkts"
  by (cases "(h, 0 :: nat, wbs, pkts)" rule: list_rep.cases) auto

lemma list_rep_cons: "list_rep h off (wb # wbs) ps \<longleftrightarrow>
    (\<exists>p ps'. ps = p # ps' \<and> wb_rep h off wb p \<and> list_rep h 0 wbs ps')"
  by (cases ps) (auto simp: list_rep_zero)

lemma list_rep_nil [simp]: "list_rep h off [] ps \<longleftrightarrow> ps = [] \<and> off = 0"
  by (cases ps) auto

lemma list_rep_drop:
  assumes "A \<inter> wb_buffer ` set wbs = {}"
  shows "list_rep (drop_blocks A h) off wbs ps = list_rep h off wbs ps"
proof -
  have "wb_rep (drop_blocks A h) o' wb p = wb_rep h o' wb p" if "wb \<in> set wbs" for o' wb p
  proof -
    have "wb_buffer wb \<notin> A" using assms that by auto
    then show ?thesis by (simp add: wb_rep_def)
  qed
  then show ?thesis using assms
    by (induction wbs arbitrary: off ps) (auto simp: list_rep_cons)
qed

lemma list_rep_off: "list_rep h off wbs ps \<Longrightarrow> off \<le> length (concat ps)"
  by (cases wbs) (auto simp: list_rep_cons wb_rep_def)

fun other :: "priority \<Rightarrow> priority" where
  "other PRIORITY_HIGH = PRIORITY_LOW"
| "other PRIORITY_LOW = PRIORITY_HIGH"

lemma get_set_list [simp]:
  "get_list l (set_list l wbs s) = wbs" "get_list (other l) (set_list l wbs s) = get_list (other l) s"
  "stype (set_list l wbs s) = stype s" "sid (set_list l wbs s) = sid s" "fd (set_list l wbs s) = fd s"
  "sprotocol (set_list l wbs s) = sprotocol s" "wb_size (set_list l wbs s) = wb_size s"
  "opaque (set_list l wbs s) = opaque s" "get_list l (s\<lparr>wb_size := z\<rparr>) = get_list l s"
  "set_list l ws (set_list l wbs s) = set_list l ws s" "set_list l (get_list l s) s = s"
  "(set_list l wbs s)\<lparr>wb_size := z\<rparr> = set_list l wbs (s\<lparr>wb_size := z\<rparr>)"
  by (cases l; simp)+

lemma lists_both: "{high s, low s} = {get_list l s, get_list (other l) s}"
  "wb_buffer ` set (high s @ low s) = wb_buffer ` set (get_list l s @ get_list (other l) s)"
  by (cases l; auto)+

lemma owned_both: "owned_wbs h (high s @ low s) = owned_wbs h (get_list l s @ get_list (other l) s)"
  by (cases l) (auto simp: owned_wbs_append)

text \<open>
  Sending a list: packets leave it from the front, and the bytes written are theirs. The list goes
  on (\<open>list_sent\<close>) or the socket is closed (\<open>list_closed\<close>).
\<close>

definition list_sent ::
    "priority \<Rightarrow> nat \<Rightarrow> int \<Rightarrow> nat \<Rightarrow> byte list list \<Rightarrow> socket_server \<Rightarrow> socket_server \<Rightarrow> bool" where
  "list_sent l i f off' qs ss ss' \<longleftrightarrow> (\<exists>wbs' A.
     slot ss' = (slot ss)(i := set_list l wbs' ((slot ss i)\<lparr>wb_size := wb_size (slot ss i) +
       int (length (written f (ss_world ss))) - int (length (written f (ss_world ss')))\<rparr>)) \<and>
     list_rep (ss_heap ss') off' wbs' qs \<and> ss_heap ss' = drop_blocks A (ss_heap ss) \<and>
     A \<union> wb_buffer ` set wbs' = wb_buffer ` set (get_list l (slot ss i)) \<and>
     owned_wbs (ss_heap ss') (wbs' @ get_list (other l) (slot ss i)))"

definition list_closed :: "nat \<Rightarrow> socket_server \<Rightarrow> socket_server \<Rightarrow> bool" where
  "list_closed i ss ss' \<longleftrightarrow> (\<exists>z. slot ss' = (slot ss)(i := (slot ss i)\<lparr>wb_size := z, high := [], low := [],
       stype := SOCKET_TYPE_INVALID\<rparr>)) \<and> \<not> no_write_error (w_env (ss_world ss)) \<and>
     ss_heap ss' = drop_blocks (wb_buffer ` set (high (slot ss i) @ low (slot ss i))) (ss_heap ss)"

lemma list_closed_via:
  assumes "list_closed i ss1 ss'" "slot ss1 = (slot ss)(i := set_list l rest ((slot ss i)\<lparr>wb_size := z\<rparr>))"
    "ss_heap ss1 = drop_blocks {wb_buffer tmp} (ss_heap ss)" "w_env (ss_world ss1) = w_env (ss_world ss)"
    "get_list l (slot ss i) = tmp # rest"
  shows "list_closed i ss ss'"
proof -
  have "wb_buffer ` set (high (slot ss1 i) @ low (slot ss1 i)) \<union> {wb_buffer tmp} =
      wb_buffer ` set (high (slot ss i) @ low (slot ss i))"
    unfolding lists_both(2) [of _ l] using assms(2,5) by auto
  then show ?thesis using assms by (cases l) (auto simp: list_closed_def)
qed

lemma list_sent_via:
  assumes "list_sent l i f off' qs ss1 ss'"
    "slot ss1 = (slot ss)(i := set_list l rest ((slot ss i)\<lparr>wb_size := wb_size (slot ss i) +
       int (length (written f (ss_world ss))) - int (length (written f (ss_world ss1)))\<rparr>))"
    "ss_heap ss1 = drop_blocks {wb_buffer tmp} (ss_heap ss)"
    "get_list l (slot ss i) = tmp # rest"
  shows "list_sent l i f off' qs ss ss'"
proof -
  obtain wbs' A where *: "slot ss' = (slot ss1)(i := set_list l wbs' ((slot ss1 i)\<lparr>wb_size := wb_size (slot ss1 i) +
       int (length (written f (ss_world ss1))) - int (length (written f (ss_world ss')))\<rparr>))"
     "list_rep (ss_heap ss') off' wbs' qs" "ss_heap ss' = drop_blocks A (ss_heap ss1)"
     "A \<union> wb_buffer ` set wbs' = wb_buffer ` set (get_list l (slot ss1 i))"
     "owned_wbs (ss_heap ss') (wbs' @ get_list (other l) (slot ss1 i))"
    using assms(1) unfolding list_sent_def by blast
  have "(set_list l rest s)\<lparr>wb_size := z\<rparr> = set_list l rest (s\<lparr>wb_size := z\<rparr>)" for s z by simp
  then have "slot ss' = (slot ss)(i := set_list l wbs' ((slot ss i)\<lparr>wb_size := wb_size (slot ss i) +
       int (length (written f (ss_world ss))) - int (length (written f (ss_world ss')))\<rparr>))"
    unfolding *(1) assms(2) by simp
  moreover have "ss_heap ss' = drop_blocks (insert (wb_buffer tmp) A) (ss_heap ss)"
    using *(3) assms(3) by simp
  moreover have "get_list l (slot ss1 i) = rest" "get_list (other l) (slot ss1 i) = get_list (other l) (slot ss i)"
    using assms(2) by simp_all
  ultimately show ?thesis
    unfolding list_sent_def using *(2,4,5) assms(4)
    by (intro exI [of _ wbs'] exI [of _ "insert (wb_buffer tmp) A"]) auto
qed

lemma send_wbs_tcp_stream:
  assumes "get_list l (slot ss i) = wbs" "list_rep (ss_heap ss) off wbs ps"
    "stype (slot ss i) \<notin> {SOCKET_TYPE_INVALID, SOCKET_TYPE_RESERVE}"
    "owned_wbs (ss_heap ss) (wbs @ get_list (other l) (slot ss i))"
    "eintr_fair (w_env (ss_world ss))" "fd (slot ss i) = f"
    "written f (ss_world ss) = B @ take off (concat ps)"
  shows "\<exists>r res' ss' ds qs off'. send_wbs_tcp wbs l i res ss = Some (r, res', ss') \<and> ps = ds @ qs \<and>
    w_env (ss_world ss') = w_env (ss_world ss) \<and> soi ss' = soi ss \<and> off' \<le> length (concat qs) \<and>
    written f (ss_world ss') = B @ concat ds @ take off' (concat qs) \<and>
    (r = SOCKET_CLOSE \<and> list_closed i ss ss' \<or> r = - 1 \<and> list_sent l i f off' qs ss ss')"
  using assms
proof (induction wbs arbitrary: ss off ps B)
  case Nil
  have "list_sent l i f 0 [] ss (upd_slot i (set_list l []) ss)"
    using Nil by (auto simp: list_sent_def intro!: exI [of _ "[]"] exI [of _ "{}"])
  then show ?case using Nil
    by (intro exI [of _ "- 1"] exI [of _ res] exI [of _ "upd_slot i (set_list l []) ss"] exI [of _ "[]"] exI [of _ 0])
       (auto simp: socket_codes)
next
  case (Cons tmp rest)
  obtain p ps' where ps: "ps = p # ps'" and tmp: "wb_rep (ss_heap ss) off tmp p" and rest: "list_rep (ss_heap ss) 0 rest ps'"
    using Cons.prems(2) by (auto simp: list_rep_cons)
  have off: "off \<le> length p" "nat (wb_sz tmp) = length p - off" "0 \<le> wb_sz tmp" "wb_sz tmp = int (length p - off)"
    using tmp by (auto simp: wb_rep_def)
  have rd: "read_block (wb_ptr tmp) (wb_sz tmp) (ss_heap ss) = Some (drop off p)"
    using tmp off by (auto simp: read_block_def wb_rep_def mem_read_def)
  obtain n e W where w: "write_retry f (drop off p) (ss_world ss) = Some (n, e, W)" "w_env W = w_env (ss_world ss)"
      "- 1 \<le> n" "n \<le> int (length (drop off p))" "\<not> (n < 0 \<and> e = EINTR)"
      "written f W = written f (ss_world ss) @ take (nat n) (drop off p)"
      "no_write_error (w_env (ss_world ss)) \<longrightarrow> n < 0 \<longrightarrow> e = EAGAIN"
    by (rule write_retry_ok [OF Cons.prems(5)])
  have wr: "written f W = B @ take (off + nat n) p"
    using w(6) Cons.prems(7) ps off by (simp add: take_add)
  let ?ss = "ss\<lparr>ss_world := W\<rparr>"
  have own: "owned_wbs (ss_heap ss) (high (slot ss i) @ low (slot ss i))"
    using Cons.prems(1,4) owned_both [of _ _ l] by simp
  consider "n < 0" "e = EAGAIN" | "n < 0" "e \<noteq> EAGAIN" | "0 \<le> n" "n \<noteq> wb_sz tmp" | "n = wb_sz tmp" "0 \<le> n"
    by linarith
  then show ?case
  proof cases
    case 1
    have "set_list l (tmp # rest) (slot ss i) = slot ss i" using Cons.prems(1) get_set_list(11) by metis
    then have "list_sent l i f off ps ss ?ss"
      unfolding list_sent_def using Cons.prems 1 wr ps off
      by (intro exI [of _ "tmp # rest"] exI [of _ "{}"]) simp
    moreover have "send_wbs_tcp (tmp # rest) l i res ss = Some (- 1, res, ?ss)"
      using rd w(1) 1 Cons.prems(6) by simp
    ultimately show ?thesis
      using Cons.prems 1 wr w(2) ps off
      by (intro exI [of _ "- 1"] exI [of _ res] exI [of _ ?ss] exI [of _ "[]"] exI [of _ ps] exI [of _ off]) auto
  next
    case 2
    have ty: "stype (slot ?ss i) \<notin> {SOCKET_TYPE_INVALID, SOCKET_TYPE_RESERVE}" using Cons.prems(3) by simp
    have own': "owned_wbs (ss_heap ?ss) (high (slot ?ss i) @ low (slot ?ss i))" using own by simp
    obtain res' ss' where fc: "force_close i res ?ss = Some (res', ss')"
      "slot ss' = (slot ?ss)(i := (slot ?ss i)\<lparr>high := [], low := [], stype := SOCKET_TYPE_INVALID\<rparr>)"
      "ss_heap ss' = drop_blocks (wb_buffer ` set (high (slot ?ss i) @ low (slot ?ss i))) (ss_heap ?ss)"
      "w_env (ss_world ss') = w_env (ss_world ?ss)" "soi ss' = soi ?ss" "written f (ss_world ss') = written f (ss_world ?ss)"
      using force_close_owned [OF ty own', of res] by metis
    have "list_closed i ss ss'"
      using fc(2,3) w(7) 2
      by (auto simp: list_closed_def intro!: exI [of _ "wb_size (slot ss i)"])
    moreover have "send_wbs_tcp (tmp # rest) l i res ss = Some (SOCKET_CLOSE, res', ss')"
      using rd w(1) 2 Cons.prems(6) fc(1) by simp
    ultimately show ?thesis
      using fc(4-6) 2 wr w(2) ps off
      by (intro exI [of _ SOCKET_CLOSE] exI [of _ res'] exI [of _ ss'] exI [of _ "[]"] exI [of _ ps] exI [of _ off]) auto
  next
    case 3
    let ?tmp = "tmp\<lparr>wb_ptr := (fst (wb_ptr tmp), snd (wb_ptr tmp) + nat n), wb_sz := wb_sz tmp - n\<rparr>"
    let ?ss' = "upd_slot i (set_list l (?tmp # rest)) (upd_slot i (\<lambda>s. s\<lparr>wb_size := wb_size s - n\<rparr>) ?ss)"
    have n: "nat n \<le> length p - off" using w(4) by simp
    have len: "int (length (written f W)) = int (length (written f (ss_world ss))) + n"
      using w(6) n 3(1) by simp
    have "wb_rep (ss_heap ss) (off + nat n) ?tmp p"
      using tmp w(4) 3 off by (auto simp: wb_rep_def)
    then have "list_sent l i f (off + nat n) ps ss ?ss'"
      unfolding list_sent_def using Cons.prems 3 ps rest len
      by (intro exI [of _ "?tmp # rest"] exI [of _ "{}"]) (simp add: list_rep_cons owned_wbs_cons)
    moreover have "send_wbs_tcp (tmp # rest) l i res ss = Some (- 1, res, ?ss')"
      using rd w(1) 3 Cons.prems(6) by (simp add: Let_def)
    ultimately show ?thesis
      using wr w(2) ps off n
      by (intro exI [of _ "- 1"] exI [of _ res] exI [of _ ?ss'] exI [of _ "[]"] exI [of _ ps] exI [of _ "off + nat n"]) auto
  next
    case 4
    let ?ss1 = "upd_slot i (set_list l rest) (upd_slot i (\<lambda>s. s\<lparr>wb_size := wb_size s - n\<rparr>) ?ss)"
    let ?ss2 = "?ss1\<lparr>ss_heap := drop_blocks {wb_buffer tmp} (ss_heap ss)\<rparr>"
    have n: "nat n = length p - off" using 4 off by simp
    have len: "int (length (written f W)) = int (length (written f (ss_world ss))) + n"
      using w(6) n 4 by simp
    have fr: "write_buffer_free tmp ?ss1 = Some ?ss2"
      using tmp by (subst write_buffer_free_plain) (auto simp: wb_rep_def)
    have tmpo: "wb_buffer tmp \<notin> wb_buffer ` set (rest @ get_list (other l) (slot ss i))"
        "owned_wbs (ss_heap ss) (rest @ get_list (other l) (slot ss i))"
      using Cons.prems(4) by (simp_all add: owned_wbs_cons)
    have step: "send_wbs_tcp (tmp # rest) l i res ss = send_wbs_tcp rest l i res ?ss2"
      using rd w(1) 4 Cons.prems(6) fr by (simp add: Let_def)
    have "list_rep (ss_heap ?ss2) 0 rest ps'" using rest tmpo(1) by (simp add: list_rep_drop image_Un)
    moreover have "owned_wbs (ss_heap ?ss2) (rest @ get_list (other l) (slot ?ss2 i))"
      using tmpo by (simp add: owned_wbs_drop)
    moreover have "written f (ss_world ?ss2) = (B @ p) @ take 0 (concat ps')" using wr n off by simp
    ultimately obtain r res' ss' ds qs off' where ih: "send_wbs_tcp rest l i res ?ss2 = Some (r, res', ss')" "ps' = ds @ qs"
      "w_env (ss_world ss') = w_env (ss_world ?ss2)" "soi ss' = soi ?ss2" "off' \<le> length (concat qs)"
      "written f (ss_world ss') = (B @ p) @ concat ds @ take off' (concat qs)"
      "r = SOCKET_CLOSE \<and> list_closed i ?ss2 ss' \<or> r = - 1 \<and> list_sent l i f off' qs ?ss2 ss'"
      using Cons.IH [of ?ss2 0 ps' "B @ p"] Cons.prems(3,5,6) w(2) by auto
    have sl: "slot ?ss2 = (slot ss)(i := set_list l rest ((slot ss i)\<lparr>wb_size := wb_size (slot ss i) +
       int (length (written f (ss_world ss))) - int (length (written f (ss_world ?ss2)))\<rparr>))"
      using len by simp
    have "r = SOCKET_CLOSE \<and> list_closed i ss ss' \<or> r = - 1 \<and> list_sent l i f off' qs ss ss'"
      using ih(7) list_closed_via [OF _ sl] list_sent_via [OF _ sl] Cons.prems(1) w(2) by auto
    then show ?thesis
      using step ih ps w(2)
      by (intro exI [of _ r] exI [of _ res'] exI [of _ ss'] exI [of _ "p # ds"] exI [of _ qs] exI [of _ off']) auto
  qed
qed

section \<open>The send queue of a TCP socket\<close>

text \<open>
  A packet is kept with the priority it was sent with. \<open>tcp_rep\<close> says that the socket in slot \<open>i\<close>
  holds the packets \<open>H\<close> in its high list, of the first of which \<open>off\<close> bytes are sent, and \<open>L\<close> in
  its low list; \<open>wire\<close> adds that the packets \<open>D\<close> and those \<open>off\<close> bytes are what the kernel has.
\<close>

type_synonym packets = "(priority \<times> byte list) list"

abbreviation packets_bytes :: "packets \<Rightarrow> byte list" where
  "packets_bytes ps \<equiv> concat (map snd ps)"

definition tcp_rep :: "socket_server \<Rightarrow> nat \<Rightarrow> packets \<Rightarrow> nat \<Rightarrow> packets \<Rightarrow> bool" where
  "tcp_rep ss i H off L \<longleftrightarrow> sprotocol (slot ss i) = PROTOCOL_TCP \<and>
     stype (slot ss i) \<in> {SOCKET_TYPE_CONNECTED, SOCKET_TYPE_HALFCLOSE} \<and>
     list_rep (ss_heap ss) off (high (slot ss i)) (map snd H) \<and> list_rep (ss_heap ss) 0 (low (slot ss i)) (map snd L) \<and>
     owned_wbs (ss_heap ss) (high (slot ss i) @ low (slot ss i)) \<and> (\<forall>p\<in>set L. fst p = PRIORITY_LOW) \<and>
     wb_size (slot ss i) = int (length (packets_bytes H)) - int off + int (length (packets_bytes L))"

definition wire :: "socket_server \<Rightarrow> nat \<Rightarrow> byte list \<Rightarrow> packets \<Rightarrow> packets \<Rightarrow> nat \<Rightarrow> bool" where
  "wire ss i B D H off \<longleftrightarrow>
     written (fd (slot ss i)) (ss_world ss) = B @ packets_bytes D @ take off (packets_bytes H)"

definition queued :: "nat \<Rightarrow> socket_server \<Rightarrow> nat set" where
  "queued i ss = wb_buffer ` set (high (slot ss i) @ low (slot ss i))"

text \<open>The only blocks freed are those that have left the lists of the socket.\<close>

definition frees :: "nat \<Rightarrow> socket_server \<Rightarrow> socket_server \<Rightarrow> bool" where
  "frees i ss ss' \<longleftrightarrow> (\<exists>A. ss_heap ss' = drop_blocks A (ss_heap ss) \<and> queued i ss = A \<union> queued i ss')"

lemma frees_refl [simp]: "frees i ss ss"
  by (auto simp: frees_def intro!: exI [of _ "{}"])

lemma frees_trans: "frees i a b \<Longrightarrow> frees i b c \<Longrightarrow> frees i a c"
proof -
  assume "frees i a b" "frees i b c"
  then obtain A A' where "ss_heap b = drop_blocks A (ss_heap a)" "queued i a = A \<union> queued i b"
      "ss_heap c = drop_blocks A' (ss_heap b)" "queued i b = A' \<union> queued i c"
    by (auto simp: frees_def)
  then show ?thesis unfolding frees_def by (intro exI [of _ "A' \<union> A"]) auto
qed

definition same_sock :: "nat \<Rightarrow> socket_server \<Rightarrow> socket_server \<Rightarrow> bool" where
  "same_sock i ss ss' \<longleftrightarrow> sid (slot ss' i) = sid (slot ss i) \<and> fd (slot ss' i) = fd (slot ss i) \<and>
     opaque (slot ss' i) = opaque (slot ss i) \<and> soi ss' = soi ss \<and>
     w_env (ss_world ss') = w_env (ss_world ss) \<and> (\<forall>j. j \<noteq> i \<longrightarrow> slot ss' j = slot ss j) \<and> frees i ss ss'"

lemma same_sock_refl [simp]: "same_sock i ss ss"
  by (simp add: same_sock_def)

lemma same_sock_trans: "same_sock i a b \<Longrightarrow> same_sock i b c \<Longrightarrow> same_sock i a c"
  by (auto simp: same_sock_def intro: frees_trans)

text \<open>Closed sockets own nothing any more.\<close>

definition closed_sock :: "nat \<Rightarrow> socket_server \<Rightarrow> socket_server \<Rightarrow> bool" where
  "closed_sock i ss ss' \<longleftrightarrow> same_sock i ss ss' \<and> stype (slot ss' i) = SOCKET_TYPE_INVALID \<and>
     high (slot ss' i) = [] \<and> low (slot ss' i) = []"

lemma list_closed_sock:
  "list_closed i ss ss' \<Longrightarrow> w_env (ss_world ss') = w_env (ss_world ss) \<Longrightarrow> soi ss' = soi ss \<Longrightarrow> closed_sock i ss ss'"
  by (auto simp: list_closed_def closed_sock_def same_sock_def frees_def queued_def)

lemma owned_drop_rest:
  assumes "owned_wbs h (wbs' @ os)" "h = drop_blocks A g"
  shows "wb_buffer ` set os \<inter> A = {}" "wb_buffer ` set wbs' \<inter> A = {}"
proof -
  have "wb_buffer wb \<notin> A" if "wb \<in> set (wbs' @ os)" for wb
  proof
    assume "wb_buffer wb \<in> A"
    then have "h (wb_buffer wb) = None" using assms(2) by simp
    then show False using assms(1) that unfolding owned_wbs_def by blast
  qed
  then show "wb_buffer ` set os \<inter> A = {}" "wb_buffer ` set wbs' \<inter> A = {}" by auto
qed

lemma send_list_high_stream:
  assumes rep: "tcp_rep ss i H off L" and w: "wire ss i B D H off" and fair: "eintr_fair (w_env (ss_world ss))"
  shows "\<exists>r res' ss' D1 H1 off1. send_list PRIORITY_HIGH i res ss = Some (r, res', ss') \<and> H = D1 @ H1 \<and>
    written (fd (slot ss i)) (ss_world ss') = B @ packets_bytes (D @ D1) @ take off1 (packets_bytes H1) \<and>
    (r = SOCKET_CLOSE \<and> closed_sock i ss ss' \<and> \<not> no_write_error (w_env (ss_world ss)) \<or>
     r = - 1 \<and> same_sock i ss ss' \<and> stype (slot ss' i) = stype (slot ss i) \<and> tcp_rep ss' i H1 off1 L)"
proof -
  let ?s = "slot ss i"
  have own: "owned_wbs (ss_heap ss) (high ?s @ get_list (other PRIORITY_HIGH) ?s)" using rep by (simp add: tcp_rep_def)
  obtain r res' ss' ds qs off' where s: "send_wbs_tcp (high ?s) PRIORITY_HIGH i res ss = Some (r, res', ss')"
      "map snd H = ds @ qs" "w_env (ss_world ss') = w_env (ss_world ss)" "soi ss' = soi ss" "off' \<le> length (concat qs)"
      "written (fd ?s) (ss_world ss') = (B @ packets_bytes D) @ concat ds @ take off' (concat qs)"
      "r = SOCKET_CLOSE \<and> list_closed i ss ss' \<or> r = - 1 \<and> list_sent PRIORITY_HIGH i (fd ?s) off' qs ss ss'"
    using send_wbs_tcp_stream [OF _ _ _ own fair refl, of off "map snd H" "B @ packets_bytes D" res] rep w
    by (auto simp: tcp_rep_def wire_def)
  obtain D1 H1 where H: "H = D1 @ H1" "map snd D1 = ds" "map snd H1 = qs"
    using s(2) by (auto simp: map_eq_append_conv)
  have sl: "send_list PRIORITY_HIGH i res ss = Some (r, res', ss')"
    using s(1) rep by (simp add: send_list_def send_list_tcp_def tcp_rep_def)
  have wr: "written (fd ?s) (ss_world ss') = B @ packets_bytes (D @ D1) @ take off' (packets_bytes H1)"
    using s(6) H by simp
  from s(7) show ?thesis
  proof
    assume "r = SOCKET_CLOSE \<and> list_closed i ss ss'"
    then show ?thesis using sl H(1) wr list_closed_sock [OF _ s(3,4)] by (auto simp: list_closed_def)
  next
    assume c: "r = - 1 \<and> list_sent PRIORITY_HIGH i (fd ?s) off' qs ss ss'"
    then obtain wbs' A where a: "slot ss' = (slot ss)(i := ?s\<lparr>wb_size := wb_size ?s +
         int (length (written (fd ?s) (ss_world ss))) - int (length (written (fd ?s) (ss_world ss'))), high := wbs'\<rparr>)"
        "list_rep (ss_heap ss') off' wbs' qs" "ss_heap ss' = drop_blocks A (ss_heap ss)"
        "owned_wbs (ss_heap ss') (wbs' @ low ?s)" "A \<union> wb_buffer ` set wbs' = wb_buffer ` set (high ?s)"
      by (auto simp: list_sent_def)
    have fr: "frees i ss ss'"
      unfolding frees_def queued_def using a(1,3,5) by (intro exI [of _ A]) (auto simp: image_Un)
    have "list_rep (ss_heap ss') 0 (low ?s) (map snd L)"
      using owned_drop_rest(1) [OF a(4,3)] rep a(3) by (simp add: list_rep_drop Int_commute tcp_rep_def)
    moreover have "off \<le> length (packets_bytes H)" using rep list_rep_off by (auto simp: tcp_rep_def)
    then have "int (length (written (fd ?s) (ss_world ss))) - int (length (written (fd ?s) (ss_world ss'))) =
        int off - int (length (packets_bytes D1)) - int off'"
      using w wr s(5) H by (simp add: wire_def)
    ultimately have "tcp_rep ss' i H1 off' L"
      using rep a H by (simp add: tcp_rep_def)
    then show ?thesis
      using sl H(1) wr c a(1) s(3,4) fr
      by (intro exI [of _ r] exI [of _ res'] exI [of _ ss'] exI [of _ D1] exI [of _ H1] exI [of _ off'])
         (simp add: same_sock_def)
  qed
qed

lemma send_low_stream:
  assumes rep: "tcp_rep ss i [] 0 L" and w: "wire ss i B D [] 0" and fair: "eintr_fair (w_env (ss_world ss))"
  shows "\<exists>r res' ss' D1 L1 off1. send_list PRIORITY_LOW i res ss = Some (r, res', ss') \<and> L = D1 @ L1 \<and>
    written (fd (slot ss i)) (ss_world ss') = B @ packets_bytes (D @ D1) @ take off1 (packets_bytes L1) \<and>
    (r = SOCKET_CLOSE \<and> closed_sock i ss ss' \<and> \<not> no_write_error (w_env (ss_world ss)) \<or>
     r = - 1 \<and> same_sock i ss ss' \<and> stype (slot ss' i) = stype (slot ss i) \<and> high (slot ss' i) = [] \<and>
       (\<exists>H2 L2. L1 = H2 @ L2 \<and> (if list_uncomplete (low (slot ss' i)) then \<exists>ss''. raise_uncomplete i ss' = Some ss'' \<and>
            tcp_rep ss'' i H2 off1 L2 \<and> same_sock i ss ss'' \<and> stype (slot ss'' i) = stype (slot ss i) \<and>
            ss_world ss'' = ss_world ss' else H2 = [] \<and> off1 = 0 \<and> tcp_rep ss' i [] 0 L2)))"
proof -
  let ?s = "slot ss i"
  have h: "high ?s = []" using rep by (cases "high ?s") (auto simp: tcp_rep_def)
  have own: "owned_wbs (ss_heap ss) (low ?s @ get_list (other PRIORITY_LOW) ?s)" using rep h by (simp add: tcp_rep_def)
  obtain r res' ss' ds qs off' where s: "send_wbs_tcp (low ?s) PRIORITY_LOW i res ss = Some (r, res', ss')"
      "map snd L = ds @ qs" "w_env (ss_world ss') = w_env (ss_world ss)" "soi ss' = soi ss" "off' \<le> length (concat qs)"
      "written (fd ?s) (ss_world ss') = (B @ packets_bytes D) @ concat ds @ take off' (concat qs)"
      "r = SOCKET_CLOSE \<and> list_closed i ss ss' \<or> r = - 1 \<and> list_sent PRIORITY_LOW i (fd ?s) off' qs ss ss'"
    using send_wbs_tcp_stream [OF _ _ _ own fair refl, of 0 "map snd L" "B @ packets_bytes D" res] rep w
    by (auto simp: tcp_rep_def wire_def)
  obtain D1 L1 where L: "L = D1 @ L1" "map snd D1 = ds" "map snd L1 = qs"
    using s(2) by (auto simp: map_eq_append_conv)
  have sl: "send_list PRIORITY_LOW i res ss = Some (r, res', ss')"
    using s(1) rep by (simp add: send_list_def send_list_tcp_def tcp_rep_def)
  have wr: "written (fd ?s) (ss_world ss') = B @ packets_bytes (D @ D1) @ take off' (packets_bytes L1)"
    using s(6) L by simp
  from s(7) show ?thesis
  proof
    assume "r = SOCKET_CLOSE \<and> list_closed i ss ss'"
    then show ?thesis using sl L(1) wr list_closed_sock [OF _ s(3,4)] by (auto simp: list_closed_def)
  next
    assume c: "r = - 1 \<and> list_sent PRIORITY_LOW i (fd ?s) off' qs ss ss'"
    then obtain wbs' A where a: "slot ss' = (slot ss)(i := ?s\<lparr>wb_size := wb_size ?s +
         int (length (written (fd ?s) (ss_world ss))) - int (length (written (fd ?s) (ss_world ss'))), low := wbs'\<rparr>)"
        "list_rep (ss_heap ss') off' wbs' qs" "ss_heap ss' = drop_blocks A (ss_heap ss)"
        "owned_wbs (ss_heap ss') (wbs' @ high ?s)" "A \<union> wb_buffer ` set wbs' = wb_buffer ` set (low ?s)"
      by (auto simp: list_sent_def)
    have fr: "frees i ss ss'"
      unfolding frees_def queued_def using a(1,3,5) h by (intro exI [of _ A]) (auto simp: image_Un)
    have sz: "wb_size (slot ss' i) = int (length (packets_bytes L1)) - int off'"
      using a(1) rep L w wr s(5) by (simp add: wire_def tcp_rep_def)
    have same: "same_sock i ss ss'" "stype (slot ss' i) = stype ?s" "high (slot ss' i) = []" "low (slot ss' i) = wbs'"
      using a(1) s(3,4) h fr by (simp_all add: same_sock_def)
    have "\<exists>H2 L2. L1 = H2 @ L2 \<and> (if list_uncomplete wbs' then \<exists>ss''. raise_uncomplete i ss' = Some ss'' \<and>
            tcp_rep ss'' i H2 off' L2 \<and> same_sock i ss ss'' \<and> stype (slot ss'' i) = stype (slot ss i) \<and>
            ss_world ss'' = ss_world ss' else H2 = [] \<and> off' = 0 \<and> tcp_rep ss' i [] 0 L2)"
    proof (cases wbs')
      case Nil
      then have "L1 = []" "off' = 0" using a(2) L(3) by simp_all
      then show ?thesis
        using Nil rep a h L sz by (auto simp: list_uncomplete_def tcp_rep_def)
    next
      case (Cons wb rest)
      obtain p qs' where q: "qs = p # qs'" "wb_rep (ss_heap ss') off' wb p" "list_rep (ss_heap ss') 0 rest qs'"
        using a(2) Cons by (auto simp: list_rep_cons)
      obtain pp L2 where L2: "L1 = pp # L2" "snd pp = p" "map snd L2 = qs'" using q(1) L(3) by auto
      have low: "\<forall>x\<in>set L2. fst x = PRIORITY_LOW" using rep L(1) L2(1) by (auto simp: tcp_rep_def)
      show ?thesis
      proof (cases "off' = 0")
        case True
        then have "\<not> list_uncomplete wbs'" using q(2) Cons by (simp add: list_uncomplete_def wb_rep_def)
        moreover have "tcp_rep ss' i [] 0 L1"
          using True rep a h L sz by (auto simp: tcp_rep_def)
        ultimately show ?thesis using True by (intro exI [of _ "[]"] exI [of _ L1]) simp
      next
        case False
        let ?ss = "upd_slot i (\<lambda>s. s\<lparr>low := rest, high := [wb]\<rparr>) ss'"
        have "list_uncomplete wbs'" using False q(2) Cons by (simp add: list_uncomplete_def wb_rep_def)
        moreover have "raise_uncomplete i ss' = Some ?ss"
          using same(3,4) Cons by (simp add: raise_uncomplete_def)
        moreover have "tcp_rep ?ss i [pp] off' L2"
          using rep a(1,4) h Cons q L2 low sz by (auto simp: tcp_rep_def list_rep_cons owned_wbs_append owned_wbs_cons)
        moreover have "same_sock i ss' ?ss"
          using same(3,4) Cons by (auto simp: same_sock_def frees_def queued_def intro!: exI [of _ "{}"])
        then have "same_sock i ss ?ss" "stype (slot ?ss i) = stype ?s"
          using same same_sock_trans by simp_all
        ultimately show ?thesis using L2(1) by (intro exI [of _ "[pp]"] exI [of _ L2]) auto
      qed
    qed
    then show ?thesis
      using sl L(1) wr c same
      by (intro exI [of _ r] exI [of _ res'] exI [of _ ss'] exI [of _ D1] exI [of _ L1] exI [of _ off']) auto
  qed
qed

lemma force_close_sock:
  assumes "tcp_rep ss i H off L"
  obtains res' ss' where "force_close i res ss = Some (res', ss')" "closed_sock i ss ss'"
    "\<forall>f. written f (ss_world ss') = written f (ss_world ss)"
proof -
  have "stype (slot ss i) \<notin> {SOCKET_TYPE_INVALID, SOCKET_TYPE_RESERVE}"
      "owned_wbs (ss_heap ss) (high (slot ss i) @ low (slot ss i))"
    using assms by (auto simp: tcp_rep_def)
  then obtain ss' where f: "force_close i res ss = Some (\<lparr>msg_id = sid (slot ss i), msg_opaque = opaque (slot ss i),
      msg_ud = 0, msg_data = None\<rparr>, ss')"
    "slot ss' = (slot ss)(i := (slot ss i)\<lparr>high := [], low := [], stype := SOCKET_TYPE_INVALID\<rparr>)"
    "ss_heap ss' = drop_blocks (wb_buffer ` set (high (slot ss i) @ low (slot ss i))) (ss_heap ss)"
    "w_env (ss_world ss') = w_env (ss_world ss)" "soi ss' = soi ss" "\<forall>f. written f (ss_world ss') = written f (ss_world ss)"
    by (rule force_close_owned [where result = res])
  then have "closed_sock i ss ss'"
    by (simp add: closed_sock_def same_sock_def frees_def queued_def)
  then show ?thesis using that f(1,6) by blast
qed

lemma tcp_rep_high_empty: "tcp_rep ss i H off L \<Longrightarrow> high (slot ss i) = [] \<longleftrightarrow> H = []"
  by (cases H; cases "high (slot ss i)") (auto simp: tcp_rep_def)

lemma tcp_rep_low_empty: "tcp_rep ss i H off L \<Longrightarrow> low (slot ss i) = [] \<longleftrightarrow> L = []"
  by (cases L; cases "low (slot ss i)") (auto simp: tcp_rep_def)

lemma tcp_rep_off: "tcp_rep ss i H off L \<Longrightarrow> off \<le> length (packets_bytes H) \<and> (H = [] \<longrightarrow> off = 0)"
  using list_rep_off by (fastforce simp: tcp_rep_def)

lemma tcp_rep_low_complete: "tcp_rep ss i H off L \<Longrightarrow> \<not> list_uncomplete (low (slot ss i))"
  by (cases "low (slot ss i)") (auto simp: tcp_rep_def list_uncomplete_def list_rep_cons wb_rep_def)

lemma wire_append: "off \<le> length (packets_bytes H) \<Longrightarrow> wire ss i B D (H @ L) off = wire ss i B D H off"
  by (simp add: wire_def)

text \<open>What \<open>send_buffer\<close> does once the high list is empty.\<close>

definition send_buffer_low ::
    "nat \<Rightarrow> socket_message \<Rightarrow> socket_server \<Rightarrow> (int \<times> socket_message \<times> socket_server) option" where
  "send_buffer_low i result ss =
     (if low (slot ss i) \<noteq> [] then do {
        (r, result, ss) \<leftarrow> send_list PRIORITY_LOW i result ss;
        (if r = SOCKET_CLOSE then Some (SOCKET_CLOSE, result, ss)
         else if list_uncomplete (low (slot ss i)) then do {
           ss \<leftarrow> raise_uncomplete i ss;
           Some (- 1, result, ss)
         }
         else Some (- 1, result, ss))
      }
      else do {
        let ss = sp_write (fd (slot ss i)) i False ss;
        (if stype (slot ss i) = SOCKET_TYPE_HALFCLOSE then do {
           (result, ss) \<leftarrow> force_close i result ss;
           Some (SOCKET_CLOSE, result, ss)
         }
         else Some (- 1, result, ss))
      })"

lemma send_buffer_split:
  "\<not> list_uncomplete (low (slot ss i)) \<Longrightarrow> send_list PRIORITY_HIGH i res ss = Some (- 1, res1, ss1) \<Longrightarrow>
   send_buffer i res ss = (if high (slot ss1 i) = [] then send_buffer_low i res1 ss1 else Some (- 1, res1, ss1))"
  by (simp add: send_buffer_def send_buffer_low_def socket_codes)

definition flush_post ::
    "nat \<Rightarrow> byte list \<Rightarrow> packets \<Rightarrow> packets \<Rightarrow> socket_server \<Rightarrow> int \<Rightarrow> socket_server \<Rightarrow> bool" where
  "flush_post i B D Q ss r ss' \<longleftrightarrow> (\<exists>D' H' off' L'. D @ Q = D' @ H' @ L' \<and> same_sock i ss ss' \<and>
     written (fd (slot ss i)) (ss_world ss') = B @ packets_bytes D' @ take off' (packets_bytes (H' @ L')) \<and>
     (r = - 1 \<and> stype (slot ss' i) = stype (slot ss i) \<and> tcp_rep ss' i H' off' L' \<and> wire ss' i B D' H' off' \<or>
      r = SOCKET_CLOSE \<and> closed_sock i ss ss' \<and>
        (no_write_error (w_env (ss_world ss)) \<longrightarrow> H' @ L' = [] \<and> stype (slot ss i) = SOCKET_TYPE_HALFCLOSE)))"

lemma flush_post_via:
  assumes "flush_post i B D1 Q1 ss1 r ss'" "same_sock i ss ss1" "stype (slot ss1 i) = stype (slot ss i)" "D @ Q = D1 @ Q1"
  shows "flush_post i B D Q ss r ss'"
proof -
  have e: "fd (slot ss1 i) = fd (slot ss i)" "w_env (ss_world ss1) = w_env (ss_world ss)"
    using assms(2) by (simp_all add: same_sock_def)
  obtain D' H' off' L' where "D1 @ Q1 = D' @ H' @ L'" "same_sock i ss1 ss'"
     "written (fd (slot ss1 i)) (ss_world ss') = B @ packets_bytes D' @ take off' (packets_bytes (H' @ L'))"
     "r = - 1 \<and> stype (slot ss' i) = stype (slot ss1 i) \<and> tcp_rep ss' i H' off' L' \<and> wire ss' i B D' H' off' \<or>
      r = SOCKET_CLOSE \<and> closed_sock i ss1 ss' \<and>
        (no_write_error (w_env (ss_world ss1)) \<longrightarrow> H' @ L' = [] \<and> stype (slot ss1 i) = SOCKET_TYPE_HALFCLOSE)"
    using assms(1) unfolding flush_post_def by blast
  then show ?thesis
    unfolding flush_post_def using assms(2-4) e same_sock_trans [of i ss ss1 ss']
    by (intro exI [of _ D'] exI [of _ H'] exI [of _ off'] exI [of _ L']) (auto simp: closed_sock_def)
qed

lemma sp_write_sock:
  assumes "tcp_rep ss i H off L"
  shows "tcp_rep (sp_write f j e ss) i H off L" "same_sock i ss (sp_write f j e ss)"
    "written g (ss_world (sp_write f j e ss)) = written g (ss_world ss)" "slot (sp_write f j e ss) = slot ss"
    "wire (sp_write f j e ss) i B D H' off' = wire ss i B D H' off'"
proof -
  have q: "queued i (sp_write f j e ss) = queued i ss" by (simp add: queued_def sp_write_def)
  show "tcp_rep (sp_write f j e ss) i H off L" "written g (ss_world (sp_write f j e ss)) = written g (ss_world ss)"
      "slot (sp_write f j e ss) = slot ss" "wire (sp_write f j e ss) i B D H' off' = wire ss i B D H' off'"
    using assms by (simp_all add: tcp_rep_def sp_write_def sys_do_def wire_def)
  show "same_sock i ss (sp_write f j e ss)"
    using q by (auto simp: same_sock_def sp_write_def sys_do_def frees_def intro!: exI [of _ "{}"])
qed

lemma send_buffer_low_post:
  assumes rep: "tcp_rep ss i [] 0 L" and w: "wire ss i B D [] 0" and fair: "eintr_fair (w_env (ss_world ss))"
  shows "\<exists>r res' ss'. send_buffer_low i res ss = Some (r, res', ss') \<and> flush_post i B D L ss r ss'"
proof (cases "L = []")
  case False
  obtain r res' ss' D1 L1 off1 where l: "send_list PRIORITY_LOW i res ss = Some (r, res', ss')" "L = D1 @ L1"
      "written (fd (slot ss i)) (ss_world ss') = B @ packets_bytes (D @ D1) @ take off1 (packets_bytes L1)"
      "r = SOCKET_CLOSE \<and> closed_sock i ss ss' \<and> \<not> no_write_error (w_env (ss_world ss)) \<or>
       r = - 1 \<and> same_sock i ss ss' \<and> stype (slot ss' i) = stype (slot ss i) \<and> high (slot ss' i) = [] \<and>
       (\<exists>H2 L2. L1 = H2 @ L2 \<and> (if list_uncomplete (low (slot ss' i)) then \<exists>ss''. raise_uncomplete i ss' = Some ss'' \<and>
            tcp_rep ss'' i H2 off1 L2 \<and> same_sock i ss ss'' \<and> stype (slot ss'' i) = stype (slot ss i) \<and>
            ss_world ss'' = ss_world ss' else H2 = [] \<and> off1 = 0 \<and> tcp_rep ss' i [] 0 L2))"
    using send_low_stream [OF rep w fair, of res] by blast
  have ne: "low (slot ss i) \<noteq> []" using False tcp_rep_low_empty [OF rep] by simp
  from l(4) show ?thesis
  proof (elim disjE conjE exE)
    assume c: "r = SOCKET_CLOSE" "closed_sock i ss ss'" "\<not> no_write_error (w_env (ss_world ss))"
    then have "flush_post i B D L ss r ss'"
      unfolding flush_post_def using l(2,3)
      by (intro exI [of _ "D @ D1"] exI [of _ "[]"] exI [of _ off1] exI [of _ L1]) (simp add: closed_sock_def)
    then show ?thesis using c l(1) ne by (simp add: send_buffer_low_def)
  next
    fix H2 L2
    assume c: "r = - 1" "same_sock i ss ss'" "stype (slot ss' i) = stype (slot ss i)" "L1 = H2 @ L2"
      and d: "if list_uncomplete (low (slot ss' i)) then \<exists>ss''. raise_uncomplete i ss' = Some ss'' \<and>
            tcp_rep ss'' i H2 off1 L2 \<and> same_sock i ss ss'' \<and> stype (slot ss'' i) = stype (slot ss i) \<and>
            ss_world ss'' = ss_world ss' else H2 = [] \<and> off1 = 0 \<and> tcp_rep ss' i [] 0 L2"
    show ?thesis
    proof (cases "list_uncomplete (low (slot ss' i))")
      case True
      then obtain ss'' where ss'': "raise_uncomplete i ss' = Some ss''" "tcp_rep ss'' i H2 off1 L2" "same_sock i ss ss''"
          "stype (slot ss'' i) = stype (slot ss i)" "ss_world ss'' = ss_world ss'"
        using d by auto
      have "fd (slot ss'' i) = fd (slot ss i)" using ss''(3) by (simp add: same_sock_def)
      then have "flush_post i B D L ss r ss''"
        unfolding flush_post_def using l(2,3) c(1,4) ss'' tcp_rep_off [OF ss''(2)]
        by (intro exI [of _ "D @ D1"] exI [of _ H2] exI [of _ off1] exI [of _ L2]) (simp add: wire_def)
      then show ?thesis using c(1) l(1) ne True ss''(1) by (simp add: send_buffer_low_def socket_codes)
    next
      case u: False
      have "fd (slot ss' i) = fd (slot ss i)" using c(2) by (simp add: same_sock_def)
      then have "flush_post i B D L ss r ss'"
        unfolding flush_post_def using l(2,3) c d u
        by (intro exI [of _ "D @ D1"] exI [of _ "[]"] exI [of _ 0] exI [of _ L2]) (simp add: wire_def)
      then show ?thesis using c(1) l(1) ne u by (simp add: send_buffer_low_def socket_codes)
    qed
  qed
next
  case True
  let ?ss = "sp_write (fd (slot ss i)) i False ss"
  note sp = sp_write_sock(1) [OF rep, where f = "fd (slot ss i)" and j = i and e = False]
    sp_write_sock(2) [OF rep, where f = "fd (slot ss i)" and j = i and e = False]
    sp_write_sock(3) [OF rep, where f = "fd (slot ss i)" and j = i and e = False]
    sp_write_sock(4) [OF rep, where f = "fd (slot ss i)" and j = i and e = False]
    sp_write_sock(5) [OF rep, where f = "fd (slot ss i)" and j = i and e = False]
  have e: "low (slot ss i) = []" using True tcp_rep_low_empty [OF rep] by simp
  show ?thesis
  proof (cases "stype (slot ss i) = SOCKET_TYPE_HALFCLOSE")
    case False
    have "flush_post i B D L ss (- 1) ?ss"
      unfolding flush_post_def using True w sp
      by (intro exI [of _ D] exI [of _ "[]"] exI [of _ 0] exI [of _ "[]"]) (simp add: wire_def)
    then show ?thesis using e False sp(4) by (simp add: send_buffer_low_def)
  next
    case h: True
    obtain res' ss' where f: "force_close i res ?ss = Some (res', ss')" "closed_sock i ?ss ss'"
        "\<forall>f. written f (ss_world ss') = written f (ss_world ?ss)"
      using force_close_sock [OF sp(1)] by metis
    have "closed_sock i ss ss'" using f(2) same_sock_trans [OF sp(2)] by (simp add: closed_sock_def)
    then have "flush_post i B D L ss SOCKET_CLOSE ss'"
      unfolding flush_post_def using True w sp f(3) h
      by (intro exI [of _ D] exI [of _ "[]"] exI [of _ 0] exI [of _ "[]"]) (simp add: wire_def closed_sock_def)
    then show ?thesis using e h f(1) sp(4) by (simp add: send_buffer_low_def)
  qed
qed

lemma send_buffer_stream:
  assumes rep: "tcp_rep ss i H off L" and w: "wire ss i B D H off" and fair: "eintr_fair (w_env (ss_world ss))"
  shows "\<exists>r res' ss'. send_buffer i res ss = Some (r, res', ss') \<and> flush_post i B D (H @ L) ss r ss'"
proof -
  let ?f = "fd (slot ss i)"
  have low: "\<not> list_uncomplete (low (slot ss i))" by (rule tcp_rep_low_complete [OF rep])
  obtain r1 res1 ss1 D1 H1 off1 where h: "send_list PRIORITY_HIGH i res ss = Some (r1, res1, ss1)" "H = D1 @ H1"
      "written ?f (ss_world ss1) = B @ packets_bytes (D @ D1) @ take off1 (packets_bytes H1)"
      "r1 = SOCKET_CLOSE \<and> closed_sock i ss ss1 \<and> \<not> no_write_error (w_env (ss_world ss)) \<or>
       r1 = - 1 \<and> same_sock i ss ss1 \<and> stype (slot ss1 i) = stype (slot ss i) \<and> tcp_rep ss1 i H1 off1 L"
    using send_list_high_stream [OF rep w fair, of res] by blast
  from h(4) show ?thesis
  proof (elim disjE conjE)
    assume c: "r1 = SOCKET_CLOSE" "closed_sock i ss ss1" "\<not> no_write_error (w_env (ss_world ss))"
    have "flush_post i B D (H @ L) ss r1 ss1"
      unfolding flush_post_def using c h(2,3)
      by (intro exI [of _ "D @ D1"] exI [of _ H1] exI [of _ "min off1 (length (packets_bytes H1))"] exI [of _ L])
         (simp add: closed_sock_def min_def)
    then show ?thesis using c h(1) low by (simp add: send_buffer_def)
  next
    assume c: "r1 = - 1" "same_sock i ss ss1" "stype (slot ss1 i) = stype (slot ss i)" "tcp_rep ss1 i H1 off1 L"
    have fd1: "fd (slot ss1 i) = ?f" "w_env (ss_world ss1) = w_env (ss_world ss)" using c(2) by (simp_all add: same_sock_def)
    have w1: "wire ss1 i B (D @ D1) H1 off1" using h(3) fd1 by (simp add: wire_def)
    have sp: "send_buffer i res ss = (if H1 = [] then send_buffer_low i res1 ss1 else Some (- 1, res1, ss1))"
      using send_buffer_split [OF low] h(1) c(1) tcp_rep_high_empty [OF c(4)] by simp
    show ?thesis
    proof (cases "H1 = []")
      case False
      have "flush_post i B D (H @ L) ss (- 1) ss1"
        unfolding flush_post_def using c h(2) w1 tcp_rep_off [OF c(4)] fd1
        by (intro exI [of _ "D @ D1"] exI [of _ H1] exI [of _ off1] exI [of _ L]) (simp add: wire_def)
      then show ?thesis using False sp by simp
    next
      case True
      then have off1: "off1 = 0" using tcp_rep_off [OF c(4)] by simp
      have "eintr_fair (w_env (ss_world ss1))" using fair fd1 by simp
      then obtain r res' ss' where "send_buffer_low i res1 ss1 = Some (r, res', ss')" "flush_post i B (D @ D1) L ss1 r ss'"
        using send_buffer_low_post [of ss1 i L B "D @ D1" res1] c(4) w1 True off1 by auto
      then show ?thesis using sp True h(2) flush_post_via [OF _ c(2,3), of B "D @ D1" L r ss' D "H @ L"] by auto
    qed
  qed
qed

section \<open>Sending a packet\<close>

text \<open>The blocks that do not belong to the queue of the socket.\<close>

definition outside :: "nat \<Rightarrow> socket_server \<Rightarrow> heap" where
  "outside i ss = drop_blocks (queued i ss) (ss_heap ss)"

lemma frees_outside: "frees i ss ss' \<Longrightarrow> outside i ss' = outside i ss"
  by (auto simp: frees_def outside_def drop_blocks_def fun_eq_iff)

lemma frees_dom: "frees i ss ss' \<Longrightarrow> dom (ss_heap ss') \<subseteq> dom (ss_heap ss)"
  by (auto simp: frees_def drop_blocks_def split: if_splits)

definition alloc_block :: "nat \<Rightarrow> byte list \<Rightarrow> socket_server \<Rightarrow> socket_server" where
  "alloc_block a bs ss = ss\<lparr>ss_heap := (ss_heap ss)(a \<mapsto> bs)\<rparr>"

lemma alloc_block_simps [simp]: "slot (alloc_block a bs ss) = slot ss" "soi (alloc_block a bs ss) = soi ss"
  "ss_world (alloc_block a bs ss) = ss_world ss" "ss_heap (alloc_block a bs ss) = (ss_heap ss)(a \<mapsto> bs)"
  "queued i (alloc_block a bs ss) = queued i ss"
  by (simp_all add: alloc_block_def queued_def)

lemma owned_wbs_alloc:
  assumes "owned_wbs h wbs" "h a = None"
  shows "owned_wbs (h(a \<mapsto> bs)) wbs" "a \<notin> wb_buffer ` set wbs"
proof -
  have "wb_buffer wb \<noteq> a" if "wb \<in> set wbs" for wb
    using assms that unfolding owned_wbs_def by blast
  then show "owned_wbs (h(a \<mapsto> bs)) wbs" "a \<notin> wb_buffer ` set wbs" using assms(1) by (auto simp: owned_wbs_def)
qed

lemma list_rep_alloc:
  assumes "a \<notin> wb_buffer ` set wbs"
  shows "list_rep (h(a \<mapsto> bs)) off wbs ps = list_rep h off wbs ps"
proof -
  have "wb_rep (h(a \<mapsto> bs)) o' wb p = wb_rep h o' wb p" if "wb \<in> set wbs" for o' wb p
  proof -
    have "wb_buffer wb \<noteq> a" using assms that by auto
    then show ?thesis by (simp add: wb_rep_def)
  qed
  then show ?thesis using assms by (induction wbs arbitrary: off ps) (auto simp: list_rep_cons)
qed

lemma tcp_rep_alloc:
  assumes "tcp_rep ss i H off L" "ss_heap ss a = None"
  shows "tcp_rep (alloc_block a bs ss) i H off L" "a \<notin> queued i ss"
proof -
  have own: "owned_wbs (ss_heap ss) (high (slot ss i) @ low (slot ss i))" using assms(1) by (simp add: tcp_rep_def)
  note a = owned_wbs_alloc [OF own assms(2)]
  then have "a \<notin> wb_buffer ` set (high (slot ss i))" "a \<notin> wb_buffer ` set (low (slot ss i))" by (auto simp: image_Un)
  then show "tcp_rep (alloc_block a bs ss) i H off L" using assms(1) a by (simp add: tcp_rep_def list_rep_alloc)
  show "a \<notin> queued i ss" using a(2) by (simp add: queued_def)
qed

lemma list_rep_append:
  "list_rep h off wbs ps \<Longrightarrow> wb_rep h (if wbs = [] then o' else 0) wb p \<Longrightarrow>
   list_rep h (if wbs = [] then o' else off) (wbs @ [wb]) (ps @ [p])"
  by (cases wbs) (auto simp: list_rep_cons list_rep_zero list_all2_appendI)

definition new_wb :: "nat \<Rightarrow> byte list \<Rightarrow> nat \<Rightarrow> write_buffer" where
  "new_wb a bs n = \<lparr>wb_buffer = a, wb_ptr = (a, n), wb_sz = int (length bs) - int n, wb_userobject = False,
     wb_udp_address = []\<rparr>"

lemma append_plain:
  "append_sendbuffer_to l i \<lparr>rs_id = k, rs_sz = int (length bs), rs_buffer = a\<rparr> (int n) [] ss =
   Some (upd_slot i (\<lambda>s. set_list l (get_list l s @ [new_wb a bs n])
     (s\<lparr>wb_size := wb_size s + (int (length bs) - int n)\<rparr>)) ss)"
  by (simp add: append_sendbuffer_to_def send_object_init_def new_wb_def)

lemma tcp_rep_append:
  assumes rep: "tcp_rep ss i H off L" and a: "ss_heap ss a = None" and n: "n \<le> length bs"
    and first: "l = PRIORITY_HIGH \<and> H = [] \<or> n = 0" and low: "l = PRIORITY_LOW \<longrightarrow> t = PRIORITY_LOW"
  shows "tcp_rep (upd_slot i (\<lambda>s. set_list l (get_list l s @ [new_wb a bs n])
       (s\<lparr>wb_size := wb_size s + (int (length bs) - int n)\<rparr>)) (alloc_block a bs ss)) i
     (if l = PRIORITY_HIGH then H @ [(t, bs)] else H) (if l = PRIORITY_HIGH \<and> H = [] then n else off)
     (if l = PRIORITY_HIGH then L else L @ [(t, bs)])"
proof -
  note rep1 = tcp_rep_alloc [OF rep a]
  have wb: "wb_rep ((ss_heap ss)(a \<mapsto> bs)) n (new_wb a bs n) bs" using n by (simp add: wb_rep_def new_wb_def)
  have notin: "a \<notin> wb_buffer ` set (high (slot ss i) @ low (slot ss i))" using rep1(2) by (simp add: queued_def)
  have own: "owned_wbs ((ss_heap ss)(a \<mapsto> bs)) (high (slot ss i) @ low (slot ss i))"
    using rep1(1) [of bs] by (simp add: tcp_rep_def)
  have newb: "wb_buffer (new_wb a bs n) = a" "\<not> wb_userobject (new_wb a bs n)" by (simp_all add: new_wb_def)
  have he: "high (slot ss i) = [] \<longleftrightarrow> H = []" by (rule tcp_rep_high_empty [OF rep])
  show ?thesis
  proof (cases l)
    case PRIORITY_HIGH
    have "list_rep ((ss_heap ss)(a \<mapsto> bs)) (if H = [] then n else off) (high (slot ss i) @ [new_wb a bs n]) (map snd H @ [bs])"
      using list_rep_append [of "(ss_heap ss)(a \<mapsto> bs)" off "high (slot ss i)" "map snd H" n "new_wb a bs n" bs] rep1(1) [of bs] wb
        first PRIORITY_HIGH he by (auto simp: tcp_rep_def split: if_splits)
    moreover have "owned_wbs ((ss_heap ss)(a \<mapsto> bs)) ((high (slot ss i) @ [new_wb a bs n]) @ low (slot ss i))"
      using own notin newb by (auto simp: owned_wbs_append owned_wbs_cons owned_wbs_def image_Un)
    moreover have "off = 0" if "H = []" using tcp_rep_off [OF rep] that by simp
    ultimately show ?thesis
      using PRIORITY_HIGH first rep1(1) [of bs] by (auto simp: tcp_rep_def)
  next
    case PRIORITY_LOW
    then have n0: "n = 0" and t: "t = PRIORITY_LOW" using first low by auto
    have "list_rep ((ss_heap ss)(a \<mapsto> bs)) 0 (low (slot ss i) @ [new_wb a bs 0]) (map snd L @ [bs])"
      using rep1(1) [of bs] wb n0 by (auto simp: tcp_rep_def list_rep_zero list_all2_appendI)
    moreover have "owned_wbs ((ss_heap ss)(a \<mapsto> bs)) (high (slot ss i) @ (low (slot ss i) @ [new_wb a bs 0]))"
      using own notin newb n0 by (auto simp: owned_wbs_append owned_wbs_cons owned_wbs_def image_Un)
    ultimately show ?thesis
      using PRIORITY_LOW rep1(1) [of bs] n0 t by (auto simp: tcp_rep_def)
  qed
qed

definition kept :: "nat \<Rightarrow> socket_server \<Rightarrow> socket_server \<Rightarrow> bool" where
  "kept i ss ss' \<longleftrightarrow> sid (slot ss' i) = sid (slot ss i) \<and> fd (slot ss' i) = fd (slot ss i) \<and>
     opaque (slot ss' i) = opaque (slot ss i) \<and> soi ss' = soi ss \<and>
     w_env (ss_world ss') = w_env (ss_world ss) \<and> (\<forall>j. j \<noteq> i \<longrightarrow> slot ss' j = slot ss j)"

lemma same_sock_kept: "same_sock i ss ss' \<Longrightarrow> kept i ss ss' \<and> outside i ss' = outside i ss \<and> dom (ss_heap ss') \<subseteq> dom (ss_heap ss)"
  using frees_outside [of i ss ss'] frees_dom [of i ss ss'] by (simp add: same_sock_def kept_def)

lemma kept_trans: "kept i a b \<Longrightarrow> kept i b c \<Longrightarrow> kept i a c"
  by (simp add: kept_def)

text \<open>
  What one operation leaves: the packets of the socket are still in the order \<open>Q\<close>, those of \<open>D\<close> are on the
  wire, and the rest is queued; or the socket is closed.
\<close>

definition op_post ::
    "nat \<Rightarrow> byte list \<Rightarrow> packets \<Rightarrow> socket_server \<Rightarrow> int \<Rightarrow> socket_server \<Rightarrow> bool" where
  "op_post i B Q ss r ss' \<longleftrightarrow> (\<exists>D H off L. Q = D @ H @ L \<and> kept i ss ss' \<and>
     written (fd (slot ss i)) (ss_world ss') = B @ packets_bytes D @ take off (packets_bytes (H @ L)) \<and>
     (r = - 1 \<and> outside i ss' = outside i ss \<and> tcp_rep ss' i H off L \<and> wire ss' i B D H off \<or>
      r = SOCKET_CLOSE \<and> stype (slot ss' i) = SOCKET_TYPE_INVALID \<and> high (slot ss' i) = [] \<and> low (slot ss' i) = [] \<and>
        (no_write_error (w_env (ss_world ss)) \<longrightarrow> H @ L = [] \<and> outside i ss' = outside i ss)))"

lemma flush_op_post: "flush_post i B D Q ss r ss' \<Longrightarrow> op_post i B (D @ Q) ss r ss' \<and> dom (ss_heap ss') \<subseteq> dom (ss_heap ss) \<and>
    (r = - 1 \<longrightarrow> stype (slot ss' i) = stype (slot ss i))"
proof -
  assume "flush_post i B D Q ss r ss'"
  then obtain D' H' off' L' where p: "D @ Q = D' @ H' @ L'" "same_sock i ss ss'"
     "written (fd (slot ss i)) (ss_world ss') = B @ packets_bytes D' @ take off' (packets_bytes (H' @ L'))"
     "r = - 1 \<and> stype (slot ss' i) = stype (slot ss i) \<and> tcp_rep ss' i H' off' L' \<and> wire ss' i B D' H' off' \<or>
      r = SOCKET_CLOSE \<and> closed_sock i ss ss' \<and>
        (no_write_error (w_env (ss_world ss)) \<longrightarrow> H' @ L' = [] \<and> stype (slot ss i) = SOCKET_TYPE_HALFCLOSE)"
    unfolding flush_post_def by blast
  have "op_post i B (D @ Q) ss r ss'"
    unfolding op_post_def using p same_sock_kept [OF p(2)]
    by (intro exI [of _ D'] exI [of _ H'] exI [of _ off'] exI [of _ L']) (auto simp: closed_sock_def)
  then show ?thesis using p(4) same_sock_kept [OF p(2)] by (auto simp: SOCKET_CLOSE_def)
qed

lemma outside_alloc:
  assumes "ss_heap ss a = None" "queued i ss' = insert a (queued i ss)" "ss_heap ss' = (ss_heap ss)(a \<mapsto> bs)"
  shows "outside i ss' = outside i ss"
  using assms by (auto simp: outside_def drop_blocks_def fun_eq_iff)

lemma outside_free:
  assumes "ss_heap ss a = None" "queued i ss' = queued i ss" "ss_heap ss' = drop_blocks {a} ((ss_heap ss)(a \<mapsto> bs))"
  shows "outside i ss' = outside i ss"
  using assms by (auto simp: outside_def drop_blocks_def fun_eq_iff)

abbreviation send_of :: "u32 \<Rightarrow> nat \<Rightarrow> byte list \<Rightarrow> request_send" where
  "send_of k a bs \<equiv> \<lparr>rs_id = k, rs_sz = int (length bs), rs_buffer = a\<rparr>"

text \<open>A packet goes behind everything, or behind the high list only.\<close>

fun enqueue :: "priority \<Rightarrow> byte list \<Rightarrow> packets \<Rightarrow> packets \<Rightarrow> packets" where
  "enqueue PRIORITY_HIGH bs H L = H @ [(PRIORITY_HIGH, bs)] @ L"
| "enqueue PRIORITY_LOW bs H L = H @ L @ [(PRIORITY_LOW, bs)]"

lemma send_socket_queue:
  assumes rep: "tcp_rep ss i H off L" and w: "wire ss i B D H off" and a: "ss_heap ss a = None"
    and c: "stype (slot ss i) = SOCKET_TYPE_CONNECTED" and k: "sid (slot ss i) = k" "i = HASH_ID k" and ne: "H @ L \<noteq> []"
  shows "\<exists>ss'. send_socket (send_of k a bs) res l None (alloc_block a bs ss) = Some (- 1, res, ss') \<and>
    op_post i B (D @ enqueue l bs H L) ss (- 1) ss' \<and> dom (ss_heap ss') \<subseteq> insert a (dom (ss_heap ss)) \<and>
    stype (slot ss' i) = SOCKET_TYPE_CONNECTED"
proof -
  define ss' where "ss' = upd_slot i (\<lambda>s. set_list l (get_list l s @ [new_wb a bs 0])
       (s\<lparr>wb_size := wb_size s + (int (length bs) - int 0)\<rparr>)) (alloc_block a bs ss)"
  have tcp: "sprotocol (slot ss i) = PROTOCOL_TCP" using rep by (simp add: tcp_rep_def)
  have busy: "\<not> send_buffer_empty (slot ss i)"
    using ne tcp_rep_high_empty [OF rep] tcp_rep_low_empty [OF rep] by (auto simp: send_buffer_empty_def)
  have run: "send_socket (send_of k a bs) res l None (alloc_block a bs ss) = Some (- 1, res, ss')"
    using k c tcp busy append_plain [of l i k bs a 0 "alloc_block a bs ss"]
    by (cases l) (simp_all add: send_socket_def send_object_init_def append_sendbuffer_def append_sendbuffer_low_def ss'_def)
  let ?off = "if l = PRIORITY_HIGH \<and> H = [] then 0 else off"
  have rep': "tcp_rep ss' i (if l = PRIORITY_HIGH then H @ [(l, bs)] else H) ?off (if l = PRIORITY_HIGH then L else L @ [(l, bs)])"
    unfolding ss'_def by (rule tcp_rep_append [OF rep a]) auto
  have fields: "kept i ss ss'" "ss_heap ss' = (ss_heap ss)(a \<mapsto> bs)" "queued i ss' = insert a (queued i ss)"
      "stype (slot ss' i) = SOCKET_TYPE_CONNECTED" "ss_world ss' = ss_world ss" "fd (slot ss' i) = fd (slot ss i)"
    using c by (cases l; auto simp: ss'_def kept_def queued_def new_wb_def)+
  have offs: "?off \<le> length (packets_bytes H)" "off \<le> length (packets_bytes H)" "?off = off"
    using tcp_rep_off [OF rep] by auto
  have "wire ss' i B D (if l = PRIORITY_HIGH then H @ [(l, bs)] else H) ?off"
    using w offs fields by (cases l) (simp_all add: wire_def)
  moreover have "written (fd (slot ss i)) (ss_world ss') = B @ packets_bytes D @ take ?off (packets_bytes (enqueue l bs H L))"
    using w offs fields by (cases l) (simp_all add: wire_def)
  ultimately have "op_post i B (D @ enqueue l bs H L) ss (- 1) ss'"
    unfolding op_post_def using rep' fields outside_alloc [OF a fields(3,2)]
    by (intro exI [of _ D] exI [of _ "if l = PRIORITY_HIGH then H @ [(l, bs)] else H"] exI [of _ ?off]
        exI [of _ "if l = PRIORITY_HIGH then L else L @ [(l, bs)]"]) (cases l; simp)
  then show ?thesis using run fields by auto
qed

lemma sys_write_post:
  assumes "sys_write f bs W = (n, e, W')"
  shows "w_env W' = w_env W" "written f W' = written f W @ take (nat n) bs" "n \<le> int (length bs)"
    "n < 0 \<longrightarrow> e \<noteq> EINTR \<longrightarrow> e \<noteq> EAGAIN \<longrightarrow> \<not> no_write_error (w_env W)"
proof -
  have eqs: "n = io_count (a_ret (next_answer W)) (length bs)" "e = a_errno (next_answer W)"
      "W' = sys_step (Sys_Write f (take (nat n) bs)) W"
    using assms by (auto simp: sys_write_def Let_def)
  note bounds = io_count_bounds [of "a_ret (next_answer W)" "length bs"]
  show "w_env W' = w_env W" "written f W' = written f W @ take (nat n) bs" "n \<le> int (length bs)"
    using eqs bounds by simp_all
  show "n < 0 \<longrightarrow> e \<noteq> EINTR \<longrightarrow> e \<noteq> EAGAIN \<longrightarrow> \<not> no_write_error (w_env W)"
    using eqs bounds by (auto simp: no_write_error_def next_answer_def)
qed

lemma send_socket_direct:
  assumes rep: "tcp_rep ss i [] 0 []" and w: "wire ss i B D [] 0" and a: "ss_heap ss a = None"
    and c: "stype (slot ss i) = SOCKET_TYPE_CONNECTED" and k: "sid (slot ss i) = k" "i = HASH_ID k"
  shows "\<exists>r res' ss'. send_socket (send_of k a bs) res l None (alloc_block a bs ss) = Some (r, res', ss') \<and>
    op_post i B (D @ [(l, bs)]) ss r ss' \<and> dom (ss_heap ss') \<subseteq> insert a (dom (ss_heap ss)) \<and>
    (r = - 1 \<longrightarrow> stype (slot ss' i) = SOCKET_TYPE_CONNECTED)"
proof -
  let ?f = "fd (slot ss i)"
  have tcp: "sprotocol (slot ss i) = PROTOCOL_TCP" using rep by (simp add: tcp_rep_def)
  have idle: "high (slot ss i) = []" "low (slot ss i) = []" "send_buffer_empty (slot ss i)"
    using tcp_rep_high_empty [OF rep] tcp_rep_low_empty [OF rep] by (simp_all add: send_buffer_empty_def)
  obtain n e W where sw: "sys_write ?f bs (ss_world ss) = (n, e, W)" by (metis prod.exhaust)
  note wr = sys_write_post [OF sw]
  define ss1 where "ss1 = (alloc_block a bs ss)\<lparr>ss_world := W\<rparr>"
  have wr': "written ?f W = B @ packets_bytes D @ take (nat n) bs" using w wr(2) by (simp add: wire_def)
  have rb: "read_block (a, 0) (int (length bs)) ((ss_heap ss)(a \<mapsto> bs)) = Some bs"
    by (simp add: read_block_def mem_read_def)
  have rep1: "tcp_rep ss1 i [] 0 []" using tcp_rep_alloc(1) [OF rep a, of bs] by (simp add: ss1_def tcp_rep_def)
  note defs = send_socket_def send_object_init_def Let_def
  show ?thesis
  proof (cases "n < 0 \<and> e \<noteq> EINTR \<and> e \<noteq> EAGAIN")
    case True
    obtain res' ss' where fc: "force_close i res ss1 = Some (res', ss')" "closed_sock i ss1 ss'"
        "\<forall>f. written f (ss_world ss') = written f (ss_world ss1)"
      by (rule force_close_sock [OF rep1, where res = res])
    have "send_socket (send_of k a bs) res l None (alloc_block a bs ss) = Some (SOCKET_CLOSE, res', ss')"
      using k c tcp idle rb sw fc(1) True by (simp add: defs ss1_def)
    moreover have "kept i ss ss'" "dom (ss_heap ss') \<subseteq> insert a (dom (ss_heap ss))"
      using same_sock_kept [of i ss1 ss'] fc(2) wr(1) by (auto simp: closed_sock_def kept_def ss1_def)
    moreover have "\<not> no_write_error (w_env (ss_world ss))" using True wr(4) by simp
    ultimately show ?thesis
      unfolding op_post_def using fc wr' True
      by (intro exI [of _ SOCKET_CLOSE] exI [of _ res'] exI [of _ ss'] conjI exI [of _ D] exI [of _ "[(l, bs)]"]
          exI [of _ 0] exI [of _ "[]"]) (auto simp: closed_sock_def ss1_def SOCKET_CLOSE_def)
  next
    case False
    have nn: "(if n < 0 then 0 else n) = int (nat n)" by simp
    show ?thesis
    proof (cases "nat n = length bs")
      case True
      define ss' where "ss' = ss1\<lparr>ss_heap := drop_blocks {a} (ss_heap ss1)\<rparr>"
      have "send_socket (send_of k a bs) res l None (alloc_block a bs ss) = Some (- 1, res, ss')"
        using k c tcp idle rb sw False True nn object_free_plain [of ss1 a]
        by (auto simp: defs ss1_def ss'_def split: if_splits)
      moreover have "outside i ss' = outside i ss"
        by (rule outside_free [OF a]) (simp_all add: ss'_def ss1_def queued_def)
      moreover have "kept i ss ss'" using wr(1) by (simp add: kept_def ss'_def ss1_def)
      moreover have "tcp_rep ss' i [] 0 []" using rep1 idle by (simp add: tcp_rep_def ss'_def ss1_def owned_wbs_def)
      ultimately show ?thesis
        unfolding op_post_def using wr' True c
        by (intro exI [of _ "- 1"] exI [of _ res] exI [of _ ss'] conjI exI [of _ "D @ [(l, bs)]"] exI [of _ "[]"]
            exI [of _ 0] exI [of _ "[]"]) (auto simp: ss'_def ss1_def wire_def drop_blocks_def split: if_splits)
    next
      case part: False
      define ss2 where "ss2 = upd_slot i (\<lambda>s. set_list PRIORITY_HIGH (get_list PRIORITY_HIGH s @ [new_wb a bs (nat n)])
         (s\<lparr>wb_size := wb_size s + (int (length bs) - int (nat n))\<rparr>)) ss1"
      define ss' where "ss' = sp_write ?f i True ss2"
      have ss1: "ss1 = alloc_block a bs (ss\<lparr>ss_world := W\<rparr>)" by (simp add: ss1_def alloc_block_def)
      have app: "append_sendbuffer i (send_of k a bs) (int (nat n)) ss1 = Some ss2"
        using append_plain [of PRIORITY_HIGH i k bs a "nat n" ss1] by (simp add: append_sendbuffer_def ss2_def)
      have "send_socket (send_of k a bs) res l None (alloc_block a bs ss) = Some (- 1, res, ss')"
        using k c tcp idle rb sw False part app unfolding nn [symmetric]
        by (auto simp: defs ss1_def ss'_def)
      moreover have "outside i ss' = outside i ss"
        using idle by (intro outside_alloc [OF a]) (simp_all add: ss'_def ss2_def ss1_def queued_def new_wb_def sp_write_def)
      moreover have "kept i ss ss'" using wr(1) by (simp add: kept_def ss'_def ss2_def ss1_def sp_write_def sys_do_def)
      moreover have rep2: "tcp_rep ss2 i [(l, bs)] (nat n) []"
      proof -
        have "tcp_rep (ss\<lparr>ss_world := W\<rparr>) i [] 0 []" using rep by (simp add: tcp_rep_def)
        from tcp_rep_append [OF this, of a "nat n" bs PRIORITY_HIGH l] show ?thesis
          using a wr(3) by (simp add: ss2_def ss1)
      qed
      moreover have "tcp_rep ss' i [(l, bs)] (nat n) []" unfolding ss'_def by (rule sp_write_sock(1) [OF rep2])
      moreover have "written ?f (ss_world ss') = B @ packets_bytes D @ take (nat n) bs" "fd (slot ss' i) = ?f"
          "stype (slot ss' i) = SOCKET_TYPE_CONNECTED" "ss_heap ss' = (ss_heap ss)(a \<mapsto> bs)"
        using wr' c by (simp_all add: ss'_def sp_write_def sys_do_def ss2_def ss1_def)
      ultimately show ?thesis
        unfolding op_post_def
        by (intro exI [of _ "- 1"] exI [of _ res] exI [of _ ss'] conjI exI [of _ D] exI [of _ "[(l, bs)]"]
            exI [of _ "nat n"] exI [of _ "[]"]) (auto simp: wire_def)
    qed
  qed
qed

lemma enqueue_nil [simp]: "enqueue l bs [] [] = [(l, bs)]"
  by (cases l) simp_all

lemma send_socket_halfclose:
  assumes rep: "tcp_rep ss i H off L" and w: "wire ss i B D H off" and a: "ss_heap ss a = None"
    and c: "stype (slot ss i) = SOCKET_TYPE_HALFCLOSE" and k: "sid (slot ss i) = k" "i = HASH_ID k"
  shows "\<exists>ss'. send_socket (send_of k a bs) res l None (alloc_block a bs ss) = Some (- 1, res, ss') \<and>
    op_post i B (D @ H @ L) ss (- 1) ss' \<and> dom (ss_heap ss') \<subseteq> insert a (dom (ss_heap ss)) \<and>
    stype (slot ss' i) = SOCKET_TYPE_HALFCLOSE"
proof -
  have "drop_blocks {a} ((ss_heap ss)(a \<mapsto> bs)) = ss_heap ss" using a by (auto simp: drop_blocks_def fun_eq_iff)
  then have "send_socket (send_of k a bs) res l None (alloc_block a bs ss) = Some (- 1, res, ss)"
    using k c object_free_plain [of "alloc_block a bs ss" a]
    by (simp add: send_socket_def send_object_init_def) (simp add: alloc_block_def)
  moreover have "op_post i B (D @ H @ L) ss (- 1) ss"
    unfolding op_post_def using rep w tcp_rep_off [OF rep]
    by (intro exI [of _ D] exI [of _ H] exI [of _ off] exI [of _ L]) (simp add: kept_def wire_def)
  ultimately show ?thesis using c by auto
qed

lemma close_socket_post:
  assumes rep: "tcp_rep ss i H off L" and w: "wire ss i B D H off" and fair: "eintr_fair (w_env (ss_world ss))"
    and k: "sid (slot ss i) = k" "i = HASH_ID k"
  shows "\<exists>r res' ss'. close_socket \<lparr>rc_id = k, rc_opaque = q\<rparr> res ss = Some (r, res', ss') \<and>
    op_post i B (D @ H @ L) ss r ss' \<and> dom (ss_heap ss') \<subseteq> dom (ss_heap ss) \<and>
    (r = - 1 \<longrightarrow> stype (slot ss' i) = SOCKET_TYPE_HALFCLOSE)"
proof -
  have valid: "stype (slot ss i) \<noteq> SOCKET_TYPE_INVALID" using rep by (auto simp: tcp_rep_def)
  obtain r1 res1 ss1 where flush: "(if \<not> send_buffer_empty (slot ss i) then send_buffer i res ss else Some (- 1, res, ss)) =
      Some (r1, res1, ss1)" and fp: "flush_post i B D (H @ L) ss r1 ss1"
  proof (cases "send_buffer_empty (slot ss i)")
    case False
    then show ?thesis using that send_buffer_stream [OF rep w fair, of res] by auto
  next
    case True
    have "flush_post i B D (H @ L) ss (- 1) ss"
      unfolding flush_post_def using rep w tcp_rep_off [OF rep]
      by (intro exI [of _ D] exI [of _ H] exI [of _ off] exI [of _ L]) (simp add: wire_def)
    then show ?thesis using True that by simp
  qed
  note op1 = flush_op_post [OF fp]
  have run: "close_socket \<lparr>rc_id = k, rc_opaque = q\<rparr> res ss =
    (if r1 \<noteq> - 1 then Some (r1, res1, ss1)
     else if send_buffer_empty (slot ss1 i) then do {
       (result, ss) \<leftarrow> force_close i res1 ss1;
       Some (SOCKET_CLOSE, result\<lparr>msg_id := k, msg_opaque := q\<rparr>, ss)
     }
     else Some (- 1, res1, upd_slot i (\<lambda>s. s\<lparr>stype := SOCKET_TYPE_HALFCLOSE\<rparr>) ss1))"
    using k(1) valid flush by (simp add: close_socket_def Let_def k(2) [symmetric])
  show ?thesis
  proof (cases "r1 = - 1")
    case False
    then show ?thesis using run op1 by auto
  next
    case True
    then obtain D' H' off' L' where p: "D @ H @ L = D' @ H' @ L'" "kept i ss ss1" "outside i ss1 = outside i ss"
        "tcp_rep ss1 i H' off' L'" "wire ss1 i B D' H' off'"
        "written (fd (slot ss i)) (ss_world ss1) = B @ packets_bytes D' @ take off' (packets_bytes (H' @ L'))"
      using op1 unfolding op_post_def by (auto simp: SOCKET_CLOSE_def)
    show ?thesis
    proof (cases "send_buffer_empty (slot ss1 i)")
      case em: True
      then have none: "H' = []" "L' = []"
        using tcp_rep_high_empty [OF p(4)] tcp_rep_low_empty [OF p(4)] by (auto simp: send_buffer_empty_def)
      obtain res' ss' where fc: "force_close i res1 ss1 = Some (res', ss')" "closed_sock i ss1 ss'"
          "\<forall>f. written f (ss_world ss') = written f (ss_world ss1)"
        by (rule force_close_sock [OF p(4), where res = res1])
      note sk = same_sock_kept [of i ss1 ss']
      have "kept i ss ss'" "outside i ss' = outside i ss" "dom (ss_heap ss') \<subseteq> dom (ss_heap ss)"
        using sk fc(2) p(2,3) kept_trans [of i ss ss1 ss'] op1 by (auto simp: closed_sock_def)
      moreover from this have "op_post i B (D @ H @ L) ss SOCKET_CLOSE ss'"
        unfolding op_post_def using fc p none
        by (intro exI [of _ D'] exI [of _ "[]"] exI [of _ 0] exI [of _ "[]"]) (simp add: closed_sock_def)
      ultimately show ?thesis using run True em fc(1) by (auto simp: SOCKET_CLOSE_def)
    next
      case full: False
      let ?ss = "upd_slot i (\<lambda>s. s\<lparr>stype := SOCKET_TYPE_HALFCLOSE\<rparr>) ss1"
      have "tcp_rep ?ss i H' off' L'" "wire ?ss i B D' H' off'" "kept i ss ?ss" "outside i ?ss = outside i ss"
        using p(2-5) by (simp_all add: tcp_rep_def wire_def kept_def outside_def queued_def)
      then have "op_post i B (D @ H @ L) ss (- 1) ?ss"
        unfolding op_post_def using p(1,6)
        by (intro exI [of _ D'] exI [of _ H'] exI [of _ off'] exI [of _ L']) simp
      then show ?thesis using run True full op1 by auto
    qed
  qed
qed

end
