(* ===== verification/Socket_Session.thy ===== *)
theory Socket_Session
  imports Socket_Stream
begin

text \<open>
  A TCP connection of the socket server from its establishment to its end: any sequence of packets
  submitted with either priority, of flushes when the poll finds the descriptor writable, and of requests
  to close it (\<open>send_socket\<close>, \<open>send_buffer\<close> and \<open>close_socket\<close> of
  \<open>network/socket/socket_server.c\<close>).
\<close>

section \<open>The life of a connection\<close>

text \<open>
  What happens to a connection between its establishment and its end: packets are submitted in freshly
  allocated blocks, the poll finds the descriptor writable and flushes, and the user asks to close it.
\<close>

datatype send_op = Send priority nat "byte list" | Flush | Shutdown u64

fun send_op_step :: "u32 \<Rightarrow> send_op \<Rightarrow> socket_message \<Rightarrow> socket_server \<Rightarrow> (int \<times> socket_message \<times> socket_server) option" where
  "send_op_step k (Send l a bs) res ss = send_socket (send_of k a bs) res l None (alloc_block a bs ss)"
| "send_op_step k Flush res ss = send_buffer (HASH_ID k) res ss"
| "send_op_step k (Shutdown q) res ss = close_socket \<lparr>rc_id = k, rc_opaque = q\<rparr> res ss"

text \<open>The operations run until the socket is closed; the last component are those left.\<close>

fun send_ops :: "u32 \<Rightarrow> send_op list \<Rightarrow> socket_message \<Rightarrow> socket_server \<Rightarrow> (bool \<times> socket_server \<times> send_op list) option" where
  "send_ops k [] res ss = Some (False, ss, [])"
| "send_ops k (op # ops) res ss = do {
     (r, res, ss) \<leftarrow> send_op_step k op res ss;
     (if r = SOCKET_CLOSE then Some (True, ss, ops) else send_ops k ops res ss)
   }"

fun op_addrs :: "send_op \<Rightarrow> nat list" where
  "op_addrs (Send l a bs) = [a]"
| "op_addrs _ = []"

fun is_shutdown :: "send_op \<Rightarrow> bool" where
  "is_shutdown (Shutdown q) = True"
| "is_shutdown _ = False"

fun op_packets :: "send_op \<Rightarrow> packets" where
  "op_packets (Send l a bs) = [(l, bs)]"
| "op_packets _ = []"

text \<open>The packets accepted: those submitted before the socket is asked to close.\<close>

definition accepted :: "send_op list \<Rightarrow> packets" where
  "accepted ops = concat (map op_packets (takeWhile (\<lambda>op. \<not> is_shutdown op) ops))"

definition of_priority :: "priority \<Rightarrow> packets \<Rightarrow> packets" where
  "of_priority l Q = filter (\<lambda>p. fst p = l) Q"

text \<open>Within each priority the packets keep their order.\<close>

definition same_order :: "packets \<Rightarrow> packets \<Rightarrow> bool" where
  "same_order Q P \<longleftrightarrow> (\<forall>l. of_priority l Q = of_priority l P)"

lemma same_order_simps [simp]: "same_order Q Q" "same_order Q P \<Longrightarrow> same_order (Q @ R) (P @ R)"
  by (simp_all add: same_order_def of_priority_def)

lemma same_order_trans: "same_order Q P \<Longrightarrow> same_order P R \<Longrightarrow> same_order Q R"
  by (simp add: same_order_def)

lemma of_priority_append [simp]: "of_priority l (P @ Q) = of_priority l P @ of_priority l Q"
  by (simp add: of_priority_def)

lemma enqueue_order:
  assumes "\<forall>p\<in>set L. fst p = PRIORITY_LOW"
  shows "same_order (D @ enqueue l bs H L) ((D @ H @ L) @ [(l, bs)])"
proof -
  have "of_priority PRIORITY_HIGH L = []" using assms by (auto simp: of_priority_def)
  then show ?thesis
    unfolding same_order_def by (cases l) (auto simp: of_priority_def split: if_splits intro: priority.exhaust)
qed

text \<open>One operation on an established connection.\<close>

definition accepts :: "socket_server \<Rightarrow> nat \<Rightarrow> send_op \<Rightarrow> packets" where
  "accepts ss i op = (if stype (slot ss i) = SOCKET_TYPE_CONNECTED then op_packets op else [])"

lemma send_op_step_post:
  assumes rep: "tcp_rep ss i H off L" and w: "wire ss i B D H off" and fair: "eintr_fair (w_env (ss_world ss))"
    and k: "sid (slot ss i) = k" "i = HASH_ID k" and a: "\<forall>a\<in>set (op_addrs op). ss_heap ss a = None"
  shows "\<exists>r res' ss' Q. send_op_step k op res ss = Some (r, res', ss') \<and> op_post i B Q ss r ss' \<and>
    same_order Q ((D @ H @ L) @ accepts ss i op) \<and> dom (ss_heap ss') \<subseteq> set (op_addrs op) \<union> dom (ss_heap ss) \<and>
    (r = - 1 \<longrightarrow> stype (slot ss' i) = (if is_shutdown op then SOCKET_TYPE_HALFCLOSE else stype (slot ss i)))"
proof (cases op)
  case (Send l a bs)
  then have fresh: "ss_heap ss a = None" using a by simp
  have low: "\<forall>p\<in>set L. fst p = PRIORITY_LOW" using rep by (simp add: tcp_rep_def)
  show ?thesis
  proof (cases "stype (slot ss i) = SOCKET_TYPE_CONNECTED")
    case c: True
    show ?thesis
    proof (cases "H @ L = []")
      case True
      then have z: "H = []" "L = []" "off = 0" using tcp_rep_off [OF rep] by auto
      show ?thesis
        using send_socket_direct [OF rep [unfolded z] w [unfolded z] fresh c k, of bs res l] Send c z
        by (fastforce simp: accepts_def)
    next
      case False
      show ?thesis
        using send_socket_queue [OF rep w fresh c k False, of bs res l] enqueue_order [OF low, of D l bs H] Send c
        by (fastforce simp: accepts_def)
    qed
  next
    case False
    then have "stype (slot ss i) = SOCKET_TYPE_HALFCLOSE" using rep by (auto simp: tcp_rep_def)
    from send_socket_halfclose [OF rep w fresh this k, of bs res l] this show ?thesis
      using Send False by (fastforce simp: accepts_def)
  qed
next
  case Flush
  then show ?thesis
    using send_buffer_stream [OF rep w fair, of res] flush_op_post [of i B D "H @ L" ss] k(2)
    by (fastforce simp: accepts_def)
next
  case (Shutdown q)
  then show ?thesis
    using close_socket_post [OF rep w fair k, of q res] by (fastforce simp: accepts_def)
qed

text \<open>The whole run.\<close>

definition run_post ::
    "nat \<Rightarrow> byte list \<Rightarrow> packets \<Rightarrow> socket_server \<Rightarrow> bool \<Rightarrow> socket_server \<Rightarrow> bool" where
  "run_post i B Q ss closed ss' \<longleftrightarrow> op_post i B Q ss (if closed then SOCKET_CLOSE else - 1) ss'"

lemma op_post_via:
  assumes "op_post i B Q ss1 r ss'" "kept i ss ss1" "outside i ss1 = outside i ss"
  shows "op_post i B Q ss r ss'"
proof -
  have "fd (slot ss1 i) = fd (slot ss i)" "w_env (ss_world ss1) = w_env (ss_world ss)" using assms(2) by (simp_all add: kept_def)
  moreover obtain D H off L where "Q = D @ H @ L" "kept i ss1 ss'"
     "written (fd (slot ss1 i)) (ss_world ss') = B @ packets_bytes D @ take off (packets_bytes (H @ L))"
     "r = - 1 \<and> outside i ss' = outside i ss1 \<and> tcp_rep ss' i H off L \<and> wire ss' i B D H off \<or>
      r = SOCKET_CLOSE \<and> stype (slot ss' i) = SOCKET_TYPE_INVALID \<and> high (slot ss' i) = [] \<and> low (slot ss' i) = [] \<and>
        (no_write_error (w_env (ss_world ss1)) \<longrightarrow> H @ L = [] \<and> outside i ss' = outside i ss1)"
    using assms(1) unfolding op_post_def by blast
  ultimately show ?thesis unfolding op_post_def using assms(3) kept_trans [OF assms(2)]
    by (intro exI [of _ D] exI [of _ H] exI [of _ off] exI [of _ L]) auto
qed

definition accepted_from :: "socket_server \<Rightarrow> nat \<Rightarrow> send_op list \<Rightarrow> packets" where
  "accepted_from ss i ops = (if stype (slot ss i) = SOCKET_TYPE_CONNECTED then accepted ops else [])"

lemma accepted_from_cons:
  "stype (slot ss' i) = (if is_shutdown op then SOCKET_TYPE_HALFCLOSE else stype (slot ss i)) \<Longrightarrow>
   accepted_from ss i (op # ops) = accepts ss i op @ accepted_from ss' i ops"
  by (cases op) (auto simp: accepted_from_def accepted_def accepts_def)

lemma send_ops_post:
  assumes "tcp_rep ss i H off L" "wire ss i B D H off" "eintr_fair (w_env (ss_world ss))"
    "sid (slot ss i) = k" "i = HASH_ID k" "distinct (concat (map op_addrs ops))"
    "\<forall>a\<in>set (concat (map op_addrs ops)). ss_heap ss a = None"
  shows "\<exists>closed ss' rest ran Q. send_ops k ops res ss = Some (closed, ss', rest) \<and> ops = ran @ rest \<and>
    (\<not> closed \<longrightarrow> rest = []) \<and> same_order Q ((D @ H @ L) @ accepted_from ss i ran) \<and> run_post i B Q ss closed ss'"
  using assms
proof (induction ops arbitrary: ss H off L D res)
  case Nil
  have "run_post i B (D @ H @ L) ss False ss"
    unfolding run_post_def op_post_def using Nil(1,2) tcp_rep_off [OF Nil(1)]
    by (intro exI [of _ D] exI [of _ H] exI [of _ off] exI [of _ L]) (simp add: kept_def wire_def)
  then show ?case
    by (intro exI [of _ False] exI [of _ ss] exI [of _ "[]"] exI [of _ "D @ H @ L"]) (simp add: accepted_from_def accepted_def)
next
  case (Cons op ops)
  have fresh: "\<forall>a\<in>set (op_addrs op). ss_heap ss a = None" using Cons.prems(7) by simp
  obtain r res1 ss1 Q1 where st: "send_op_step k op res ss = Some (r, res1, ss1)" "op_post i B Q1 ss r ss1"
     "same_order Q1 ((D @ H @ L) @ accepts ss i op)" "dom (ss_heap ss1) \<subseteq> set (op_addrs op) \<union> dom (ss_heap ss)"
     "r = - 1 \<longrightarrow> stype (slot ss1 i) = (if is_shutdown op then SOCKET_TYPE_HALFCLOSE else stype (slot ss i))"
    using send_op_step_post [OF Cons.prems(1-5) fresh, of res] by blast
  show ?case
  proof (cases "r = SOCKET_CLOSE")
    case True
    have "accepts ss i op = accepted_from ss i [op]" by (cases op) (auto simp: accepts_def accepted_from_def accepted_def)
    then show ?thesis using True st(1-3)
      by (intro exI [of _ True] exI [of _ ss1] exI [of _ ops] exI [of _ "[op]"] exI [of _ Q1]) (simp add: run_post_def)
  next
    case False
    then obtain D1 H1 off1 L1 where q: "r = - 1" "Q1 = D1 @ H1 @ L1" "kept i ss ss1" "outside i ss1 = outside i ss"
        "tcp_rep ss1 i H1 off1 L1" "wire ss1 i B D1 H1 off1"
      using st(2) unfolding op_post_def by auto
    have keep: "sid (slot ss1 i) = k" "eintr_fair (w_env (ss_world ss1))" using q(3) Cons.prems(3,4) by (simp_all add: kept_def)
    have "\<forall>a\<in>set (concat (map op_addrs ops)). ss_heap ss1 a = None"
    proof
      fix a assume mem: "a \<in> set (concat (map op_addrs ops))"
      then have "a \<in> set (concat (map op_addrs (op # ops)))" by simp
      then have "ss_heap ss a = None" using Cons.prems(7) by blast
      moreover have "a \<notin> set (op_addrs op)" using mem Cons.prems(6) by auto
      ultimately have "a \<notin> set (op_addrs op)" "a \<notin> dom (ss_heap ss)" by auto
      then show "ss_heap ss1 a = None" using st(4) by auto
    qed
    moreover have "distinct (concat (map op_addrs ops))" using Cons.prems(6) by simp
    ultimately obtain closed ss' rest ran Q where ih: "send_ops k ops res1 ss1 = Some (closed, ss', rest)" "ops = ran @ rest"
        "\<not> closed \<longrightarrow> rest = []" "same_order Q ((D1 @ H1 @ L1) @ accepted_from ss1 i ran)" "run_post i B Q ss1 closed ss'"
      using Cons.IH [OF q(5,6) keep(2,1) Cons.prems(5), of res1] by blast
    have "same_order Q ((D @ H @ L) @ accepted_from ss i (op # ran))"
      using ih(4) st(3,5) q(1,2) same_order_simps(2) [of Q1 "(D @ H @ L) @ accepts ss i op" "accepted_from ss1 i ran"]
      by (auto simp: accepted_from_cons [of ss1] intro: same_order_trans)
    moreover have "run_post i B Q ss closed ss'" using ih(5) op_post_via [OF _ q(3,4)] by (simp add: run_post_def)
    ultimately show ?thesis using st(1) False ih(1-3)
      by (intro exI [of _ closed] exI [of _ ss'] exI [of _ rest] exI [of _ "op # ran"] exI [of _ Q]) simp
  qed
qed

text \<open>A connection as \<open>report_connect\<close> and \<open>start_socket\<close> leave it.\<close>

definition established :: "u32 \<Rightarrow> socket_server \<Rightarrow> bool" where
  "established k ss \<longleftrightarrow> (let s = slot ss (HASH_ID k) in sid s = k \<and> stype s = SOCKET_TYPE_CONNECTED \<and>
     sprotocol s = PROTOCOL_TCP \<and> high s = [] \<and> low s = [] \<and> wb_size s = 0)"

lemma established_rep:
  assumes "established k ss"
  shows "tcp_rep ss (HASH_ID k) [] 0 []" "sid (slot ss (HASH_ID k)) = k"
    "wire ss (HASH_ID k) (written (fd (slot ss (HASH_ID k))) (ss_world ss)) [] [] 0"
    "accepted_from ss (HASH_ID k) ops = accepted ops" "queued (HASH_ID k) ss = {}"
  using assms by (auto simp: established_def tcp_rep_def wire_def accepted_from_def owned_wbs_def queued_def Let_def)

text \<open>
  Blocks for the packets come from the allocator: their addresses are distinct and not in use.
\<close>

definition fresh_blocks :: "send_op list \<Rightarrow> socket_server \<Rightarrow> bool" where
  "fresh_blocks ops ss \<longleftrightarrow> distinct (concat (map op_addrs ops)) \<and>
     (\<forall>a\<in>set (concat (map op_addrs ops)). ss_heap ss a = None)"

lemma established_run:
  assumes "established k ss" "eintr_fair (w_env (ss_world ss))" "fresh_blocks ops ss"
  shows "\<exists>closed ss' rest ran Q. send_ops k ops res ss = Some (closed, ss', rest) \<and> ops = ran @ rest \<and>
    (\<not> closed \<longrightarrow> rest = []) \<and> same_order Q (accepted ran) \<and>
    run_post (HASH_ID k) (written (fd (slot ss (HASH_ID k))) (ss_world ss)) Q ss closed ss'"
proof -
  note e = established_rep [OF assms(1)]
  have "distinct (concat (map op_addrs ops))" "\<forall>a\<in>set (concat (map op_addrs ops)). ss_heap ss a = None"
    using assms(3) by (simp_all add: fresh_blocks_def)
  from send_ops_post [OF e(1) e(3) assms(2) e(2) refl this, of res] show ?thesis by (simp add: e(4))
qed

lemma run_post_stream:
  assumes "run_post i B Q ss closed ss'"
  obtains D H off L where "Q = D @ H @ L"
      "written (fd (slot ss i)) (ss_world ss') = B @ packets_bytes D @ take off (packets_bytes (H @ L))"
      "\<not> closed \<longrightarrow> tcp_rep ss' i H off L" "closed \<longrightarrow> stype (slot ss' i) = SOCKET_TYPE_INVALID"
  using assms that unfolding run_post_def op_post_def by (auto simp: SOCKET_CLOSE_def split: if_splits)

text \<open>
  C8. Byte stream of a connection. Whatever the kernel answers, as long as it does not interrupt for ever,
  every sequence of sends, flushes and close requests on an established TCP connection runs without a
  failed assertion, a use of freed memory or a double free. The bytes on the wire are a prefix of the
  accepted packets, each whole and in the order of its priority, and while the connection is open the
  counter of queued bytes is exactly what is missing. Packets submitted after a close request are dropped.
\<close>

theorem tcp_stream:
  assumes "established k ss" "eintr_fair (w_env (ss_world ss))" "fresh_blocks ops ss"
  shows "\<exists>closed ss' ran rest Q n. send_ops k ops res ss = Some (closed, ss', rest) \<and> ops = ran @ rest \<and>
    same_order Q (accepted ran) \<and> n \<le> length (packets_bytes Q) \<and>
    written (fd (slot ss (HASH_ID k))) (ss_world ss') =
      written (fd (slot ss (HASH_ID k))) (ss_world ss) @ take n (packets_bytes Q) \<and>
    (if closed then stype (slot ss' (HASH_ID k)) = SOCKET_TYPE_INVALID
     else rest = [] \<and> wb_size (slot ss' (HASH_ID k)) = int (length (packets_bytes Q)) - int n)"
proof -
  let ?i = "HASH_ID k" and ?B = "written (fd (slot ss (HASH_ID k))) (ss_world ss)"
  obtain closed ss' rest ran Q where r: "send_ops k ops res ss = Some (closed, ss', rest)" "ops = ran @ rest"
      "\<not> closed \<longrightarrow> rest = []" "same_order Q (accepted ran)" "run_post ?i ?B Q ss closed ss'"
    using established_run [OF assms, of res] by blast
  obtain D H off L where q: "Q = D @ H @ L"
      "written (fd (slot ss ?i)) (ss_world ss') = ?B @ packets_bytes D @ take off (packets_bytes (H @ L))"
      "\<not> closed \<longrightarrow> tcp_rep ss' ?i H off L" "closed \<longrightarrow> stype (slot ss' ?i) = SOCKET_TYPE_INVALID"
    by (rule run_post_stream [OF r(5)])
  let ?n = "min (length (packets_bytes Q)) (length (packets_bytes D) + off)"
  have "take ?n (packets_bytes Q) = packets_bytes D @ take off (packets_bytes (H @ L))"
    by (simp add: q(1) min_def) 
  moreover have "wb_size (slot ss' ?i) = int (length (packets_bytes Q)) - int ?n" if "\<not> closed"
    using q(3) that tcp_rep_off [of ss' ?i H off L] by (simp add: tcp_rep_def q(1) min_def)
  ultimately show ?thesis
    using r q(2,4) by (intro exI [of _ closed] exI [of _ ss'] exI [of _ ran] exI [of _ rest] exI [of _ Q] exI [of _ ?n]) simp
qed

text \<open>
  C19. Graceful close. When no write fails, a connection that has been closed has sent every packet it
  accepted before the close request, completely, and every block has been freed.
\<close>

theorem graceful_close:
  assumes "established k ss" "eintr_fair (w_env (ss_world ss))" "fresh_blocks ops ss"
    "no_write_error (w_env (ss_world ss))" "send_ops k ops res ss = Some (True, ss', rest)"
  shows "\<exists>ran Q. ops = ran @ rest \<and> same_order Q (accepted ran) \<and> ss_heap ss' = ss_heap ss \<and>
    written (fd (slot ss (HASH_ID k))) (ss_world ss') =
      written (fd (slot ss (HASH_ID k))) (ss_world ss) @ packets_bytes Q"
proof -
  let ?i = "HASH_ID k" and ?B = "written (fd (slot ss (HASH_ID k))) (ss_world ss)"
  obtain closed ss1 rest1 ran Q where r1: "send_ops k ops res ss = Some (closed, ss1, rest1)" "ops = ran @ rest1"
      "same_order Q (accepted ran)" "run_post ?i ?B Q ss closed ss1"
    using established_run [OF assms(1-3), of res] by blast
  then have r: "ops = ran @ rest" "same_order Q (accepted ran)" "run_post ?i ?B Q ss True ss'" using assms(5) by simp_all
  obtain D H off L where q: "Q = D @ H @ L"
      "written (fd (slot ss ?i)) (ss_world ss') = ?B @ packets_bytes D @ take off (packets_bytes (H @ L))"
      "H @ L = []" "outside ?i ss' = outside ?i ss" "high (slot ss' ?i) = []" "low (slot ss' ?i) = []"
    using r(3) assms(4) unfolding run_post_def op_post_def by (auto simp: SOCKET_CLOSE_def)
  have "ss_heap ss' = ss_heap ss"
    using q(4-6) established_rep(5) [OF assms(1)] by (simp add: outside_def queued_def)
  then show ?thesis using r(1,2) q(1-3) by auto
qed


definition slow_answer :: answer where
  "slow_answer = \<lparr>a_ret = 3, a_errno = E_OTHER, a_val = 0, a_data = [], a_addr = V4 0 0,
     a_list = [], a_fds = (0, 0), a_events = []\<rparr>"

definition sample_server :: socket_server where
  "sample_server = \<lparr>recvctrl_fd = 3, sendctrl_fd = 4, checkctrl = True, event_fd = 5, alloc_id = 1, event_n = 0,
     event_index = 0, soi = None, ev = [],
     slot = (\<lambda>_. \<lparr>opaque = 7, high = [], low = [], wb_size = 0, fd = 6, sid = 1, sprotocol = PROTOCOL_TCP,
       stype = SOCKET_TYPE_CONNECTED, p_size = 64, p_udp_address = []\<rparr>),
     ss_heap = (\<lambda>_. None), ss_world = \<lparr>w_env = (\<lambda>_. slow_answer), w_next = 0, w_trace = []\<rparr>\<rparr>"

definition sample_ops :: "send_op list" where
  "sample_ops = [Send PRIORITY_HIGH 0 [1, 2, 3, 4, 5], Send PRIORITY_LOW 1 [6], Shutdown 9, Flush]"

definition no_message :: socket_message where
  "no_message = \<lparr>msg_id = 0, msg_opaque = 0, msg_ud = 0, msg_data = None\<rparr>"

lemma sample_server_ok:
  "established 1 sample_server" "eintr_fair (w_env (ss_world sample_server))" "fresh_blocks sample_ops sample_server"
  "no_write_error (w_env (ss_world sample_server))"
  by (auto simp: established_def sample_server_def eintr_fair_def interrupted_def slow_answer_def fresh_blocks_def
      sample_ops_def no_write_error_def)

theorem tcp_stream_witness:
  "established 1 sample_server \<and> eintr_fair (w_env (ss_world sample_server)) \<and> fresh_blocks sample_ops sample_server \<and>
   (\<exists>closed ss' ran rest Q n. send_ops 1 sample_ops no_message sample_server = Some (closed, ss', rest) \<and>
    sample_ops = ran @ rest \<and> same_order Q (accepted ran) \<and> n \<le> length (packets_bytes Q) \<and>
    written (fd (slot sample_server (HASH_ID 1))) (ss_world ss') =
      written (fd (slot sample_server (HASH_ID 1))) (ss_world sample_server) @ take n (packets_bytes Q) \<and>
    (if closed then stype (slot ss' (HASH_ID 1)) = SOCKET_TYPE_INVALID
     else rest = [] \<and> wb_size (slot ss' (HASH_ID 1)) = int (length (packets_bytes Q)) - int n))"
  using sample_server_ok tcp_stream [OF sample_server_ok(1-3), of no_message] by blast

lemma HASH_ID_one [simp]: "HASH_ID 1 = 1"
  by (simp add: HASH_ID_def MAX_SOCKET_def)

lemmas send_run = send_socket_def send_object_init_def append_sendbuffer_to_def append_sendbuffer_def
  append_sendbuffer_low_def send_buffer_empty_def close_socket_def send_buffer_def list_uncomplete_def send_list_def
  send_list_tcp_def write_retry.simps sys_write_def sys_step_def next_answer_def io_count_def read_block_def mem_read_def
  write_buffer_free_def object_free_def free_block_def force_close_def free_wb_list_def sp_write_def sp_del_def close_fd_def
  sys_do_def SOCKET_CLOSE_def alloc_block_def upd_slot_def upd_world_def Let_def

lemma sample_run: "\<exists>ss'. send_ops 1 sample_ops no_message sample_server = Some (True, ss', [Flush])"
  by (simp add: sample_ops_def sample_server_def slow_answer_def send_run)

theorem graceful_close_witness:
  "\<exists>ss'. established 1 sample_server \<and> eintr_fair (w_env (ss_world sample_server)) \<and> fresh_blocks sample_ops sample_server \<and>
    no_write_error (w_env (ss_world sample_server)) \<and>
    send_ops 1 sample_ops no_message sample_server = Some (True, ss', [Flush]) \<and>
    (\<exists>ran Q. sample_ops = ran @ [Flush] \<and> same_order Q (accepted ran) \<and> ss_heap ss' = ss_heap sample_server \<and>
      written (fd (slot sample_server (HASH_ID 1))) (ss_world ss') =
        written (fd (slot sample_server (HASH_ID 1))) (ss_world sample_server) @ packets_bytes Q)"
  using sample_run graceful_close [OF sample_server_ok] sample_server_ok by blast

end
