(* ===== verification/Socket_Slots.thy ===== *)
theory Socket_Slots
  imports Socket_Send
begin

unbundle bit_operations_syntax

text \<open>
  The table of sockets of the socket server (\<open>network/socket/socket_server.c\<close>): reserving an id,
  creating and releasing the server, binding a descriptor to a reserved slot, and the requests that open,
  listen, bind, start and configure a socket. The addresses found by \<open>getaddrinfo\<close> and the text of
  \<open>inet_ntop\<close> are answers of the environment; \<open>freeaddrinfo\<close> has no effect on the server.
\<close>

section \<open>Ids\<close>

text \<open>
  One turn of the loop of \<open>reserve_id\<close> takes the next id, clears its sign bit when the counter has
  wrapped, and claims the slot when it is free. Nothing runs between the test of the type and the
  compare-and-swap here; the races are the subject of the theory of reservations.
\<close>

definition next_id :: "u32 \<Rightarrow> u32" where
  "next_id a = (let i = a + 1 in if i <s 0 then i AND 0x7fffffff else i)"

fun reserve_loop :: "nat \<Rightarrow> socket_server \<Rightarrow> u32 option \<times> socket_server" where
  "reserve_loop 0 ss = (None, ss)"
| "reserve_loop (Suc n) ss =
     (let k = next_id (alloc_id ss); ss = ss\<lparr>alloc_id := k\<rparr> in
      if stype (slot ss (HASH_ID k)) = SOCKET_TYPE_INVALID
      then (Some k, upd_slot (HASH_ID k) (\<lambda>s. s\<lparr>stype := SOCKET_TYPE_RESERVE, sid := k, fd := - 1\<rparr>) ss)
      else reserve_loop n ss)"

definition reserve_id :: "socket_server \<Rightarrow> u32 option \<times> socket_server" where
  "reserve_id ss = reserve_loop MAX_SOCKET ss"

section \<open>Creating and releasing the server\<close>

definition FD_SETSIZE :: int where "FD_SETSIZE = 1024"

definition clear_socket :: "socket \<Rightarrow> socket" where
  "clear_socket s = s\<lparr>stype := SOCKET_TYPE_INVALID, high := [], low := []\<rparr>"

text \<open>The array of slots is allocated but not initialised: \<open>junk\<close> is what it holds.\<close>

definition socket_server_create ::
    "(nat \<Rightarrow> socket) \<Rightarrow> event list \<Rightarrow> heap \<Rightarrow> world \<Rightarrow> (socket_server option \<times> world) option" where
  "socket_server_create junk junk_ev h W =
     (let (efd, e, W) = sys_int Sys_Epoll_Create W in
      if efd = - 1 then Some (None, W)
      else let fds = a_fds (next_answer W); (r, e, W) = sys_int Sys_Pipe W in
        if r \<noteq> 0 then Some (None, sys_do (Sys_Close efd) W)
        else let (r, e, W) = sys_int (Sys_Epoll_Add (fst fds) None) W in
          if r = - 1 then
            Some (None, sys_do (Sys_Close efd) (sys_do (Sys_Close (snd fds)) (sys_do (Sys_Close (fst fds)) W)))
          else if fst fds < FD_SETSIZE then
            Some (Some \<lparr>recvctrl_fd = fst fds, sendctrl_fd = snd fds, checkctrl = True, event_fd = efd,
              alloc_id = 0, event_n = 0, event_index = 0, soi = None, ev = junk_ev,
              slot = (\<lambda>i. clear_socket (junk i)), ss_heap = h, ss_world = W\<rparr>, W)
          else None)"

fun release_slots :: "nat list \<Rightarrow> socket_message \<Rightarrow> socket_server \<Rightarrow> socket_server option" where
  "release_slots [] dummy ss = Some ss"
| "release_slots (i # is) dummy ss = do {
     (dummy, ss) \<leftarrow> (if stype (slot ss i) \<noteq> SOCKET_TYPE_RESERVE then force_close i dummy ss else Some (dummy, ss));
     release_slots is dummy ss
   }"

definition socket_server_release :: "socket_message \<Rightarrow> socket_server \<Rightarrow> socket_server option" where
  "socket_server_release dummy ss = do {
     ss \<leftarrow> release_slots [0..<MAX_SOCKET] dummy ss;
     Some (close_fd (event_fd ss) (close_fd (recvctrl_fd ss) (close_fd (sendctrl_fd ss) ss)))
   }"

section \<open>Binding a descriptor to a slot\<close>

text \<open>The result is \<open>None\<close> for the null pointer and the index of the slot otherwise.\<close>

definition new_fd ::
    "u32 \<Rightarrow> int \<Rightarrow> protocol \<Rightarrow> u64 \<Rightarrow> bool \<Rightarrow> socket_server \<Rightarrow> (nat option \<times> socket_server) option" where
  "new_fd k f proto opq add ss = do {
     let i = HASH_ID k;
     (if stype (slot ss i) \<noteq> SOCKET_TYPE_RESERVE then None
      else do {
        let (r, ss) = (if add then sp_add f (Some i) ss else (0, ss));
        (if r \<noteq> 0 then Some (None, upd_slot i (\<lambda>s. s\<lparr>stype := SOCKET_TYPE_INVALID\<rparr>) ss)
         else if high (slot ss i) \<noteq> [] \<or> low (slot ss i) \<noteq> [] then None
         else Some (Some i, upd_slot i (\<lambda>s. s\<lparr>sid := k, fd := f, sprotocol := proto, p_size := MIN_READ_BUFFER,
                opaque := opq, wb_size := 0\<rparr>) ss))
      })
   }"

definition set_stype :: "nat \<Rightarrow> socket_type \<Rightarrow> socket_server \<Rightarrow> socket_server" where
  "set_stype i t ss = upd_slot i (\<lambda>s. s\<lparr>stype := t\<rparr>) ss"

section \<open>Requests on the table\<close>

definition SO_KEEPALIVE :: int where "SO_KEEPALIVE = 9"
definition TCP_NODELAY :: int where "TCP_NODELAY = 1"
definition SO_REUSEADDR :: int where "SO_REUSEADDR = 2"

definition socket_keepalive :: "int \<Rightarrow> world \<Rightarrow> world" where
  "socket_keepalive f W = sys_do (Sys_Setsockopt f SO_KEEPALIVE 1) W"

record request_open =
  ro_id :: u32
  ro_port :: int
  ro_opaque :: u64
  ro_host :: "byte list"

text \<open>The addresses are tried in turn; the result holds the descriptor, the status and the address used.\<close>

fun connect_loop :: "addrinfo list \<Rightarrow> int \<Rightarrow> int \<Rightarrow> world \<Rightarrow> int \<times> int \<times> addrinfo option \<times> world" where
  "connect_loop [] sock status W = (sock, status, None, W)"
| "connect_loop (ai # ais) sock status W =
     (let (sock, e, W) = sys_int (Sys_Socket (ai_family ai)) W in
      if sock < 0 then connect_loop ais sock status W
      else let W = set_nonblocking sock (socket_keepalive sock W);
               (status, e, W) = sys_int (Sys_Connect sock (ai_addr ai)) W in
        if status \<noteq> 0 \<and> e \<noteq> EINPROGRESS then connect_loop ais (- 1) status (sys_do (Sys_Close sock) W)
        else (sock, status, Some ai, W))"

definition open_socket ::
    "request_open \<Rightarrow> socket_message \<Rightarrow> socket_server \<Rightarrow> (int \<times> socket_message \<times> socket_server) option" where
  "open_socket request result ss = do {
     let k = ro_id request;
     let result = \<lparr>msg_id = k, msg_opaque = ro_opaque request, msg_ud = 0, msg_data = None\<rparr>;
     let failed = (\<lambda>ss. Some (SOCKET_ERROR, result, set_stype (HASH_ID k) SOCKET_TYPE_INVALID ss));
     let (status, ais, W) = sys_getaddrinfo (ro_host request) (ro_port request) (ss_world ss);
     (if status \<noteq> 0 then failed (ss\<lparr>ss_world := W\<rparr>)
      else do {
        let (sock, status, ai, W) = connect_loop ais (- 1) status W;
        let ss = ss\<lparr>ss_world := W\<rparr>;
        (if sock < 0 then failed ss
         else do {
           (ns, ss) \<leftarrow> new_fd k sock PROTOCOL_TCP (ro_opaque request) True ss;
           (case ns of
              None \<Rightarrow> failed (close_fd sock ss)
            | Some i \<Rightarrow>
                (if status = 0 then do {
                   ai \<leftarrow> ai;
                   let (txt, W) = sys_ntop (ai_addr ai) (ss_world ss);
                   Some (SOCKET_OPEN, result\<lparr>msg_data := txt\<rparr>, set_stype i SOCKET_TYPE_CONNECTED (ss\<lparr>ss_world := W\<rparr>))
                 }
                 else Some (- 1, result, sp_write sock i True (set_stype i SOCKET_TYPE_CONNECTING ss))))
         })
      })
   }"

record request_listen =
  rl_id :: u32
  rl_fd :: int
  rl_opaque :: u64

definition listen_socket ::
    "request_listen \<Rightarrow> socket_message \<Rightarrow> socket_server \<Rightarrow> (int \<times> socket_message \<times> socket_server) option" where
  "listen_socket request result ss = do {
     let k = rl_id request;
     (s, ss) \<leftarrow> new_fd k (rl_fd request) PROTOCOL_TCP (rl_opaque request) False ss;
     (case s of
        None \<Rightarrow> Some (SOCKET_ERROR, \<lparr>msg_id = k, msg_opaque = rl_opaque request, msg_ud = 0, msg_data = None\<rparr>,
          set_stype (HASH_ID k) SOCKET_TYPE_INVALID (close_fd (rl_fd request) ss))
      | Some i \<Rightarrow> Some (- 1, result, set_stype i SOCKET_TYPE_PLISTEN ss))
   }"

record request_bind =
  rb_id :: u32
  rb_fd :: int
  rb_opaque :: u64

text \<open>The strings \<open>binding\<close>, \<open>start\<close> and \<open>transfer\<close>.\<close>

definition str_binding :: "byte list" where "str_binding = [98, 105, 110, 100, 105, 110, 103]"
definition str_start :: "byte list" where "str_start = [115, 116, 97, 114, 116]"
definition str_transfer :: "byte list" where "str_transfer = [116, 114, 97, 110, 115, 102, 101, 114]"

definition bind_socket ::
    "request_bind \<Rightarrow> socket_message \<Rightarrow> socket_server \<Rightarrow> (int \<times> socket_message \<times> socket_server) option" where
  "bind_socket request result ss = do {
     let k = rb_id request;
     let result = result\<lparr>msg_id := k, msg_opaque := rb_opaque request, msg_ud := 0\<rparr>;
     (s, ss) \<leftarrow> new_fd k (rb_fd request) PROTOCOL_TCP (rb_opaque request) True ss;
     (case s of
        None \<Rightarrow> Some (SOCKET_ERROR, result\<lparr>msg_data := None\<rparr>, ss)
      | Some i \<Rightarrow> Some (SOCKET_OPEN, result\<lparr>msg_data := Some str_binding\<rparr>,
          set_stype i SOCKET_TYPE_BIND (sp_nonblocking (rb_fd request) ss)))
   }"

record request_start =
  rt_id :: u32
  rt_opaque :: u64

definition start_socket ::
    "request_start \<Rightarrow> socket_message \<Rightarrow> socket_server \<Rightarrow> (int \<times> socket_message \<times> socket_server) option" where
  "start_socket request result ss = do {
     let k = rt_id request;
     let i = HASH_ID k;
     let result = \<lparr>msg_id = k, msg_opaque = rt_opaque request, msg_ud = 0, msg_data = None\<rparr>;
     let t = stype (slot ss i);
     (if t = SOCKET_TYPE_INVALID \<or> sid (slot ss i) \<noteq> k then Some (SOCKET_ERROR, result, ss)
      else if t = SOCKET_TYPE_PACCEPT \<or> t = SOCKET_TYPE_PLISTEN then do {
        let (r, ss) = sp_add (fd (slot ss i)) (Some i) ss;
        (if r \<noteq> 0 then Some (SOCKET_ERROR, result, set_stype i SOCKET_TYPE_INVALID ss)
         else Some (SOCKET_OPEN, result\<lparr>msg_data := Some str_start\<rparr>,
           upd_slot i (\<lambda>s. s\<lparr>stype := if t = SOCKET_TYPE_PACCEPT then SOCKET_TYPE_CONNECTED else SOCKET_TYPE_LISTEN,
             opaque := rt_opaque request\<rparr>) ss))
      }
      else if t = SOCKET_TYPE_CONNECTED then
        Some (SOCKET_OPEN, result\<lparr>msg_data := Some str_transfer\<rparr>, upd_slot i (\<lambda>s. s\<lparr>opaque := rt_opaque request\<rparr>) ss)
      else Some (- 1, result, ss))
   }"

record request_setopt =
  rp_id :: u32
  rp_what :: int
  rp_value :: int

definition setopt_socket :: "request_setopt \<Rightarrow> socket_server \<Rightarrow> socket_server" where
  "setopt_socket request ss =
     (let s = slot ss (HASH_ID (rp_id request)) in
      if stype s = SOCKET_TYPE_INVALID \<or> sid s \<noteq> rp_id request then ss
      else upd_world (sys_do (Sys_Setsockopt (fd s) (rp_what request) (rp_value request))) ss)"

record request_udp =
  ru_id :: u32
  ru_fd :: int
  ru_family :: int
  ru_opaque :: u64

definition add_udp_socket :: "request_udp \<Rightarrow> socket_server \<Rightarrow> socket_server option" where
  "add_udp_socket udp ss = do {
     let k = ru_id udp;
     (ns, ss) \<leftarrow> new_fd k (ru_fd udp) (if ru_family udp = AF_INET6 then PROTOCOL_UDPv6 else PROTOCOL_UDP) (ru_opaque udp) True ss;
     (case ns of
        None \<Rightarrow> Some (set_stype (HASH_ID k) SOCKET_TYPE_INVALID (close_fd (ru_fd udp) ss))
      | Some i \<Rightarrow> Some (upd_slot i (\<lambda>s. s\<lparr>stype := SOCKET_TYPE_CONNECTED, p_udp_address := replicate UDP_ADDRESS_SIZE 0,
          p_size := 0\<rparr>) ss))
   }"

record request_setudp =
  rd_id :: u32
  rd_address :: "byte list"

text \<open>
  The address shares its memory with the read size of the union \<open>p\<close>; overwriting its first bytes
  overwrites the size too.
\<close>

definition set_p_address :: "nat \<Rightarrow> byte list \<Rightarrow> socket \<Rightarrow> socket" where
  "set_p_address n a s = s\<lparr>p_udp_address := take n a @ drop n (p_udp_address s),
     p_size := sint (bytes_word (take 4 a) :: u32)\<rparr>"

definition set_udp_address ::
    "request_setudp \<Rightarrow> socket_message \<Rightarrow> socket_server \<Rightarrow> (int \<times> socket_message \<times> socket_server) option" where
  "set_udp_address request result ss = do {
     let i = HASH_ID (rd_id request);
     let s = slot ss i;
     (if stype s = SOCKET_TYPE_INVALID \<or> sid s \<noteq> rd_id request then Some (- 1, result, ss)
      else do {
        let t = rd_address request ! 0;
        (if t \<noteq> protocol_byte (sprotocol s) then
           Some (SOCKET_ERROR, \<lparr>msg_id = sid s, msg_opaque = opaque s, msg_ud = 0, msg_data = None\<rparr>, ss)
         else if t = protocol_byte PROTOCOL_UDP then
           Some (- 1, result, upd_slot i (set_p_address 7 (rd_address request)) ss)
         else Some (- 1, result, upd_slot i (set_p_address 19 (rd_address request)) ss))
      })
   }"

section \<open>Reserving an id\<close>

lemma sless_zero_u32: "w <s 0 \<longleftrightarrow> 2 ^ 31 \<le> unat w" for w :: u32
proof -
  have "bit w 31 \<longleftrightarrow> odd (unat w div 2 ^ 31)"
    by (metis bit_iff_odd bit_unsigned_iff possible_bit_nat)
  moreover have "unat w < 2 ^ 32" using unat_bound [of w] by simp
  then have "odd (unat w div 2 ^ 31) \<longleftrightarrow> 2 ^ 31 \<le> unat w" 
  proof (cases "unat w < 2 ^ 31")
    case False
    then have "unat w div 2 ^ 31 = 1" using \<open>unat w < 2 ^ 32\<close> by (intro div_nat_eqI) simp_all
    then show ?thesis using False by simp
  qed simp
  ultimately show ?thesis using bit_last_iff [of w] by (simp add: word_sless_alt)
qed

lemma next_id_unat:
  assumes "unat a < 2 ^ 31"
  shows "unat (next_id a) = Suc (unat a) mod 2 ^ 31"
proof -
  have s: "unat (a + 1) = Suc (unat a)"
    using assms unat_add_no_wrap [of a 1] by simp
  have "(0x7fffffff :: u32) = mask 31" by (simp add: mask_eq_exp_minus_1)
  then have "unat ((a + 1) AND 0x7fffffff) = unat (a + 1) mod 2 ^ 31" by (metis unat_and_mask)
  then show ?thesis using s assms by (auto simp: next_id_def Let_def sless_zero_u32)
qed

lemma HASH_ID_next:
  assumes "unat a < 2 ^ 31"
  shows "HASH_ID (next_id a) = Suc (HASH_ID a) mod MAX_SOCKET" "unat (next_id a) < 2 ^ 31"
proof -
  have "MAX_SOCKET dvd 2 ^ 31" by (simp add: MAX_SOCKET_def le_imp_power_dvd)
  then have "Suc (unat a) mod 2 ^ 31 mod MAX_SOCKET = Suc (unat a) mod MAX_SOCKET"
    by (rule mod_mod_cancel)
  then show "HASH_ID (next_id a) = Suc (HASH_ID a) mod MAX_SOCKET"
    by (simp add: HASH_ID_def next_id_unat [OF assms] mod_Suc_eq)
  show "unat (next_id a) < 2 ^ 31" by (simp add: next_id_unat [OF assms])
qed

definition reserved_as :: "u32 \<Rightarrow> socket_server \<Rightarrow> socket_server \<Rightarrow> bool" where
  "reserved_as k ss ss' \<longleftrightarrow> unat k < 2 ^ 31 \<and> alloc_id ss' = k \<and>
     stype (slot ss (HASH_ID k)) = SOCKET_TYPE_INVALID \<and>
     ss' = upd_slot (HASH_ID k) (\<lambda>s. s\<lparr>stype := SOCKET_TYPE_RESERVE, sid := k, fd := - 1\<rparr>) (ss\<lparr>alloc_id := k\<rparr>)"

lemma reserve_loop_post:
  assumes "unat (alloc_id ss) < 2 ^ 31"
  shows "case reserve_loop n ss of
      (None, ss') \<Rightarrow> (\<forall>d\<in>{1..n}. stype (slot ss ((HASH_ID (alloc_id ss) + d) mod MAX_SOCKET)) \<noteq> SOCKET_TYPE_INVALID) \<and>
        (\<exists>a. unat a < 2 ^ 31 \<and> ss' = ss\<lparr>alloc_id := a\<rparr>)
    | (Some k, ss') \<Rightarrow> reserved_as k ss ss'"
  using assms
proof (induction n arbitrary: ss)
  case (Suc n)
  define k where "k = next_id (alloc_id ss)"
  note k = HASH_ID_next [OF Suc.prems, folded k_def]
  let ?ss = "ss\<lparr>alloc_id := k\<rparr>"
  show ?case
  proof (cases "stype (slot ss (HASH_ID k)) = SOCKET_TYPE_INVALID")
    case True
    then show ?thesis using k(2) by (simp add: Let_def reserved_as_def flip: k_def)
  next
    case False
    have busy: "stype (slot ss ((HASH_ID (alloc_id ss) + 1) mod MAX_SOCKET)) \<noteq> SOCKET_TYPE_INVALID"
      using False k(1) by simp
    have "{1..Suc n} = insert 1 (Suc ` {1..n})" by (auto simp: image_Suc_atLeastAtMost)
    moreover have "(HASH_ID k + d) mod MAX_SOCKET = (HASH_ID (alloc_id ss) + Suc d) mod MAX_SOCKET" for d
      by (simp add: k(1) mod_add_left_eq)
    ultimately have all: "(\<forall>d\<in>{1..Suc n}. stype (slot ss ((HASH_ID (alloc_id ss) + d) mod MAX_SOCKET)) \<noteq> SOCKET_TYPE_INVALID)
        \<longleftrightarrow> (\<forall>d\<in>{1..n}. stype (slot ss ((HASH_ID k + d) mod MAX_SOCKET)) \<noteq> SOCKET_TYPE_INVALID)"
      using busy by (simp only: ball_simps) simp
    have run: "reserve_loop (Suc n) ss = reserve_loop n ?ss" using False by (simp add: Let_def flip: k_def)
    show ?thesis
      unfolding run using Suc.IH [of ?ss] k(2) unfolding all
      by (auto simp: reserved_as_def simp del: One_nat_def split: prod.splits option.splits)
  qed
qed (auto intro!: exI [of _ "alloc_id ss" for ss])


text \<open>
  C32. Reserving an id. \<open>reserve_id\<close> fails only when every slot of the table is in use; otherwise it
  returns a non-negative id, also after the counter has wrapped, whose slot was free, and reserves that slot
  and no other.
\<close>

theorem reserve_id_complete:
  assumes "unat (alloc_id ss) < 2 ^ 31"
  shows "case reserve_id ss of
      (None, ss') \<Rightarrow> (\<forall>i<MAX_SOCKET. stype (slot ss i) \<noteq> SOCKET_TYPE_INVALID) \<and> slot ss' = slot ss
    | (Some k, ss') \<Rightarrow> 0 \<le> sint k \<and> stype (slot ss (HASH_ID k)) = SOCKET_TYPE_INVALID \<and>
        slot ss' = (slot ss)(HASH_ID k := (slot ss (HASH_ID k))\<lparr>stype := SOCKET_TYPE_RESERVE, sid := k, fd := - 1\<rparr>)"
proof -
  have all: "\<exists>d\<in>{1..MAX_SOCKET}. i = (a + d) mod MAX_SOCKET" if i: "i < MAX_SOCKET" for a i
  proof -
    let ?d = "(i + (MAX_SOCKET - a mod MAX_SOCKET)) mod MAX_SOCKET"
    have pos: "0 < MAX_SOCKET" by (simp add: MAX_SOCKET_def)
    have "(a + ?d) mod MAX_SOCKET = (a mod MAX_SOCKET + (i + (MAX_SOCKET - a mod MAX_SOCKET))) mod MAX_SOCKET"
      by (simp add: mod_simps)
    also have "a mod MAX_SOCKET + (i + (MAX_SOCKET - a mod MAX_SOCKET)) = i + MAX_SOCKET"
      using mod_less_divisor [OF pos, of a] by linarith
    finally have e: "(a + ?d) mod MAX_SOCKET = i" using i by simp
    show ?thesis
    proof (cases "?d = 0")
      case True
      then show ?thesis using e pos i by (intro bexI [of _ MAX_SOCKET]) auto
    next
      case False
      then show ?thesis using e mod_less_divisor [OF pos, of "i + (MAX_SOCKET - a mod MAX_SOCKET)"]
        by (intro bexI [of _ ?d]) auto
    qed
  qed
  have neg: "0 \<le> sint k" if "unat k < 2 ^ 31" for k :: u32
    using that sless_zero_u32 [of k] by (simp add: word_sless_alt)
  show ?thesis
    using reserve_loop_post [OF assms, of MAX_SOCKET] all [of _ "HASH_ID (alloc_id ss)"] neg
    by (auto simp: reserve_id_def reserved_as_def split: prod.splits option.splits)
qed

definition quiet_answer :: answer where
  "quiet_answer = \<lparr>a_ret = 0, a_errno = E_OTHER, a_val = 0, a_data = [], a_addr = V4 0 0, a_list = [], a_fds = (0, 0),
     a_events = []\<rparr>"

definition idle_socket :: socket where
  "idle_socket = \<lparr>opaque = 0, high = [], low = [], wb_size = 0, fd = - 1, sid = 0, sprotocol = PROTOCOL_TCP,
     stype = SOCKET_TYPE_INVALID, p_size = 0, p_udp_address = []\<rparr>"

definition idle_server :: "u32 \<Rightarrow> socket_server" where
  "idle_server k = \<lparr>recvctrl_fd = 3, sendctrl_fd = 4, checkctrl = True, event_fd = 5, alloc_id = k, event_n = 0,
     event_index = 0, soi = None, ev = [], slot = (\<lambda>_. idle_socket), ss_heap = (\<lambda>_. None),
     ss_world = \<lparr>w_env = (\<lambda>_. quiet_answer), w_next = 0, w_trace = []\<rparr>\<rparr>"

theorem reserve_id_complete_witness:
  "unat (alloc_id (idle_server 0x7fffffff)) < 2 ^ 31 \<and> (case reserve_id (idle_server 0x7fffffff) of
      (None, ss') \<Rightarrow> (\<forall>i<MAX_SOCKET. stype (slot (idle_server 0x7fffffff) i) \<noteq> SOCKET_TYPE_INVALID) \<and>
        slot ss' = slot (idle_server 0x7fffffff)
    | (Some k, ss') \<Rightarrow> 0 \<le> sint k \<and> stype (slot (idle_server 0x7fffffff) (HASH_ID k)) = SOCKET_TYPE_INVALID \<and>
        slot ss' = (slot (idle_server 0x7fffffff))(HASH_ID k :=
          (slot (idle_server 0x7fffffff) (HASH_ID k))\<lparr>stype := SOCKET_TYPE_RESERVE, sid := k, fd := - 1\<rparr>))"
proof -
  have "unat (alloc_id (idle_server 0x7fffffff)) < 2 ^ 31" by (simp add: idle_server_def)
  with reserve_id_complete [OF this] show ?thesis by (rule conjI [rotated])
qed

lemma reserve_id_free:
  assumes "stype (slot ss (HASH_ID (next_id (alloc_id ss)))) = SOCKET_TYPE_INVALID"
  shows "reserve_id ss = (Some (next_id (alloc_id ss)), upd_slot (HASH_ID (next_id (alloc_id ss)))
    (\<lambda>s. s\<lparr>stype := SOCKET_TYPE_RESERVE, sid := next_id (alloc_id ss), fd := - 1\<rparr>) (ss\<lparr>alloc_id := next_id (alloc_id ss)\<rparr>))"
proof -
  have "MAX_SOCKET \<noteq> 0" by (simp add: MAX_SOCKET_def)
  then obtain n where n: "MAX_SOCKET = Suc n" using not0_implies_Suc by blast
  have "reserve_loop (Suc n) ss = (Some (next_id (alloc_id ss)), upd_slot (HASH_ID (next_id (alloc_id ss)))
      (\<lambda>s. s\<lparr>stype := SOCKET_TYPE_RESERVE, sid := next_id (alloc_id ss), fd := - 1\<rparr>) (ss\<lparr>alloc_id := next_id (alloc_id ss)\<rparr>))"
    using assms by (simp add: Let_def)
  then show ?thesis by (simp only: reserve_id_def n)
qed

end
