(* ===== verification/Socket_Request.thy ===== *)
theory Socket_Request
  imports Socket_Slots C_String
begin

text \<open>
  The control pipe of the socket server (\<open>network/socket/socket_server.c\<close>): the functions of the
  interface write a request as a type byte, a length byte and the bytes of a structure; the poll thread reads
  it back and runs it. Structures are laid out as on a 64-bit little-endian machine. The memory of the
  union \<open>u\<close> of \<open>request_package\<close> is uninitialised; \<open>u\<close> below is what it holds.
\<close>

section \<open>Structures as bytes\<close>

definition get_word :: "byte list \<Rightarrow> nat \<Rightarrow> 'a::len word option" where
  "get_word bs off = map_option bytes_word (mem_read bs off (LENGTH('a) div 8))"

definition get_int :: "byte list \<Rightarrow> nat \<Rightarrow> int option" where
  "get_int bs off = map_option (\<lambda>w :: u32. sint w) (get_word bs off)"

definition put_word :: "nat \<Rightarrow> 'a::len word \<Rightarrow> byte list \<Rightarrow> byte list option" where
  "put_word off w u = mem_write u off (word_bytes w)"

definition put_int :: "nat \<Rightarrow> int \<Rightarrow> byte list \<Rightarrow> byte list option" where
  "put_int off x u = put_word off (word_of_int x :: u32) u"

definition sizeof_open :: nat where "sizeof_open = 24"
definition sizeof_send :: nat where "sizeof_send = 16"
definition sizeof_close :: nat where "sizeof_close = 16"
definition sizeof_listen :: nat where "sizeof_listen = 24"
definition sizeof_bind :: nat where "sizeof_bind = 16"
definition sizeof_start :: nat where "sizeof_start = 16"
definition sizeof_setopt :: nat where "sizeof_setopt = 12"
definition sizeof_udp :: nat where "sizeof_udp = 24"
definition sizeof_setudp_id :: nat where "sizeof_setudp_id = 4"

lemmas sizeof_requests = sizeof_open_def sizeof_send_def sizeof_close_def sizeof_listen_def sizeof_bind_def
  sizeof_start_def sizeof_setopt_def sizeof_udp_def sizeof_setudp_id_def

definition put_open :: "request_open \<Rightarrow> byte list \<Rightarrow> byte list option" where
  "put_open r u = do {
     u \<leftarrow> put_word 8 (ro_opaque r) u;
     u \<leftarrow> put_word 0 (ro_id r) u;
     u \<leftarrow> put_int 4 (ro_port r) u;
     u \<leftarrow> mem_write u 16 (ro_host r);
     mem_write u (16 + length (ro_host r)) [0]
   }"

definition put_send :: "request_send \<Rightarrow> byte list \<Rightarrow> byte list option" where
  "put_send r u = do {
     u \<leftarrow> put_word 0 (rs_id r) u;
     u \<leftarrow> put_int 4 (rs_sz r) u;
     put_word 8 (of_nat (rs_buffer r) :: u64) u
   }"

definition put_close :: "request_close \<Rightarrow> byte list \<Rightarrow> byte list option" where
  "put_close r u = do {
     u \<leftarrow> put_word 0 (rc_id r) u;
     put_word 8 (rc_opaque r) u
   }"

definition put_listen :: "request_listen \<Rightarrow> byte list \<Rightarrow> byte list option" where
  "put_listen r u = do {
     u \<leftarrow> put_word 8 (rl_opaque r) u;
     u \<leftarrow> put_word 0 (rl_id r) u;
     put_int 4 (rl_fd r) u
   }"

definition put_bind :: "request_bind \<Rightarrow> byte list \<Rightarrow> byte list option" where
  "put_bind r u = do {
     u \<leftarrow> put_word 8 (rb_opaque r) u;
     u \<leftarrow> put_word 0 (rb_id r) u;
     put_int 4 (rb_fd r) u
   }"

definition put_start :: "request_start \<Rightarrow> byte list \<Rightarrow> byte list option" where
  "put_start r u = do {
     u \<leftarrow> put_word 0 (rt_id r) u;
     put_word 8 (rt_opaque r) u
   }"

definition put_setopt :: "request_setopt \<Rightarrow> byte list \<Rightarrow> byte list option" where
  "put_setopt r u = do {
     u \<leftarrow> put_word 0 (rp_id r) u;
     u \<leftarrow> put_int 4 (rp_what r) u;
     put_int 8 (rp_value r) u
   }"

definition put_udp :: "request_udp \<Rightarrow> byte list \<Rightarrow> byte list option" where
  "put_udp r u = do {
     u \<leftarrow> put_word 0 (ru_id r) u;
     u \<leftarrow> put_int 4 (ru_fd r) u;
     u \<leftarrow> put_word 16 (ru_opaque r) u;
     put_int 8 (ru_family r) u
   }"

definition put_setudp :: "request_setudp \<Rightarrow> byte list \<Rightarrow> byte list option" where
  "put_setudp r u = do {
     u \<leftarrow> put_word 0 (rd_id r) u;
     mem_write u 4 (rd_address r)
   }"

definition get_open :: "byte list \<Rightarrow> request_open option" where
  "get_open bs = do {
     k \<leftarrow> get_word bs 0;
     p \<leftarrow> get_int bs 4;
     q \<leftarrow> get_word bs 8;
     (if 0 \<in> set (drop 16 bs) then Some \<lparr>ro_id = k, ro_port = p, ro_opaque = q, ro_host = c_str (drop 16 bs)\<rparr> else None)
   }"

definition get_send :: "byte list \<Rightarrow> request_send option" where
  "get_send bs = do {
     k \<leftarrow> get_word bs 0;
     n \<leftarrow> get_int bs 4;
     b \<leftarrow> (get_word bs 8 :: u64 option);
     Some \<lparr>rs_id = k, rs_sz = n, rs_buffer = unat b\<rparr>
   }"

definition get_close :: "byte list \<Rightarrow> request_close option" where
  "get_close bs = do {
     k \<leftarrow> get_word bs 0;
     q \<leftarrow> get_word bs 8;
     Some \<lparr>rc_id = k, rc_opaque = q\<rparr>
   }"

definition get_listen :: "byte list \<Rightarrow> request_listen option" where
  "get_listen bs = do {
     k \<leftarrow> get_word bs 0;
     f \<leftarrow> get_int bs 4;
     q \<leftarrow> get_word bs 8;
     Some \<lparr>rl_id = k, rl_fd = f, rl_opaque = q\<rparr>
   }"

definition get_bind :: "byte list \<Rightarrow> request_bind option" where
  "get_bind bs = do {
     k \<leftarrow> get_word bs 0;
     f \<leftarrow> get_int bs 4;
     q \<leftarrow> get_word bs 8;
     Some \<lparr>rb_id = k, rb_fd = f, rb_opaque = q\<rparr>
   }"

definition get_start :: "byte list \<Rightarrow> request_start option" where
  "get_start bs = do {
     k \<leftarrow> get_word bs 0;
     q \<leftarrow> get_word bs 8;
     Some \<lparr>rt_id = k, rt_opaque = q\<rparr>
   }"

definition get_setopt :: "byte list \<Rightarrow> request_setopt option" where
  "get_setopt bs = do {
     k \<leftarrow> get_word bs 0;
     a \<leftarrow> get_int bs 4;
     v \<leftarrow> get_int bs 8;
     Some \<lparr>rp_id = k, rp_what = a, rp_value = v\<rparr>
   }"

definition get_udp :: "byte list \<Rightarrow> request_udp option" where
  "get_udp bs = do {
     k \<leftarrow> get_word bs 0;
     f \<leftarrow> get_int bs 4;
     a \<leftarrow> get_int bs 8;
     q \<leftarrow> get_word bs 16;
     Some \<lparr>ru_id = k, ru_fd = f, ru_family = a, ru_opaque = q\<rparr>
   }"

definition get_setudp :: "byte list \<Rightarrow> request_setudp option" where
  "get_setudp bs = do {
     k \<leftarrow> get_word bs 0;
     Some \<lparr>rd_id = k, rd_address = drop 4 bs\<rparr>
   }"

section \<open>The poll thread's end of the pipe\<close>

text \<open>
  A read that fails for another reason than an interrupt leaves the caller with uninitialised memory.
\<close>

partial_function (option) block_readpipe :: "int \<Rightarrow> nat \<Rightarrow> world \<Rightarrow> (byte list \<times> world) option" where
  "block_readpipe pipefd sz W = (case sys_read pipefd sz W of
     (n, bs, e, W) \<Rightarrow>
       if n < 0 then (if e = EINTR then block_readpipe pipefd sz W else None)
       else if n = int sz then Some (bs, W) else None)"

definition has_cmd :: "socket_server \<Rightarrow> bool \<times> socket_server" where
  "has_cmd ss = (case sys_int (Sys_Select (recvctrl_fd ss)) (ss_world ss) of
     (r, e, W) \<Rightarrow> (r = 1, ss\<lparr>ss_world := W\<rparr>))"

definition ctrl_dispatch ::
    "byte \<Rightarrow> byte list \<Rightarrow> socket_message \<Rightarrow> socket_server \<Rightarrow> (int \<times> socket_message \<times> socket_server) option" where
  "ctrl_dispatch t bs result ss =
     (if t = 83 then get_start bs \<bind> (\<lambda>r. start_socket r result ss)
      else if t = 66 then get_bind bs \<bind> (\<lambda>r. bind_socket r result ss)
      else if t = 76 then get_listen bs \<bind> (\<lambda>r. listen_socket r result ss)
      else if t = 75 then get_close bs \<bind> (\<lambda>r. close_socket r result ss)
      else if t = 79 then get_open bs \<bind> (\<lambda>r. open_socket r result ss)
      else if t = 88 then Some (SOCKET_EXIT, \<lparr>msg_id = 0, msg_opaque = 0, msg_ud = 0, msg_data = None\<rparr>, ss)
      else if t = 68 then get_send bs \<bind> (\<lambda>r. send_socket r result PRIORITY_HIGH None ss)
      else if t = 80 then get_send bs \<bind> (\<lambda>r. send_socket r result PRIORITY_LOW None ss)
      else if t = 65 then get_send bs \<bind> (\<lambda>r. send_socket r result PRIORITY_HIGH (Some (drop sizeof_send bs)) ss)
      else if t = 67 then get_setudp bs \<bind> (\<lambda>r. set_udp_address r result ss)
      else if t = 84 then get_setopt bs \<bind> (\<lambda>r. Some (- 1, result, setopt_socket r ss))
      else if t = 85 then get_udp bs \<bind> (\<lambda>r. add_udp_socket r ss \<bind> (\<lambda>ss. Some (- 1, result, ss)))
      else Some (- 1, result, ss))"

definition ctrl_cmd ::
    "socket_message \<Rightarrow> socket_server \<Rightarrow> (int \<times> socket_message \<times> socket_server) option" where
  "ctrl_cmd result ss = do {
     (header, W) \<leftarrow> block_readpipe (recvctrl_fd ss) 2 (ss_world ss);
     (buffer, W) \<leftarrow> block_readpipe (recvctrl_fd ss) (unat (header ! 1)) W;
     ctrl_dispatch (header ! 0) buffer result (ss\<lparr>ss_world := W\<rparr>)
   }"

section \<open>The interface's end of the pipe\<close>

text \<open>The write is repeated until it succeeds, whatever the error.\<close>

partial_function (option) send_bytes :: "int \<Rightarrow> byte list \<Rightarrow> world \<Rightarrow> world option" where
  "send_bytes f bs W = (case sys_write f bs W of
     (n, e, W) \<Rightarrow> if n < 0 then send_bytes f bs W else if n = int (length bs) then Some W else None)"

definition request_bytes :: "byte list \<Rightarrow> byte \<Rightarrow> nat \<Rightarrow> byte list" where
  "request_bytes u t len = t # of_nat len # take len u"

definition send_request :: "byte list \<Rightarrow> byte \<Rightarrow> nat \<Rightarrow> socket_server \<Rightarrow> socket_server option" where
  "send_request u t len ss = do {
     W \<leftarrow> send_bytes (sendctrl_fd ss) (request_bytes u t len) (ss_world ss);
     Some (ss\<lparr>ss_world := W\<rparr>)
   }"

text \<open>The result is the number of bytes of the host name and the filled union.\<close>

definition open_request ::
    "byte list \<Rightarrow> u64 \<Rightarrow> byte list \<Rightarrow> int \<Rightarrow> socket_server \<Rightarrow> ((u32 \<times> nat \<times> byte list) option \<times> socket_server) option" where
  "open_request u opq addr port ss =
     (if length addr + sizeof_open > 256 then Some (None, ss)
      else (case reserve_id ss of
          (None, ss) \<Rightarrow> Some (None, ss)
        | (Some k, ss) \<Rightarrow> do {
            u \<leftarrow> put_open \<lparr>ro_id = k, ro_port = port, ro_opaque = opq, ro_host = addr\<rparr> u;
            Some (Some (k, length addr, u), ss)
          }))"

definition socket_server_connect ::
    "byte list \<Rightarrow> u64 \<Rightarrow> byte list \<Rightarrow> int \<Rightarrow> socket_server \<Rightarrow> (int \<times> socket_server) option" where
  "socket_server_connect u opq addr port ss = do {
     (r, ss) \<leftarrow> open_request u opq addr port ss;
     (case r of
        None \<Rightarrow> Some (- 1, ss)
      | Some (k, len, u) \<Rightarrow> do {
          ss \<leftarrow> send_request u 79 (sizeof_open + len) ss;
          Some (sint k, ss)
        })
   }"

definition free_buffer :: "nat \<Rightarrow> int \<Rightarrow> socket_server \<Rightarrow> socket_server option" where
  "free_buffer buffer sz ss = do {
     so \<leftarrow> send_object_init ss buffer sz;
     object_free (so_userobject so) buffer ss
   }"

definition send_prio :: "byte \<Rightarrow> byte list \<Rightarrow> u32 \<Rightarrow> nat \<Rightarrow> int \<Rightarrow> socket_server \<Rightarrow> (int \<times> socket_server) option" where
  "send_prio t u k buffer sz ss = do {
     let s = slot ss (HASH_ID k);
     (if sid s \<noteq> k \<or> stype s = SOCKET_TYPE_INVALID then do {
        ss \<leftarrow> free_buffer buffer sz ss;
        Some (- 1, ss)
      }
      else do {
        u \<leftarrow> put_send \<lparr>rs_id = k, rs_sz = sz, rs_buffer = buffer\<rparr> u;
        ss \<leftarrow> send_request u t sizeof_send ss;
        Some (wb_size (slot ss (HASH_ID k)), ss)
      })
   }"

definition socket_server_send :: "byte list \<Rightarrow> u32 \<Rightarrow> nat \<Rightarrow> int \<Rightarrow> socket_server \<Rightarrow> (int \<times> socket_server) option" where
  "socket_server_send u k buffer sz ss = send_prio 68 u k buffer sz ss"

definition socket_server_send_lowpriority :: "byte list \<Rightarrow> u32 \<Rightarrow> nat \<Rightarrow> int \<Rightarrow> socket_server \<Rightarrow> socket_server option" where
  "socket_server_send_lowpriority u k buffer sz ss = map_option snd (send_prio 80 u k buffer sz ss)"

definition socket_server_exit :: "byte list \<Rightarrow> socket_server \<Rightarrow> socket_server option" where
  "socket_server_exit u ss = send_request u 88 0 ss"

definition socket_server_close :: "byte list \<Rightarrow> u64 \<Rightarrow> u32 \<Rightarrow> socket_server \<Rightarrow> socket_server option" where
  "socket_server_close u opq k ss = do {
     u \<leftarrow> put_close \<lparr>rc_id = k, rc_opaque = opq\<rparr> u;
     send_request u 75 sizeof_close ss
   }"

definition IPPROTO_TCP :: int where "IPPROTO_TCP = 6"
definition IPPROTO_UDP :: int where "IPPROTO_UDP = 17"

definition str_any :: "byte list" where "str_any = [48, 46, 48, 46, 48, 46, 48]"

definition do_bind ::
    "byte list option \<Rightarrow> int \<Rightarrow> int \<Rightarrow> world \<Rightarrow> (int \<times> int option \<times> world) option" where
  "do_bind host port proto W = do {
     let host = (case host of None \<Rightarrow> str_any | Some h \<Rightarrow> if h = [] then str_any else h);
     (if proto \<noteq> IPPROTO_TCP \<and> proto \<noteq> IPPROTO_UDP then None
      else do {
        let (status, ais, W) = sys_getaddrinfo host port W;
        (if status \<noteq> 0 then Some (- 1, None, W)
         else (case ais of
             [] \<Rightarrow> None
           | ai # _ \<Rightarrow>
               (let family = Some (ai_family ai); (f, e, W) = sys_int (Sys_Socket (ai_family ai)) W in
                if f < 0 then Some (- 1, family, W)
                else let (r, e, W) = sys_int (Sys_Setsockopt f SO_REUSEADDR 1) W in
                  if r = - 1 then Some (- 1, family, sys_do (Sys_Close f) W)
                  else let (r, e, W) = sys_int (Sys_Bind f (ai_addr ai)) W in
                    if r \<noteq> 0 then Some (- 1, family, sys_do (Sys_Close f) W)
                    else Some (f, family, W))))
      })
   }"

definition do_listen :: "byte list option \<Rightarrow> int \<Rightarrow> int \<Rightarrow> world \<Rightarrow> (int \<times> world) option" where
  "do_listen host port backlog W = do {
     (f, _, W) \<leftarrow> do_bind host port IPPROTO_TCP W;
     (if f < 0 then Some (- 1, W)
      else let (r, e, W) = sys_int (Sys_Listen f backlog) W in
        if r = - 1 then Some (- 1, sys_do (Sys_Close f) W) else Some (f, W))
   }"

definition socket_server_listen ::
    "byte list \<Rightarrow> u64 \<Rightarrow> byte list option \<Rightarrow> int \<Rightarrow> int \<Rightarrow> socket_server \<Rightarrow> (int \<times> socket_server) option" where
  "socket_server_listen u opq addr port backlog ss = do {
     (f, W) \<leftarrow> do_listen addr port backlog (ss_world ss);
     let ss = ss\<lparr>ss_world := W\<rparr>;
     (if f < 0 then Some (- 1, ss)
      else (case reserve_id ss of
          (None, ss) \<Rightarrow> Some (- 1, close_fd f ss)
        | (Some k, ss) \<Rightarrow> do {
            u \<leftarrow> put_listen \<lparr>rl_id = k, rl_fd = f, rl_opaque = opq\<rparr> u;
            ss \<leftarrow> send_request u 76 sizeof_listen ss;
            Some (sint k, ss)
          }))
   }"

definition socket_server_bind :: "byte list \<Rightarrow> u64 \<Rightarrow> int \<Rightarrow> socket_server \<Rightarrow> (int \<times> socket_server) option" where
  "socket_server_bind u opq f ss = (case reserve_id ss of
     (None, ss) \<Rightarrow> Some (- 1, ss)
   | (Some k, ss) \<Rightarrow> do {
       u \<leftarrow> put_bind \<lparr>rb_id = k, rb_fd = f, rb_opaque = opq\<rparr> u;
       ss \<leftarrow> send_request u 66 sizeof_bind ss;
       Some (sint k, ss)
     })"

definition socket_server_start :: "byte list \<Rightarrow> u64 \<Rightarrow> u32 \<Rightarrow> socket_server \<Rightarrow> socket_server option" where
  "socket_server_start u opq k ss = do {
     u \<leftarrow> put_start \<lparr>rt_id = k, rt_opaque = opq\<rparr> u;
     send_request u 83 sizeof_start ss
   }"

definition socket_server_nodelay :: "byte list \<Rightarrow> u32 \<Rightarrow> socket_server \<Rightarrow> socket_server option" where
  "socket_server_nodelay u k ss = do {
     u \<leftarrow> put_setopt \<lparr>rp_id = k, rp_what = TCP_NODELAY, rp_value = 1\<rparr> u;
     send_request u 84 sizeof_setopt ss
   }"

definition socket_server_userobject :: "socket_object_interface \<Rightarrow> socket_server \<Rightarrow> socket_server" where
  "socket_server_userobject i ss = ss\<lparr>soi := Some i\<rparr>"

section \<open>UDP\<close>

definition socket_server_udp ::
    "byte list \<Rightarrow> u64 \<Rightarrow> byte list option \<Rightarrow> int \<Rightarrow> socket_server \<Rightarrow> (int \<times> socket_server) option" where
  "socket_server_udp u opq addr port ss = do {
     (f, family, W) \<leftarrow> (if port \<noteq> 0 \<or> addr \<noteq> None then do_bind addr port IPPROTO_UDP (ss_world ss)
       else (case sys_int (Sys_Socket AF_INET) (ss_world ss) of (f, e, W) \<Rightarrow> Some (f, Some AF_INET, W)));
     (if f < 0 then Some (- 1, ss\<lparr>ss_world := W\<rparr>)
      else do {
        family \<leftarrow> family;
        let ss = sp_nonblocking f (ss\<lparr>ss_world := W\<rparr>);
        (case reserve_id ss of
           (None, ss) \<Rightarrow> Some (- 1, close_fd f ss)
         | (Some k, ss) \<Rightarrow> do {
             u \<leftarrow> put_udp \<lparr>ru_id = k, ru_fd = f, ru_family = family, ru_opaque = opq\<rparr> u;
             ss \<leftarrow> send_request u 85 sizeof_udp ss;
             Some (sint k, ss)
           })
      })
   }"

definition udp_address_size :: "byte \<Rightarrow> nat option" where
  "udp_address_size t = (if t = protocol_byte PROTOCOL_UDP then Some 7
     else if t = protocol_byte PROTOCOL_UDPv6 then Some 19 else None)"

text \<open>The address is read without a test for the null pointer.\<close>

definition socket_server_udp_send ::
    "byte list \<Rightarrow> u32 \<Rightarrow> byte list option \<Rightarrow> nat \<Rightarrow> int \<Rightarrow> socket_server \<Rightarrow> (int \<times> socket_server) option" where
  "socket_server_udp_send u k addr buffer sz ss = do {
     let s = slot ss (HASH_ID k);
     (if sid s \<noteq> k \<or> stype s = SOCKET_TYPE_INVALID then do {
        ss \<leftarrow> free_buffer buffer sz ss;
        Some (- 1, ss)
      }
      else do {
        u \<leftarrow> put_send \<lparr>rs_id = k, rs_sz = sz, rs_buffer = buffer\<rparr> u;
        addr \<leftarrow> addr;
        t \<leftarrow> mem_read addr 0 1;
        (case udp_address_size (t ! 0) of
           None \<Rightarrow> do {
             ss \<leftarrow> free_buffer buffer sz ss;
             Some (- 1, ss)
           }
         | Some addrsz \<Rightarrow> do {
             a \<leftarrow> mem_read addr 0 addrsz;
             u \<leftarrow> mem_write u sizeof_send a;
             ss \<leftarrow> send_request u 65 (sizeof_send + addrsz) ss;
             Some (wb_size (slot ss (HASH_ID k)), ss)
           })
      })
   }"

definition gen_udp_address :: "protocol \<Rightarrow> sockaddr_all \<Rightarrow> byte list option" where
  "gen_udp_address proto sa = (case (proto = PROTOCOL_UDP, sa) of
     (True, V4 port a) \<Rightarrow> Some (protocol_byte proto # word_bytes port @ word_bytes a)
   | (False, V6 port a) \<Rightarrow> Some (protocol_byte proto # word_bytes port @ word_bytes a)
   | _ \<Rightarrow> None)"

definition socket_server_udp_connect ::
    "byte list \<Rightarrow> u32 \<Rightarrow> byte list \<Rightarrow> int \<Rightarrow> socket_server \<Rightarrow> (int \<times> socket_server) option" where
  "socket_server_udp_connect u k addr port ss = do {
     let (status, ais, W) = sys_getaddrinfo addr port (ss_world ss);
     let ss = ss\<lparr>ss_world := W\<rparr>;
     (if status \<noteq> 0 then Some (- 1, ss)
      else (case ais of
          [] \<Rightarrow> None
        | ai # _ \<Rightarrow>
            (if ai_family ai \<noteq> AF_INET \<and> ai_family ai \<noteq> AF_INET6 then Some (- 1, ss)
             else do {
               a \<leftarrow> gen_udp_address (if ai_family ai = AF_INET then PROTOCOL_UDP else PROTOCOL_UDPv6) (ai_addr ai);
               u \<leftarrow> put_setudp \<lparr>rd_id = k, rd_address = a\<rparr> u;
               ss \<leftarrow> send_request u 67 (sizeof_setudp_id + length a) ss;
               Some (0, ss)
             })))
   }"

text \<open>The address a UDP message carries behind its data.\<close>

definition socket_server_udp_address :: "socket_message \<Rightarrow> byte list option option" where
  "socket_server_udp_address msg = do {
     d \<leftarrow> msg_data msg;
     t \<leftarrow> mem_read d (nat (msg_ud msg)) 1;
     (case udp_address_size (t ! 0) of
        None \<Rightarrow> Some None
      | Some n \<Rightarrow> do {
          a \<leftarrow> mem_read d (nat (msg_ud msg)) n;
          Some (Some a)
        })
   }"

definition socket_server_init_pipe :: "socket_server \<Rightarrow> int \<times> int" where
  "socket_server_init_pipe ss = (recvctrl_fd ss, sendctrl_fd ss)"

end
