(* ===== verification/Socket_Poll.thy ===== *)
theory Socket_Poll
  imports Socket_Request
begin

text \<open>
  Events of the socket server (\<open>network/socket/socket_server.c\<close>): data of TCP and UDP sockets,
  finished connects, new clients, and the loop of \<open>socket_server_poll\<close> that serves the control pipe and
  the events of the poll interface. The loop has no bound of its own; a run that never returns is
  \<open>None\<close>.
\<close>

section \<open>Received data\<close>

text \<open>Doubling the read size past the range of \<open>int\<close> is undefined.\<close>

definition next_read_size :: "int \<Rightarrow> int \<Rightarrow> int option" where
  "next_read_size sz n = (if n = sz then (if 2 * sz < 2 ^ 31 then Some (2 * sz) else None)
     else if sz > MIN_READ_BUFFER \<and> n * 2 < sz then Some (sz div 2) else Some sz)"

definition forward_message_tcp ::
    "nat \<Rightarrow> socket_message \<Rightarrow> socket_server \<Rightarrow> (int \<times> socket_message \<times> socket_server) option" where
  "forward_message_tcp i result ss = do {
     let s = slot ss i;
     let (n, bs, e, W) = sys_read (fd s) (nat (p_size s)) (ss_world ss);
     let ss = ss\<lparr>ss_world := W\<rparr>;
     (if n < 0 then
        (if e = EINTR \<or> e = EAGAIN then Some (- 1, result, ss)
         else do {
           (result, ss) \<leftarrow> force_close i result ss;
           Some (SOCKET_ERROR, result, ss)
         })
      else if n = 0 then do {
        (result, ss) \<leftarrow> force_close i result ss;
        Some (SOCKET_CLOSE, result, ss)
      }
      else if stype s = SOCKET_TYPE_HALFCLOSE then Some (- 1, result, ss)
      else do {
        sz \<leftarrow> next_read_size (p_size s) n;
        Some (SOCKET_DATA, \<lparr>msg_id = sid s, msg_opaque = opaque s, msg_ud = n, msg_data = Some bs\<rparr>,
          upd_slot i (\<lambda>s. s\<lparr>p_size := sz\<rparr>) ss)
      })
   }"

definition forward_message_udp ::
    "nat \<Rightarrow> socket_message \<Rightarrow> socket_server \<Rightarrow> (int \<times> socket_message \<times> socket_server) option" where
  "forward_message_udp i result ss = do {
     let s = slot ss i;
     let (n, bs, sa, e, W) = sys_recvfrom (fd s) MAX_UDP_PACKAGE (ss_world ss);
     let ss = ss\<lparr>ss_world := W\<rparr>;
     (if n < 0 then
        (if e = EINTR \<or> e = EAGAIN then Some (- 1, result, ss)
         else do {
           (result, ss) \<leftarrow> force_close i result ss;
           Some (SOCKET_ERROR, result, ss)
         })
      else do {
        let proto = (case sa of V4 _ _ \<Rightarrow> PROTOCOL_UDP | V6 _ _ \<Rightarrow> PROTOCOL_UDPv6);
        (if sprotocol s \<noteq> proto then Some (- 1, result, ss)
         else do {
           a \<leftarrow> gen_udp_address proto sa;
           Some (SOCKET_UDP, \<lparr>msg_id = sid s, msg_opaque = opaque s, msg_ud = n, msg_data = Some (bs @ a)\<rparr>, ss)
         })
      })
   }"

section \<open>Connections\<close>

definition report_connect ::
    "nat \<Rightarrow> socket_message \<Rightarrow> socket_server \<Rightarrow> (int \<times> socket_message \<times> socket_server) option" where
  "report_connect i result ss = do {
     let s = slot ss i;
     let error = a_val (next_answer (ss_world ss));
     let (code, e, W) = sys_int (Sys_Getsockopt (fd s)) (ss_world ss);
     let ss = ss\<lparr>ss_world := W\<rparr>;
     (if code < 0 \<or> error \<noteq> 0 then do {
        (result, ss) \<leftarrow> force_close i result ss;
        Some (SOCKET_ERROR, result, ss)
      }
      else do {
        let ss = set_stype i SOCKET_TYPE_CONNECTED ss;
        let result = \<lparr>msg_id = sid s, msg_opaque = opaque s, msg_ud = 0, msg_data = None\<rparr>;
        let ss = (if send_buffer_empty s then sp_write (fd s) i False ss else ss);
        let u = a_addr (next_answer (ss_world ss));
        let (r, e, W) = sys_int (Sys_Getpeername (fd s)) (ss_world ss);
        (if r = 0 then do {
           let (txt, W) = sys_ntop u W;
           Some (SOCKET_OPEN, result\<lparr>msg_data := txt\<rparr>, ss\<lparr>ss_world := W\<rparr>)
         }
         else Some (SOCKET_OPEN, result, ss\<lparr>ss_world := W\<rparr>))
      })
   }"

fun sa_port :: "sockaddr_all \<Rightarrow> u16" where
  "sa_port (V4 p a) = ntohs p"
| "sa_port (V6 p a) = ntohs p"

text \<open>Decimal digits, as \<open>printf\<close> writes an unsigned value.\<close>

fun decimal :: "nat \<Rightarrow> byte list" where
  "decimal n = (if n < 10 then [48 + of_nat n] else decimal (n div 10) @ [48 + of_nat (n mod 10)])"

declare decimal.simps [simp del]

definition MAX_INFO :: nat where "MAX_INFO = 128"

definition report_accept ::
    "nat \<Rightarrow> socket_message \<Rightarrow> socket_server \<Rightarrow> (bool \<times> socket_message \<times> socket_server) option" where
  "report_accept i result ss = do {
     let s = slot ss i;
     let u = a_addr (next_answer (ss_world ss));
     let (client_fd, e, W) = sys_int (Sys_Accept (fd s)) (ss_world ss);
     let ss = ss\<lparr>ss_world := W\<rparr>;
     (if client_fd < 0 then Some (False, result, ss)
      else (case reserve_id ss of
          (None, ss) \<Rightarrow> Some (False, result, close_fd client_fd ss)
        | (Some k, ss) \<Rightarrow> do {
            let ss = upd_world (socket_keepalive client_fd) ss;
            let ss = sp_nonblocking client_fd ss;
            (ns, ss) \<leftarrow> new_fd k client_fd PROTOCOL_TCP (opaque s) False ss;
            (case ns of
               None \<Rightarrow> Some (False, result, close_fd client_fd ss)
             | Some j \<Rightarrow> do {
                 let ss = set_stype j SOCKET_TYPE_PACCEPT ss;
                 let (txt, W) = sys_ntop u (ss_world ss);
                 let data = map_option (\<lambda>t. take (MAX_INFO - 1) (t @ [58] @ decimal (unat (sa_port u)))) txt;
                 Some (True, \<lparr>msg_id = sid s, msg_opaque = opaque s, msg_ud = sint k, msg_data = data\<rparr>,
                   ss\<lparr>ss_world := W\<rparr>)
               })
          }))
   }"

section \<open>The loop\<close>

text \<open>Events of a socket that has been closed by the message are dropped.\<close>

definition clear_event :: "socket_server \<Rightarrow> u32 \<Rightarrow> event \<Rightarrow> event" where
  "clear_event ss k e = (case ev_s e of
     None \<Rightarrow> e
   | Some j \<Rightarrow> if stype (slot ss j) = SOCKET_TYPE_INVALID \<and> sid (slot ss j) = k then e\<lparr>ev_s := None\<rparr> else e)"

definition clear_closed_event :: "socket_message \<Rightarrow> int \<Rightarrow> socket_server \<Rightarrow> socket_server" where
  "clear_closed_event result t ss =
     (if t = SOCKET_CLOSE \<or> t = SOCKET_ERROR then
        let i = nat (event_index ss); n = nat (event_n ss) in
        ss\<lparr>ev := take i (ev ss) @ map (clear_event ss (msg_id result)) (drop i (take n (ev ss))) @ drop (max i n) (ev ss)\<rparr>
      else ss)"

text \<open>
  What one event makes of the server: \<open>None\<close> as first component is a \<open>break\<close> of the switch,
  which continues the loop.
\<close>

definition poll_event ::
    "nat \<Rightarrow> socket_message \<Rightarrow> socket_server \<Rightarrow> (int option \<times> socket_message \<times> socket_server) option" where
  "poll_event n result ss = do {
     let e = ev ss ! n;
     (case ev_s e of
        None \<Rightarrow> Some (None, result, ss)
      | Some i \<Rightarrow>
          (let s = slot ss i; t = stype s in
           if t = SOCKET_TYPE_CONNECTING then do {
             (r, result, ss) \<leftarrow> report_connect i result ss;
             Some (Some r, result, ss)
           }
           else if t = SOCKET_TYPE_LISTEN then do {
             (ok, result, ss) \<leftarrow> report_accept i result ss;
             Some (if ok then Some SOCKET_ACCEPT else None, result, ss)
           }
           else if t = SOCKET_TYPE_INVALID then Some (None, result, ss)
           else if ev_read e then do {
             (r, result, ss) \<leftarrow> (if sprotocol s = PROTOCOL_TCP then forward_message_tcp i result ss
               else forward_message_udp i result ss);
             (if sprotocol s \<noteq> PROTOCOL_TCP \<and> r = SOCKET_UDP
              then Some (Some SOCKET_UDP, result, ss\<lparr>event_index := event_index ss - 1\<rparr>)
              else do {
                let ss = (if ev_write e then ss\<lparr>ev := (ev ss)[n := e\<lparr>ev_read := False\<rparr>],
                    event_index := event_index ss - 1\<rparr> else ss);
                (if r = - 1 then Some (None, result, ss)
                 else Some (Some r, result, clear_closed_event result r ss))
              })
           }
           else if ev_write e then do {
             (r, result, ss) \<leftarrow> send_buffer i result ss;
             (if r = - 1 then Some (None, result, ss)
              else Some (Some r, result, clear_closed_event result r ss))
           }
           else Some (None, result, ss)))
   }"

text \<open>The events are fetched when the last ones are used up; the result says whether the poll goes on.\<close>

definition poll_fetch :: "int option \<Rightarrow> socket_server \<Rightarrow> bool \<times> int option \<times> socket_server" where
  "poll_fetch mr ss =
     (if event_index ss = event_n ss then
        (let (n, es, ss) = sp_wait ss;
             ss = ss\<lparr>ev := es, event_n := n, checkctrl := True, event_index := 0\<rparr>;
             mr = map_option (\<lambda>_. 0) mr in
         if n \<le> 0 then (False, mr, ss\<lparr>event_n := 0\<rparr>) else (True, mr, ss))
      else (True, mr, ss))"

partial_function (option) socket_server_poll ::
    "int option \<Rightarrow> socket_message \<Rightarrow> socket_server \<Rightarrow> (int \<times> socket_message \<times> int option \<times> socket_server) option" where
  "socket_server_poll mr result ss = do {
     let (cmd, ss) = (if checkctrl ss then has_cmd ss else (False, ss));
     (if cmd then do {
        (r, result, ss) \<leftarrow> ctrl_cmd result ss;
        (if r \<noteq> - 1 then Some (r, result, mr, clear_closed_event result r ss)
         else socket_server_poll mr result ss)
      }
      else do {
        let (go, mr, ss) = poll_fetch mr (ss\<lparr>checkctrl := False\<rparr>);
        (if \<not> go then Some (- 1, result, mr, ss)
         else do {
           let n = nat (event_index ss);
           (r, result, ss) \<leftarrow> poll_event n result (ss\<lparr>event_index := event_index ss + 1\<rparr>);
           (case r of
              Some r \<Rightarrow> Some (r, result, mr, ss)
            | None \<Rightarrow> socket_server_poll mr result ss)
         })
      })
   }"


section \<open>Read size\<close>

text \<open>
  C33. Adaptive read buffer. The read size of a TCP socket is always 64 times a power of two: it doubles after
  a read that filled it, halves, never below 64, after one that used less than half, and data handed
  over is never longer than the buffer it was read into.
\<close>

theorem read_size_adapts:
  assumes "p_size (slot ss i) = MIN_READ_BUFFER * 2 ^ k" "forward_message_tcp i res ss = Some (SOCKET_DATA, msg, ss')"
  shows "(\<exists>k'. p_size (slot ss' i) = MIN_READ_BUFFER * 2 ^ k') \<and>
    0 < msg_ud msg \<and> msg_ud msg \<le> p_size (slot ss i) \<and>
    (\<exists>d. msg_data msg = Some d \<and> int (length d) = msg_ud msg) \<and>
    p_size (slot ss' i) = (if msg_ud msg = p_size (slot ss i) then 2 * p_size (slot ss i)
      else if MIN_READ_BUFFER < p_size (slot ss i) \<and> 2 * msg_ud msg < p_size (slot ss i) then p_size (slot ss i) div 2
      else p_size (slot ss i))"
proof -
  let ?sz = "p_size (slot ss i)" and ?a = "next_answer (ss_world ss)"
  let ?d = "take (nat ?sz) (a_data ?a)"
  have codes: "SOCKET_DATA \<noteq> - 1" "SOCKET_DATA \<noteq> SOCKET_ERROR" "SOCKET_DATA \<noteq> SOCKET_CLOSE" by (simp_all add: socket_codes)
  have ok: "\<not> a_ret ?a < 0" "?d \<noteq> []"
    using assms(2) codes by (auto simp: forward_message_tcp_def sys_read_def Let_def bind_eq_Some_conv split: if_splits)
  then obtain n where n: "next_read_size ?sz (int (length ?d)) = Some n" "p_size (slot ss' i) = n"
      "msg_ud msg = int (length ?d)" "msg_data msg = Some ?d"
    using assms(2) codes by (auto simp: forward_message_tcp_def sys_read_def Let_def bind_eq_Some_conv split: if_splits)
  have pos: "0 \<le> ?sz" using assms(1) by (simp add: MIN_READ_BUFFER_def)
  have half: "\<exists>k'. ?sz div 2 = MIN_READ_BUFFER * 2 ^ k'" if "MIN_READ_BUFFER < ?sz"
  proof -
    have "k \<noteq> 0" using that assms(1) by (cases k) simp_all
    then obtain j where "k = Suc j" by (cases k) auto
    then show ?thesis using assms(1) by (intro exI [of _ j]) simp
  qed
  have "n = (if int (length ?d) = ?sz then 2 * ?sz else if MIN_READ_BUFFER < ?sz \<and> 2 * int (length ?d) < ?sz then ?sz div 2 else ?sz)"
    using n(1) by (auto simp: next_read_size_def mult.commute split: if_splits)
  moreover have "\<exists>k'. 2 * ?sz = MIN_READ_BUFFER * 2 ^ k'" using assms(1) by (intro exI [of _ "Suc k"]) simp
  moreover have "int (length ?d) \<le> ?sz" using pos by simp
  moreover have "0 < length ?d" using ok(2) by blast
  ultimately show ?thesis using n half assms(1) by (simp split del: if_split) (simp split: if_split)
qed

definition reading_server :: socket_server where
  "reading_server = (idle_server 0)\<lparr>slot := (\<lambda>_. idle_socket\<lparr>stype := SOCKET_TYPE_CONNECTED, p_size := 64\<rparr>),
     ss_world := \<lparr>w_env = (\<lambda>_. quiet_answer\<lparr>a_data := replicate 64 7\<rparr>), w_next = 0, w_trace = []\<rparr>\<rparr>"

theorem read_size_adapts_witness:
  "\<exists>msg ss'. p_size (slot reading_server 1) = MIN_READ_BUFFER * 2 ^ 0 \<and>
    forward_message_tcp 1 \<lparr>msg_id = 0, msg_opaque = 0, msg_ud = 0, msg_data = None\<rparr> reading_server = Some (SOCKET_DATA, msg, ss') \<and>
    (\<exists>k'. p_size (slot ss' 1) = MIN_READ_BUFFER * 2 ^ k') \<and> msg_ud msg \<le> p_size (slot reading_server 1)"
proof -
  have p: "p_size (slot reading_server 1) = MIN_READ_BUFFER * 2 ^ 0" by (simp add: reading_server_def MIN_READ_BUFFER_def)
  obtain msg ss' where f: "forward_message_tcp 1 \<lparr>msg_id = 0, msg_opaque = 0, msg_ud = 0, msg_data = None\<rparr> reading_server =
      Some (SOCKET_DATA, msg, ss')"
    by (simp add: forward_message_tcp_def reading_server_def sys_read_def next_answer_def quiet_answer_def idle_socket_def Let_def
        next_read_size_def)
  from read_size_adapts [OF p f] p f show ?thesis by blast
qed

end
