(* ===== verification/Socket_Pipe.thy ===== *)
theory Socket_Pipe
  imports Socket_Poll Socket_Stream
begin

text \<open>
  The two ends of the control pipe of the socket server together: every function of the interface makes the
  poll thread run the intended handler on the intended values, and where this fails.
\<close>

section \<open>Requests survive the pipe\<close>

lemmas request_layout = put_word_def put_int_def get_word_def get_int_def mem_write_def mem_read_def sizeof_requests

definition int_range :: "int \<Rightarrow> bool" where
  "int_range x \<longleftrightarrow> - (2 ^ 31) \<le> x \<and> x < 2 ^ 31"

lemma sint_word_of_int_u32: "int_range x \<Longrightarrow> sint (word_of_int x :: u32) = x"
  by (simp add: int_range_def int_word_sint)

lemma get_put_close:
  assumes "length u = 256"
  shows "\<exists>u'. put_close r u = Some u' \<and> length u' = 256 \<and> get_close (take sizeof_close u') = Some r"
  using assms by (simp add: put_close_def get_close_def request_layout take_drop min_def)

lemma get_put_start:
  assumes "length u = 256"
  shows "\<exists>u'. put_start r u = Some u' \<and> length u' = 256 \<and> get_start (take sizeof_start u') = Some r"
  using assms by (simp add: put_start_def get_start_def request_layout take_drop min_def)

lemma get_put_listen:
  assumes "length u = 256" "int_range (rl_fd r)"
  shows "\<exists>u'. put_listen r u = Some u' \<and> length u' = 256 \<and> get_listen (take sizeof_listen u') = Some r"
  using assms by (simp add: put_listen_def get_listen_def request_layout take_drop min_def sint_word_of_int_u32)

lemma get_put_bind:
  assumes "length u = 256" "int_range (rb_fd r)"
  shows "\<exists>u'. put_bind r u = Some u' \<and> length u' = 256 \<and> get_bind (take sizeof_bind u') = Some r"
  using assms by (simp add: put_bind_def get_bind_def request_layout take_drop min_def sint_word_of_int_u32)

lemma get_put_setopt:
  assumes "length u = 256" "int_range (rp_what r)" "int_range (rp_value r)"
  shows "\<exists>u'. put_setopt r u = Some u' \<and> length u' = 256 \<and> get_setopt (take sizeof_setopt u') = Some r"
  using assms by (simp add: put_setopt_def get_setopt_def request_layout take_drop min_def sint_word_of_int_u32)

lemma get_put_udp:
  assumes "length u = 256" "int_range (ru_fd r)" "int_range (ru_family r)"
  shows "\<exists>u'. put_udp r u = Some u' \<and> length u' = 256 \<and> get_udp (take sizeof_udp u') = Some r"
  using assms by (simp add: put_udp_def get_udp_def request_layout take_drop min_def sint_word_of_int_u32)

lemma get_put_setudp:
  assumes "length u = 256" "length (rd_address r) \<le> UDP_ADDRESS_SIZE"
  shows "\<exists>u'. put_setudp r u = Some u' \<and> length u' = 256 \<and>
    get_setudp (take (sizeof_setudp_id + length (rd_address r)) u') = Some r"
  using assms by (simp add: put_setudp_def get_setudp_def request_layout take_drop min_def UDP_ADDRESS_SIZE_def)

lemma get_put_send:
  assumes "length u = 256" "int_range (rs_sz r)" "rs_buffer r < 2 ^ 64" "length a \<le> UDP_ADDRESS_SIZE"
  shows "\<exists>u' u''. put_send r u = Some u' \<and> length u' = 256 \<and> get_send (take sizeof_send u') = Some r \<and>
    mem_write u' sizeof_send a = Some u'' \<and> get_send (take (sizeof_send + length a) u'') = Some r \<and>
    drop sizeof_send (take (sizeof_send + length a) u'') = a \<and> length u'' = 256"
  using assms by (simp add: put_send_def get_send_def request_layout take_drop min_def sint_word_of_int_u32 UDP_ADDRESS_SIZE_def
   unat_of_nat)

lemma get_put_open:
  assumes "length u = 256" "int_range (ro_port r)" "length (ro_host r) < 232" "0 \<notin> set (ro_host r)"
  shows "\<exists>u'. put_open r u = Some u' \<and> length u' = 256 \<and> get_open (take (sizeof_open + length (ro_host r)) u') = Some r"
  using assms by (simp add: put_open_def get_open_def request_layout take_drop min_def sint_word_of_int_u32 c_str_take_nul)


section \<open>Writing and reading the pipe\<close>

text \<open>
  What is assumed of the pipe: a write is accepted as a whole after finitely many failures, and a read
  returns a whole message after finitely many interrupts.
\<close>

definition pipe_accepts :: "world \<Rightarrow> nat \<Rightarrow> bool" where
  "pipe_accepts W n \<longleftrightarrow> (\<exists>d. (\<forall>j<d. a_ret (w_env W (w_next W + j)) < 0) \<and> int n \<le> a_ret (w_env W (w_next W + d)))"

definition arrives :: "(nat \<Rightarrow> answer) \<Rightarrow> nat \<Rightarrow> byte list \<Rightarrow> nat \<Rightarrow> bool" where
  "arrives env k bs k' \<longleftrightarrow> k < k' \<and> (\<forall>j. k \<le> j \<and> Suc j < k' \<longrightarrow> interrupted (env j)) \<and>
     0 \<le> a_ret (env (k' - 1)) \<and> length bs \<le> length (a_data (env (k' - 1))) \<and> take (length bs) (a_data (env (k' - 1))) = bs"

lemma send_bytes_ok:
  assumes "pipe_accepts W (length bs)"
  shows "\<exists>W'. send_bytes f bs W = Some W' \<and> written f W' = written f W @ bs \<and> w_env W' = w_env W"
proof -
  obtain d where "\<forall>j<d. a_ret (w_env W (w_next W + j)) < 0" "int (length bs) \<le> a_ret (w_env W (w_next W + d))"
    using assms by (auto simp: pipe_accepts_def)
  then show ?thesis
  proof (induction d arbitrary: W)
    case 0
    then have "io_count (a_ret (next_answer W)) (length bs) = int (length bs)" by (simp add: io_count_def next_answer_def)
    then show ?case by (subst send_bytes.simps) (simp add: sys_write_def Let_def)
  next
    case (Suc d)
    let ?W = "sys_step (Sys_Write f []) W"
    have neg: "a_ret (next_answer W) < 0" using Suc.prems(1) by (auto simp: next_answer_def)
    then have "send_bytes f bs W = send_bytes f bs ?W"
      by (subst send_bytes.simps) (simp add: sys_write_def Let_def io_count_def)
    moreover have "\<exists>W'. send_bytes f bs ?W = Some W' \<and> written f W' = written f ?W @ bs \<and> w_env W' = w_env ?W"
      using Suc.prems by (intro Suc.IH) auto
    ultimately show ?case by simp
  qed
qed

lemma block_readpipe_ok:
  assumes "arrives (w_env W) (w_next W) bs k"
  shows "\<exists>W'. block_readpipe f (length bs) W = Some (bs, W') \<and> w_env W' = w_env W \<and> w_next W' = k"
  using assms
proof (induction "k - w_next W" arbitrary: W)
  case (Suc d)
  show ?case
  proof (cases "Suc (w_next W) = k")
    case True
    then have a: "0 \<le> a_ret (next_answer W)" "take (length bs) (a_data (next_answer W)) = bs"
        "length bs \<le> length (a_data (next_answer W))"
      using Suc.prems by (auto simp: arrives_def next_answer_def)
    then show ?thesis using True
      by (subst block_readpipe.simps) (simp add: sys_read_def Let_def)
  next
    case False
    let ?W = "sys_step (Sys_Read f []) W"
    have i: "interrupted (next_answer W)" and nx: "arrives (w_env ?W) (w_next ?W) bs k"
      using Suc.prems False by (auto simp: arrives_def next_answer_def)
    then have "block_readpipe f (length bs) W = block_readpipe f (length bs) ?W"
      by (subst block_readpipe.simps) (simp add: sys_read_def Let_def interrupted_def)
    then show ?thesis using Suc.hyps(1) [OF _ nx] Suc.hyps(2) by auto
  qed
qed (auto simp: arrives_def)

definition delivers :: "world \<Rightarrow> byte list \<Rightarrow> nat \<Rightarrow> bool" where
  "delivers W bs n \<longleftrightarrow> (\<exists>m. arrives (w_env W) (w_next W) (take 2 bs) m \<and> arrives (w_env W) m (drop 2 bs) n)"

lemma ctrl_cmd_delivered:
  assumes "delivers (ss_world ss) (t # of_nat (length p) # p) n" "length p < 256"
  shows "\<exists>W. ctrl_cmd result ss = ctrl_dispatch t p result (ss\<lparr>ss_world := W\<rparr>) \<and>
    w_env W = w_env (ss_world ss) \<and> w_next W = n"
proof -
  obtain m where m: "arrives (w_env (ss_world ss)) (w_next (ss_world ss)) [t, of_nat (length p)] m"
      "arrives (w_env (ss_world ss)) m p n"
    using assms(1) by (auto simp: delivers_def)
  obtain W1 where W1: "block_readpipe (recvctrl_fd ss) 2 (ss_world ss) = Some ([t, of_nat (length p)], W1)"
      "w_env W1 = w_env (ss_world ss)" "w_next W1 = m"
    using block_readpipe_ok [OF m(1), of "recvctrl_fd ss"] by (auto simp: numeral_2_eq_2)
  obtain W2 where W2: "block_readpipe (recvctrl_fd ss) (length p) W1 = Some (p, W2)" "w_env W2 = w_env W1" "w_next W2 = n"
    using block_readpipe_ok [of W1 p n "recvctrl_fd ss"] m(2) W1(2,3) by auto
  have "unat (of_nat (length p) :: byte) = length p" using assms(2) by (simp add: unat_of_nat)
  then show ?thesis using W1 W2 by (intro exI [of _ W2]) (simp add: ctrl_cmd_def)
qed

text \<open>
  A request has been submitted when it is in the pipe and the poll thread that reads it runs the handler
  on it.
\<close>

definition submitted ::
    "(socket_message \<Rightarrow> socket_server \<Rightarrow> (int \<times> socket_message \<times> socket_server) option)
     \<Rightarrow> socket_server \<Rightarrow> socket_server \<Rightarrow> bool" where
  "submitted f ss ss' \<longleftrightarrow> slot ss' = slot ss \<and> ss_heap ss' = ss_heap ss \<and>
     (\<exists>bs. written (sendctrl_fd ss) (ss_world ss') = written (sendctrl_fd ss) (ss_world ss) @ bs \<and>
       (\<forall>reader n result. delivers (ss_world reader) bs n \<longrightarrow>
         (\<exists>W. ctrl_cmd result reader = f result (reader\<lparr>ss_world := W\<rparr>) \<and>
           w_env W = w_env (ss_world reader) \<and> w_next W = n)))"

lemma pipe_accepts_mono: "pipe_accepts W n \<Longrightarrow> m \<le> n \<Longrightarrow> pipe_accepts W m"
  unfolding pipe_accepts_def by (meson of_nat_le_iff order_trans)

lemma send_request_submitted:
  assumes "pipe_accepts (ss_world ss) 258" "length u = 256" "len < 256"
    and "\<And>result ss. ctrl_dispatch t (take len u) result ss = f result ss"
  shows "\<exists>ss'. send_request u t len ss = Some ss' \<and> submitted f ss ss'"
proof -
  have "pipe_accepts (ss_world ss) (length (request_bytes u t len))"
    using assms(2,3) by (intro pipe_accepts_mono [OF assms(1)]) (simp add: request_bytes_def)
  then obtain W where W: "send_bytes (sendctrl_fd ss) (request_bytes u t len) (ss_world ss) = Some W"
      "written (sendctrl_fd ss) W = written (sendctrl_fd ss) (ss_world ss) @ request_bytes u t len"
    using send_bytes_ok by blast
  have "length (take len u) = len" using assms(2,3) by simp
  then have "\<exists>W. ctrl_cmd result reader = f result (reader\<lparr>ss_world := W\<rparr>) \<and> w_env W = w_env (ss_world reader) \<and> w_next W = n"
    if "delivers (ss_world reader) (request_bytes u t len) n" for reader result n
    using ctrl_cmd_delivered [of reader t "take len u" n result] that assms(3,4) by (simp add: request_bytes_def)
  then show ?thesis
    using W by (auto simp: send_request_def submitted_def)
qed


lemmas dispatch_simps = ctrl_dispatch_def sizeof_requests

lemma close_arrives:
  assumes "length u = 256" "pipe_accepts (ss_world ss) 258"
  shows "\<exists>ss'. socket_server_close u q k ss = Some ss' \<and> submitted (close_socket \<lparr>rc_id = k, rc_opaque = q\<rparr>) ss ss'"
proof -
  obtain u' where u': "put_close \<lparr>rc_id = k, rc_opaque = q\<rparr> u = Some u'" "length u' = 256"
      "get_close (take sizeof_close u') = Some \<lparr>rc_id = k, rc_opaque = q\<rparr>"
    using get_put_close [OF assms(1)] by blast
  have "\<exists>ss'. send_request u' 75 sizeof_close ss = Some ss' \<and> submitted (close_socket \<lparr>rc_id = k, rc_opaque = q\<rparr>) ss ss'"
    using u' by (intro send_request_submitted assms) (simp_all add: dispatch_simps)
  then show ?thesis using u'(1) by (simp add: socket_server_close_def)
qed

lemma start_arrives:
  assumes "length u = 256" "pipe_accepts (ss_world ss) 258"
  shows "\<exists>ss'. socket_server_start u q k ss = Some ss' \<and> submitted (start_socket \<lparr>rt_id = k, rt_opaque = q\<rparr>) ss ss'"
proof -
  obtain u' where u': "put_start \<lparr>rt_id = k, rt_opaque = q\<rparr> u = Some u'" "length u' = 256"
      "get_start (take sizeof_start u') = Some \<lparr>rt_id = k, rt_opaque = q\<rparr>"
    using get_put_start [OF assms(1)] by blast
  have "\<exists>ss'. send_request u' 83 sizeof_start ss = Some ss' \<and> submitted (start_socket \<lparr>rt_id = k, rt_opaque = q\<rparr>) ss ss'"
    using u' by (intro send_request_submitted assms) (simp_all add: dispatch_simps)
  then show ?thesis using u'(1) by (simp add: socket_server_start_def)
qed

lemma nodelay_arrives:
  assumes "length u = 256" "pipe_accepts (ss_world ss) 258"
    "r = \<lparr>rp_id = k, rp_what = TCP_NODELAY, rp_value = 1\<rparr>"
  shows "\<exists>ss'. socket_server_nodelay u k ss = Some ss' \<and> submitted (\<lambda>result ss. Some (- 1, result, setopt_socket r ss)) ss ss'"
proof -
  obtain u' where u': "put_setopt r u = Some u'" "length u' = 256" "get_setopt (take sizeof_setopt u') = Some r"
    using get_put_setopt [OF assms(1), of r] by (auto simp: assms(3) int_range_def TCP_NODELAY_def)
  have "\<exists>ss'. send_request u' 84 sizeof_setopt ss = Some ss' \<and> submitted (\<lambda>result ss. Some (- 1, result, setopt_socket r ss)) ss ss'"
    using u' by (intro send_request_submitted assms) (simp_all add: dispatch_simps)
  then show ?thesis using u'(1) by (simp add: socket_server_nodelay_def assms(3))
qed

lemma send_prio_arrives:
  assumes "length u = 256" "pipe_accepts (ss_world ss) 258" "int_range sz" "b < 2 ^ 64"
    "sid (slot ss (HASH_ID k)) = k" "stype (slot ss (HASH_ID k)) \<noteq> SOCKET_TYPE_INVALID"
    "(t, l) = (68, PRIORITY_HIGH) \<or> (t, l) = (80, PRIORITY_LOW)"
  shows "\<exists>ss'. send_prio t u k b sz ss = Some (wb_size (slot ss (HASH_ID k)), ss') \<and>
    submitted (\<lambda>result. send_socket \<lparr>rs_id = k, rs_sz = sz, rs_buffer = b\<rparr> result l None) ss ss'"
proof -
  let ?r = "\<lparr>rs_id = k, rs_sz = sz, rs_buffer = b\<rparr>"
  obtain u' where u': "put_send ?r u = Some u'" "length u' = 256" "get_send (take sizeof_send u') = Some ?r"
    using get_put_send [OF assms(1), of ?r "[]"] assms(3,4) by auto
  have "\<exists>ss'. send_request u' t sizeof_send ss = Some ss' \<and> submitted (\<lambda>result. send_socket ?r result l None) ss ss'"
    using u' assms(7) by (intro send_request_submitted assms) (auto simp: dispatch_simps)
  then show ?thesis using u'(1) assms(5,6) by (auto simp: send_prio_def submitted_def)
qed

lemma udp_send_arrives:
  assumes "length u = 256" "pipe_accepts (ss_world ss) 258" "int_range sz" "b < 2 ^ 64"
    "sid (slot ss (HASH_ID k)) = k" "stype (slot ss (HASH_ID k)) \<noteq> SOCKET_TYPE_INVALID"
    "udp_address_size (a ! 0) = Some (length a)"
  shows "\<exists>ss'. socket_server_udp_send u k (Some a) b sz ss = Some (wb_size (slot ss (HASH_ID k)), ss') \<and>
    submitted (\<lambda>result. send_socket \<lparr>rs_id = k, rs_sz = sz, rs_buffer = b\<rparr> result PRIORITY_HIGH (Some a)) ss ss'"
proof -
  let ?r = "\<lparr>rs_id = k, rs_sz = sz, rs_buffer = b\<rparr>"
  have la: "length a \<le> UDP_ADDRESS_SIZE" "0 < length a" using assms(7) by (auto simp: udp_address_size_def UDP_ADDRESS_SIZE_def split: if_splits)
  obtain u' u'' where u': "put_send ?r u = Some u'" "mem_write u' sizeof_send a = Some u''" "length u'' = 256"
      "get_send (take (sizeof_send + length a) u'') = Some ?r" "drop sizeof_send (take (sizeof_send + length a) u'') = a"
    using get_put_send [OF assms(1), of ?r a] assms(3,4) la by auto
  have "\<exists>ss'. send_request u'' 65 (sizeof_send + length a) ss = Some ss' \<and>
      submitted (\<lambda>result. send_socket ?r result PRIORITY_HIGH (Some a)) ss ss'"
    using u' la by (intro send_request_submitted assms) (simp_all add: ctrl_dispatch_def sizeof_send_def UDP_ADDRESS_SIZE_def)
  moreover have "mem_read a 0 1 = Some [a ! 0]" "mem_read a 0 (length a) = Some a"
    using la by (auto simp: mem_read_def Suc_le_eq take_Suc_conv_app_nth)
  ultimately show ?thesis using u'(1,2) assms(5-7) by (auto simp: socket_server_udp_send_def submitted_def)
qed

lemma exit_arrives:
  assumes "length u = 256" "pipe_accepts (ss_world ss) 258"
  shows "\<exists>ss'. socket_server_exit u ss = Some ss' \<and>
    submitted (\<lambda>result ss. Some (SOCKET_EXIT, \<lparr>msg_id = 0, msg_opaque = 0, msg_ud = 0, msg_data = None\<rparr>, ss)) ss ss'"
  unfolding socket_server_exit_def using assms by (intro send_request_submitted) (simp_all add: dispatch_simps)

text \<open>
  C20. Requests on a socket. Closing, starting and configuring a socket, leaving the poll, and sending on a
  socket in use: the interface function returns, the table is unchanged, and the poll thread that reads the
  bytes it wrote runs the handler on exactly the values given to the function.
\<close>

theorem socket_requests_arrive:
  assumes "length u = 256" "pipe_accepts (ss_world ss) 258"
  shows "(\<exists>ss'. socket_server_close u q k ss = Some ss' \<and> submitted (close_socket \<lparr>rc_id = k, rc_opaque = q\<rparr>) ss ss') \<and>
    (\<exists>ss'. socket_server_start u q k ss = Some ss' \<and> submitted (start_socket \<lparr>rt_id = k, rt_opaque = q\<rparr>) ss ss') \<and>
    (\<exists>ss'. socket_server_nodelay u k ss = Some ss' \<and>
      submitted (\<lambda>result ss. Some (- 1, result, setopt_socket \<lparr>rp_id = k, rp_what = TCP_NODELAY, rp_value = 1\<rparr> ss)) ss ss') \<and>
    (\<exists>ss'. socket_server_exit u ss = Some ss' \<and>
      submitted (\<lambda>result ss. Some (SOCKET_EXIT, \<lparr>msg_id = 0, msg_opaque = 0, msg_ud = 0, msg_data = None\<rparr>, ss)) ss ss') \<and>
    (int_range sz \<and> b < 2 ^ 64 \<and> sid (slot ss (HASH_ID k)) = k \<and> stype (slot ss (HASH_ID k)) \<noteq> SOCKET_TYPE_INVALID \<longrightarrow>
      (\<exists>ss'. socket_server_send u k b sz ss = Some (wb_size (slot ss (HASH_ID k)), ss') \<and>
        submitted (\<lambda>result. send_socket \<lparr>rs_id = k, rs_sz = sz, rs_buffer = b\<rparr> result PRIORITY_HIGH None) ss ss') \<and>
      (\<exists>ss'. socket_server_send_lowpriority u k b sz ss = Some ss' \<and>
        submitted (\<lambda>result. send_socket \<lparr>rs_id = k, rs_sz = sz, rs_buffer = b\<rparr> result PRIORITY_LOW None) ss ss') \<and>
      (udp_address_size (a ! 0) = Some (length a) \<longrightarrow>
        (\<exists>ss'. socket_server_udp_send u k (Some a) b sz ss = Some (wb_size (slot ss (HASH_ID k)), ss') \<and>
          submitted (\<lambda>result. send_socket \<lparr>rs_id = k, rs_sz = sz, rs_buffer = b\<rparr> result PRIORITY_HIGH (Some a)) ss ss')))"
  using close_arrives [OF assms] start_arrives [OF assms] nodelay_arrives [OF assms] exit_arrives [OF assms]
    send_prio_arrives [OF assms, of sz b k 68 PRIORITY_HIGH] send_prio_arrives [OF assms, of sz b k 80 PRIORITY_LOW]
    udp_send_arrives [OF assms, of sz b k a]
  by (auto simp: socket_server_send_def socket_server_send_lowpriority_def)


lemma bind_arrives:
  assumes "length u = 256" "pipe_accepts (ss_world ss) 258" "reserve_id ss = (Some k, ss1)" "int_range f" "ss_world ss1 = ss_world ss"
  shows "\<exists>ss'. socket_server_bind u q f ss = Some (sint k, ss') \<and>
    submitted (bind_socket \<lparr>rb_id = k, rb_fd = f, rb_opaque = q\<rparr>) ss1 ss'"
proof -
  let ?r = "\<lparr>rb_id = k, rb_fd = f, rb_opaque = q\<rparr>"
  obtain u' where u': "put_bind ?r u = Some u'" "length u' = 256" "get_bind (take sizeof_bind u') = Some ?r"
    using get_put_bind [OF assms(1), of ?r] assms(4) by auto
  have "\<exists>ss'. send_request u' 66 sizeof_bind ss1 = Some ss' \<and> submitted (bind_socket ?r) ss1 ss'"
    using u' assms by (intro send_request_submitted) (simp_all add: dispatch_simps)
  then show ?thesis using u'(1) assms(3) by (auto simp: socket_server_bind_def)
qed

lemma listen_arrives:
  assumes "length u = 256" "do_listen addr port backlog (ss_world ss) = Some (f, W)" "0 \<le> f" "pipe_accepts W 258"
    "reserve_id (ss\<lparr>ss_world := W\<rparr>) = (Some k, ss1)" "int_range f" "ss_world ss1 = W"
  shows "\<exists>ss'. socket_server_listen u q addr port backlog ss = Some (sint k, ss') \<and>
    submitted (listen_socket \<lparr>rl_id = k, rl_fd = f, rl_opaque = q\<rparr>) ss1 ss'"
proof -
  let ?r = "\<lparr>rl_id = k, rl_fd = f, rl_opaque = q\<rparr>"
  obtain u' where u': "put_listen ?r u = Some u'" "length u' = 256" "get_listen (take sizeof_listen u') = Some ?r"
    using get_put_listen [OF assms(1), of ?r] assms(6) by auto
  have "\<exists>ss'. send_request u' 76 sizeof_listen ss1 = Some ss' \<and> submitted (listen_socket ?r) ss1 ss'"
    using u' assms by (intro send_request_submitted) (simp_all add: dispatch_simps)
  then show ?thesis using u'(1) assms(2,3,5) by (auto simp: socket_server_listen_def Let_def)
qed

lemma connect_arrives:
  assumes "length u = 256" "pipe_accepts (ss_world ss) 258" "reserve_id ss = (Some k, ss1)" "int_range port"
    "length addr < 232" "0 \<notin> set addr" "ss_world ss1 = ss_world ss"
  shows "\<exists>ss'. socket_server_connect u q addr port ss = Some (sint k, ss') \<and>
    submitted (open_socket \<lparr>ro_id = k, ro_port = port, ro_opaque = q, ro_host = addr\<rparr>) ss1 ss'"
proof -
  let ?r = "\<lparr>ro_id = k, ro_port = port, ro_opaque = q, ro_host = addr\<rparr>"
  obtain u' where u': "put_open ?r u = Some u'" "length u' = 256" "get_open (take (sizeof_open + length addr) u') = Some ?r"
    using get_put_open [OF assms(1), of ?r] assms(4-6) by auto
  have "\<exists>ss'. send_request u' 79 (sizeof_open + length addr) ss1 = Some ss' \<and> submitted (open_socket ?r) ss1 ss'"
    using u' assms by (intro send_request_submitted) (simp_all add: ctrl_dispatch_def sizeof_open_def)
  then show ?thesis using u'(1) assms(3,5)
    by (auto simp: socket_server_connect_def open_request_def sizeof_open_def)
qed

lemma reserve_loop_world: "reserve_loop n ss = (r, ss') \<Longrightarrow> ss_world ss' = ss_world ss"
  by (induction n arbitrary: ss) (auto simp: Let_def split: if_splits)

lemma reserve_id_world: "reserve_id ss = (r, ss') \<Longrightarrow> ss_world ss' = ss_world ss"
  by (simp add: reserve_id_def reserve_loop_world)

lemma udp_arrives:
  assumes "length u = 256"
    "(if port \<noteq> 0 \<or> addr \<noteq> None then do_bind addr port IPPROTO_UDP (ss_world ss)
      else (case sys_int (Sys_Socket AF_INET) (ss_world ss) of (f, e, W) \<Rightarrow> Some (f, Some AF_INET, W))) = Some (f, Some fam, W)"
    "0 \<le> f" "int_range f" "int_range fam" "pipe_accepts (set_nonblocking f W) 258"
    "reserve_id (ss\<lparr>ss_world := set_nonblocking f W\<rparr>) = (Some k, ss1)"
  shows "\<exists>ss'. socket_server_udp u q addr port ss = Some (sint k, ss') \<and>
    submitted (\<lambda>result ss. add_udp_socket \<lparr>ru_id = k, ru_fd = f, ru_family = fam, ru_opaque = q\<rparr> ss \<bind>
      (\<lambda>ss. Some (- 1, result, ss))) ss1 ss'"
proof -
  let ?r = "\<lparr>ru_id = k, ru_fd = f, ru_family = fam, ru_opaque = q\<rparr>"
  obtain u' where u': "put_udp ?r u = Some u'" "length u' = 256" "get_udp (take sizeof_udp u') = Some ?r"
    using get_put_udp [OF assms(1), of ?r] assms(4,5) by auto
  have w1: "ss_world ss1 = set_nonblocking f W" using reserve_id_world [OF assms(7)] by simp
  have "\<exists>ss'. send_request u' 85 sizeof_udp ss1 = Some ss' \<and>
      submitted (\<lambda>result ss. add_udp_socket ?r ss \<bind> (\<lambda>ss. Some (- 1, result, ss))) ss1 ss'"
    using u' assms(6) w1 by (intro send_request_submitted) (simp_all add: dispatch_simps)
  moreover have "sp_nonblocking f (ss\<lparr>ss_world := W\<rparr>) = ss\<lparr>ss_world := set_nonblocking f W\<rparr>"
    by (simp add: sp_nonblocking_def upd_world_def)
  ultimately show ?thesis using u'(1) assms(2,3,7)
    by (auto simp: socket_server_udp_def Let_def simp del: if_split_asm split del: if_split)
qed

text \<open>
  C21. Requests that open a socket. With a slot free, \<open>socket_server_bind\<close>, \<open>socket_server_connect\<close> and
  \<open>socket_server_listen\<close> return the id they reserved, and the poll thread that reads their bytes opens exactly
  that socket with the values given to the function. The host name is at most 231 bytes long.
\<close>

theorem opening_requests_arrive:
  assumes "length u = 256" "pipe_accepts (ss_world ss) 258" "reserve_id ss = (Some k, ss1)"
  shows "(int_range f \<longrightarrow> (\<exists>ss'. socket_server_bind u q f ss = Some (sint k, ss') \<and>
      submitted (bind_socket \<lparr>rb_id = k, rb_fd = f, rb_opaque = q\<rparr>) ss1 ss')) \<and>
    (int_range port \<and> length addr < 232 \<and> 0 \<notin> set addr \<longrightarrow>
      (\<exists>ss'. socket_server_connect u q addr port ss = Some (sint k, ss') \<and>
        submitted (open_socket \<lparr>ro_id = k, ro_port = port, ro_opaque = q, ro_host = addr\<rparr>) ss1 ss')) \<and>
    (\<forall>W. do_listen host port backlog W = Some (f, ss_world ss) \<and> 0 \<le> f \<and> int_range f \<longrightarrow>
      (\<exists>ss'. socket_server_listen u q host port backlog (ss\<lparr>ss_world := W\<rparr>) = Some (sint k, ss') \<and>
        submitted (listen_socket \<lparr>rl_id = k, rl_fd = f, rl_opaque = q\<rparr>) ss1 ss'))"
  using bind_arrives [OF assms] connect_arrives [OF assms] listen_arrives [OF assms(1)] assms(2,3) reserve_id_world [OF assms(3)]
  by simp

text \<open>
  A host name of 232 bytes passes the length check of \<open>open_request\<close>, but the request is then 256
  bytes long and its length byte is 0: the poll thread takes the request for empty and the 256 bytes stay in
  the pipe, in front of the next request.
\<close>

theorem connect_length_wraps:
  assumes "length u = 256" "pipe_accepts (ss_world ss) 258" "reserve_id ss = (Some k, ss1)" "length addr = 232"
  shows "\<exists>ss' p. socket_server_connect u q addr port ss = Some (sint k, ss') \<and> length p = 256 \<and>
    written (sendctrl_fd ss1) (ss_world ss') = written (sendctrl_fd ss1) (ss_world ss1) @ [79, 0] @ p \<and>
    (\<forall>result reader. ctrl_dispatch 79 [] result reader = None)"
proof -
  obtain u' where u': "put_open \<lparr>ro_id = k, ro_port = port, ro_opaque = q, ro_host = addr\<rparr> u = Some u'" "length u' = 256"
    using assms(1,4) by (auto simp: put_open_def request_layout)
  obtain W where W: "send_bytes (sendctrl_fd ss1) (request_bytes u' 79 256) (ss_world ss1) = Some W"
      "written (sendctrl_fd ss1) W = written (sendctrl_fd ss1) (ss_world ss1) @ request_bytes u' 79 256"
    using send_bytes_ok [of "ss_world ss1" "request_bytes u' 79 256"] assms(2) reserve_id_world [OF assms(3)] u'(2)
    by (auto simp: request_bytes_def)
  have "request_bytes u' 79 256 = [79, 0] @ u'" using u'(2) by (simp add: request_bytes_def)
  moreover have "ctrl_dispatch 79 [] result reader = None" for result reader
    by (simp add: ctrl_dispatch_def get_open_def get_word_def mem_read_def)
  ultimately show ?thesis
    using W u' assms(3,4) by (auto simp: socket_server_connect_def open_request_def send_request_def sizeof_open_def)
qed

text \<open>
  Sending on a UDP socket to the null address, which the interface documents as the address set by
  \<open>socket_server_udp_connect\<close>, reads through the null pointer.
\<close>

theorem udp_send_null_crashes:
  assumes "sid (slot ss (HASH_ID k)) = k" "stype (slot ss (HASH_ID k)) \<noteq> SOCKET_TYPE_INVALID"
  shows "socket_server_udp_send u k None b sz ss = None"
  using assms by (simp add: socket_server_udp_send_def Let_def bind_eq_None_conv)

section \<open>UDP addresses\<close>

lemma udp_address_roundtrip:
  assumes "gen_udp_address (sprotocol s) sa = Some a" "sprotocol s \<noteq> PROTOCOL_TCP"
  shows "udp_socket_address s a = Some sa" "udp_address_size (a ! 0) = Some (length a)"
  using assms by (cases "sprotocol s"; auto simp: gen_udp_address_def udp_socket_address_def udp_address_size_def Let_def
      split: sockaddr_all.splits)+


section \<open>Examples\<close>

definition ready_server :: socket_server where
  "ready_server = (idle_server 0)\<lparr>
     slot := (\<lambda>_. idle_socket)(1 := idle_socket\<lparr>stype := SOCKET_TYPE_CONNECTED, sid := 1, sprotocol := PROTOCOL_UDP\<rparr>),
     ss_world := \<lparr>w_env = (\<lambda>_. quiet_answer\<lparr>a_ret := 1000, a_data := [1, 2, 3], a_addr := V4 80 5\<rparr>), w_next = 0, w_trace = []\<rparr>\<rparr>"

lemma ready_server_simps [simp]:
  "slot ready_server = (\<lambda>_. idle_socket)(1 := idle_socket\<lparr>stype := SOCKET_TYPE_CONNECTED, sid := 1, sprotocol := PROTOCOL_UDP\<rparr>)"
  "next_answer (ss_world ready_server) = quiet_answer\<lparr>a_ret := 1000, a_data := [1, 2, 3], a_addr := V4 80 5\<rparr>"
  "alloc_id ready_server = 0"
  by (simp_all add: ready_server_def next_answer_def idle_server_def)

lemma ready_accepts: "pipe_accepts (ss_world ready_server) 258"
  by (auto simp: ready_server_def pipe_accepts_def quiet_answer_def idle_server_def intro!: exI [of _ 0])

lemma HASH_ID_small: "unat k < 65536 \<Longrightarrow> HASH_ID k = unat k"
  by (simp add: HASH_ID_def MAX_SOCKET_def)

theorem socket_requests_arrive_witness:
  "length (replicate 256 (0 :: byte)) = 256 \<and> pipe_accepts (ss_world ready_server) 258 \<and>
   (\<exists>ss'. socket_server_close (replicate 256 0) 7 1 ready_server = Some ss' \<and>
     submitted (close_socket \<lparr>rc_id = 1, rc_opaque = 7\<rparr>) ready_server ss') \<and>
   (\<exists>ss'. socket_server_send (replicate 256 0) 1 9 5 ready_server = Some (0, ss') \<and>
     submitted (\<lambda>result. send_socket \<lparr>rs_id = 1, rs_sz = 5, rs_buffer = 9\<rparr> result PRIORITY_HIGH None) ready_server ss') \<and>
   (\<exists>ss'. socket_server_udp_send (replicate 256 0) 1 (Some [1, 0, 80, 127, 0, 0, 1]) 9 5 ready_server = Some (0, ss') \<and>
     submitted (\<lambda>result. send_socket \<lparr>rs_id = 1, rs_sz = 5, rs_buffer = 9\<rparr> result PRIORITY_HIGH
       (Some [1, 0, 80, 127, 0, 0, 1])) ready_server ss')"
  using socket_requests_arrive [OF _ ready_accepts, of "replicate 256 0" 7 1 5 9 "[1, 0, 80, 127, 0, 0, 1]"] ready_accepts
  by (simp add: HASH_ID_small int_range_def udp_address_size_def idle_socket_def)

lemma ready_reserve: "\<exists>ss1. reserve_id (ready_server\<lparr>alloc_id := 1\<rparr>) = (Some 2, ss1)"
proof -
  have "next_id 1 = 2" by (simp add: next_id_def word_sless_alt)
  then show ?thesis
    using reserve_id_free [of "ready_server\<lparr>alloc_id := 1\<rparr>"] by (simp add: HASH_ID_small idle_socket_def)
qed

theorem opening_requests_arrive_witness:
  "\<exists>ss1. length (replicate 256 (0 :: byte)) = 256 \<and> pipe_accepts (ss_world (ready_server\<lparr>alloc_id := 1\<rparr>)) 258 \<and>
   reserve_id (ready_server\<lparr>alloc_id := 1\<rparr>) = (Some 2, ss1) \<and>
   (\<exists>ss'. socket_server_connect (replicate 256 0) 7 [104, 111] 80 (ready_server\<lparr>alloc_id := 1\<rparr>) = Some (sint (2 :: u32), ss') \<and>
     submitted (open_socket \<lparr>ro_id = 2, ro_port = 80, ro_opaque = 7, ro_host = [104, 111]\<rparr>) ss1 ss')"
proof -
  obtain ss1 where r: "reserve_id (ready_server\<lparr>alloc_id := 1\<rparr>) = (Some 2, ss1)" using ready_reserve by blast
  have "pipe_accepts (ss_world (ready_server\<lparr>alloc_id := 1\<rparr>)) 258" using ready_accepts by simp
  from opening_requests_arrive [OF _ this r, of "replicate 256 0" 0 7 80 "[104, 111]"] this r show ?thesis
    by (simp add: int_range_def)
qed

theorem connect_length_wraps_witness:
  "\<exists>ss1 ss' p. reserve_id (ready_server\<lparr>alloc_id := 1\<rparr>) = (Some 2, ss1) \<and>
   socket_server_connect (replicate 256 0) 7 (replicate 232 97) 80 (ready_server\<lparr>alloc_id := 1\<rparr>) = Some (sint (2 :: u32), ss') \<and>
   length p = 256 \<and> written (sendctrl_fd ss1) (ss_world ss') = written (sendctrl_fd ss1) (ss_world ss1) @ [79, 0] @ p \<and>
   (\<forall>result reader. ctrl_dispatch 79 [] result reader = None)"
proof -
  obtain ss1 where r: "reserve_id (ready_server\<lparr>alloc_id := 1\<rparr>) = (Some 2, ss1)" using ready_reserve by blast
  have "pipe_accepts (ss_world (ready_server\<lparr>alloc_id := 1\<rparr>)) 258" using ready_accepts by simp
  from connect_length_wraps [OF _ this r, of "replicate 256 0" "replicate 232 97" 7 80] r show ?thesis
    by (simp only: length_replicate) blast
qed


theorem udp_send_null_crashes_witness:
  "sid (slot ready_server (HASH_ID 1)) = 1 \<and> stype (slot ready_server (HASH_ID 1)) \<noteq> SOCKET_TYPE_INVALID \<and>
   socket_server_udp_send (replicate 256 0) 1 None 9 5 ready_server = None"
  using udp_send_null_crashes [of ready_server 1 "replicate 256 0" 9 5] by (simp add: HASH_ID_small)

end
