(* ===== verification/Socket_Table.thy ===== *)
theory Socket_Table
  imports Socket_Poll
begin

text \<open>
  The table of the socket server over time: which states a slot passes through, that a socket keeps its id,
  descriptor and protocol while it lives, and an invariant that every handler and event keeps.
\<close>

section \<open>How a slot may change\<close>

fun may_become :: "socket_type \<Rightarrow> socket_type set" where
  "may_become SOCKET_TYPE_INVALID = {SOCKET_TYPE_INVALID}"
| "may_become SOCKET_TYPE_RESERVE = UNIV"
| "may_become SOCKET_TYPE_PLISTEN = {SOCKET_TYPE_PLISTEN, SOCKET_TYPE_LISTEN, SOCKET_TYPE_INVALID}"
| "may_become SOCKET_TYPE_LISTEN = {SOCKET_TYPE_LISTEN, SOCKET_TYPE_INVALID}"
| "may_become SOCKET_TYPE_CONNECTING =
     {SOCKET_TYPE_CONNECTING, SOCKET_TYPE_CONNECTED, SOCKET_TYPE_HALFCLOSE, SOCKET_TYPE_INVALID}"
| "may_become SOCKET_TYPE_CONNECTED = {SOCKET_TYPE_CONNECTED, SOCKET_TYPE_HALFCLOSE, SOCKET_TYPE_INVALID}"
| "may_become SOCKET_TYPE_HALFCLOSE = {SOCKET_TYPE_HALFCLOSE, SOCKET_TYPE_INVALID}"
| "may_become SOCKET_TYPE_PACCEPT =
     {SOCKET_TYPE_PACCEPT, SOCKET_TYPE_CONNECTED, SOCKET_TYPE_HALFCLOSE, SOCKET_TYPE_INVALID}"
| "may_become SOCKET_TYPE_BIND = {SOCKET_TYPE_BIND, SOCKET_TYPE_HALFCLOSE, SOCKET_TYPE_INVALID}"

definition ages :: "socket \<Rightarrow> socket \<Rightarrow> bool" where
  "ages s s' \<longleftrightarrow> stype s' \<in> may_become (stype s) \<and>
     (stype s \<notin> {SOCKET_TYPE_INVALID, SOCKET_TYPE_RESERVE} \<and> stype s' \<noteq> SOCKET_TYPE_INVALID \<longrightarrow>
       sid s' = sid s \<and> fd s' = fd s \<and> sprotocol s' = sprotocol s)"

lemma may_become_refl [simp]: "t \<in> may_become t"
  by (cases t) simp_all

lemma ages_refl [simp]: "ages s s"
  by (simp add: ages_def)

lemma may_become_trans: "t' \<in> may_become t \<Longrightarrow> t'' \<in> may_become t' \<Longrightarrow> t'' \<in> may_become t"
  by (cases t; cases t'; auto)

lemma ages_trans: "ages s s' \<Longrightarrow> ages s' s'' \<Longrightarrow> ages s s''"
proof -
  assume a: "ages s s'" "ages s' s''"
  have "stype s' \<noteq> SOCKET_TYPE_INVALID" if "stype s'' \<noteq> SOCKET_TYPE_INVALID" using a(2) that by (auto simp: ages_def)
  moreover have "stype s' \<noteq> SOCKET_TYPE_RESERVE" if "stype s \<noteq> SOCKET_TYPE_RESERVE"
    using a(1) that by (cases "stype s") (auto simp: ages_def)
  ultimately show ?thesis using a may_become_trans by (auto simp: ages_def)
qed

text \<open>Queues are only found on sockets that can be written to, and a slot in use holds the id that maps to it.\<close>

definition sock_ok :: "nat \<Rightarrow> socket \<Rightarrow> bool" where
  "sock_ok i s \<longleftrightarrow> (stype s \<noteq> SOCKET_TYPE_INVALID \<longrightarrow> HASH_ID (sid s) = i) \<and>
     (stype s \<notin> {SOCKET_TYPE_CONNECTING, SOCKET_TYPE_CONNECTED, SOCKET_TYPE_HALFCLOSE, SOCKET_TYPE_BIND} \<longrightarrow>
       high s = [] \<and> low s = [])"

definition table_ok :: "socket_server \<Rightarrow> bool" where
  "table_ok ss \<longleftrightarrow> (\<forall>i. sock_ok i (slot ss i))"

definition evolves :: "socket_server \<Rightarrow> socket_server \<Rightarrow> bool" where
  "evolves ss ss' \<longleftrightarrow> (\<forall>i. ages (slot ss i) (slot ss' i)) \<and> (table_ok ss \<longrightarrow> table_ok ss')"

lemma evolves_trans [trans]: "evolves a b \<Longrightarrow> evolves b c \<Longrightarrow> evolves a c"
  by (auto simp: evolves_def intro: ages_trans)

lemma evolves_slot: "slot ss' = slot ss \<Longrightarrow> evolves ss ss'"
  by (simp add: evolves_def table_ok_def)

lemma evolves_upd:
  assumes "slot ss' = (slot ss)(i := s')" "ages (slot ss i) s'" "sock_ok i (slot ss i) \<Longrightarrow> sock_ok i s'"
  shows "evolves ss ss'"
  using assms by (auto simp: evolves_def table_ok_def)


text \<open>Changes of the queues alone.\<close>

definition trims :: "socket \<Rightarrow> socket \<Rightarrow> bool" where
  "trims s s' \<longleftrightarrow> stype s' = stype s \<and> sid s' = sid s \<and> fd s' = fd s \<and> sprotocol s' = sprotocol s \<and>
     (high s = [] \<and> low s = [] \<longrightarrow> high s' = [] \<and> low s' = [])"

lemma trims_ok: "trims s s' \<Longrightarrow> ages s s'" "trims s s' \<Longrightarrow> sock_ok i s \<Longrightarrow> sock_ok i s'"
  by (simp_all add: trims_def ages_def sock_ok_def)

lemma evolves_trims: "slot ss' = (slot ss)(i := s') \<Longrightarrow> trims (slot ss i) s' \<Longrightarrow> evolves ss ss'"
  using evolves_upd trims_ok by blast

lemma evolves_upd_trims: "trims (slot ss i) (f (slot ss i)) \<Longrightarrow> evolves ss (upd_slot i f ss)"
  by (rule evolves_trims) auto

section \<open>Sending and closing\<close>

lemma slot_calls [simp]: "slot (sp_write f i e ss) = slot ss" "slot (sp_del f ss) = slot ss" "slot (close_fd f ss) = slot ss"
  "slot (sp_nonblocking f ss) = slot ss"
  by (simp_all add: sp_write_def sp_del_def close_fd_def sp_nonblocking_def)

lemma slot_sp_add: "sp_add f ud ss = (r, ss') \<Longrightarrow> slot ss' = slot ss"
  by (auto simp: sp_add_def split: prod.splits)

lemma slot_object_free: "object_free u a ss = Some ss' \<Longrightarrow> slot ss' = slot ss"
  by (auto simp: object_free_def bind_eq_Some_conv)

lemma slot_free_wbs: "free_wbs wbs ss = Some ss' \<Longrightarrow> slot ss' = slot ss"
  by (induction wbs arbitrary: ss) (auto simp: write_buffer_free_def bind_eq_Some_conv dest: slot_object_free)

lemma slot_free_wb_list: "free_wb_list l i ss = Some ss' \<Longrightarrow> slot ss' = (slot ss)(i := set_list l [] (slot ss i))"
  by (auto simp: free_wb_list_def bind_eq_Some_conv dest!: slot_free_wbs)

lemma force_close_slot:
  assumes "force_close i res ss = Some (res', ss')" "stype (slot ss i) \<noteq> SOCKET_TYPE_INVALID"
  shows "slot ss' = (slot ss)(i := (slot ss i)\<lparr>high := [], low := [], stype := SOCKET_TYPE_INVALID\<rparr>)"
proof -
  have "stype (slot ss i) \<noteq> SOCKET_TYPE_RESERVE" using assms by (auto simp: force_close_def Let_def)
  then obtain ss1 ss2 where f: "free_wb_list PRIORITY_HIGH i ss = Some ss1" "free_wb_list PRIORITY_LOW i ss1 = Some ss2"
      "slot ss' = (slot ss2)(i := (slot ss2 i)\<lparr>stype := SOCKET_TYPE_INVALID\<rparr>)"
    using assms by (simp add: force_close_def Let_def bind_eq_Some_conv) auto
  from slot_free_wb_list [OF f(1)] slot_free_wb_list [OF f(2)] show ?thesis by (simp add: f(3))
qed

lemma force_close_evolves:
  assumes "force_close i res ss = Some (res', ss')"
  shows "evolves ss ss'"
proof (cases "stype (slot ss i) = SOCKET_TYPE_INVALID")
  case True
  then show ?thesis using assms by (auto simp: force_close_def Let_def intro: evolves_slot)
next
  case False
  from force_close_slot [OF assms False] show ?thesis
    by (rule evolves_upd) (cases "stype (slot ss i)"; simp add: ages_def sock_ok_def)+
qed

lemma set_list_trims: "get_list l s = wb # wbs \<Longrightarrow> trims s (set_list l wbs' (s\<lparr>wb_size := n\<rparr>))"
  by (cases l) (simp_all add: trims_def)

lemma set_list_nil_trims: "trims s (set_list l [] s)"
  by (cases l) (simp_all add: trims_def)

lemma send_wbs_tcp_evolves:
  "send_wbs_tcp wbs l i res ss = Some (r, res', ss') \<Longrightarrow> get_list l (slot ss i) = wbs \<Longrightarrow> evolves ss ss'"
proof (induction wbs arbitrary: res ss)
  case Nil
  then show ?case by (auto intro!: evolves_upd_trims set_list_nil_trims)
next
  case (Cons tmp rest)
  obtain bs sz e W where c: "read_block (wb_ptr tmp) (wb_sz tmp) (ss_heap ss) = Some bs"
      "write_retry (fd (slot ss i)) bs (ss_world ss) = Some (sz, e, W)"
    using Cons.prems(1) by (auto simp: bind_eq_Some_conv)
  let ?ss = "ss\<lparr>ss_world := W\<rparr>"
  have w: "evolves ss ?ss" by (rule evolves_slot) simp
  let ?cut = "\<lambda>wbs'. upd_slot i (set_list l wbs') (upd_slot i (\<lambda>s. s\<lparr>wb_size := wb_size s - sz\<rparr>) ?ss)"
  have cut: "evolves ss (?cut wbs')" for wbs'
    by (rule evolves_trims [where i = i]) (use set_list_trims [OF Cons.prems(2)] in auto)
  consider "sz < 0" "e = EAGAIN" "ss' = ?ss" | res1 where "sz < 0" "force_close i res ?ss = Some (res1, ss')"
    | tmp' where "ss' = ?cut (tmp' # rest)"
    | ss1 where "write_buffer_free tmp (?cut rest) = Some ss1" "send_wbs_tcp rest l i res ss1 = Some (r, res', ss')"
    using Cons.prems(1) c by (auto simp: bind_eq_Some_conv Let_def split: if_splits)
  then show ?case
  proof cases
    case 1
    then show ?thesis using w by simp
  next
    case 2
    then show ?thesis using w force_close_evolves evolves_trans by blast
  next
    case 3
    then show ?thesis using cut by simp
  next
    case 4
    have "slot ss1 = slot (?cut rest)" using 4(1) slot_object_free by (auto simp: write_buffer_free_def)
    then have "evolves (?cut rest) ss1" "get_list l (slot ss1 i) = rest" by (auto intro: evolves_slot, cases l, auto)
    then show ?thesis using Cons.IH [OF 4(2)] cut evolves_trans by blast
  qed
qed

lemma send_wbs_udp_evolves:
  "send_wbs_udp wbs l i res ss = Some (r, res', ss') \<Longrightarrow> get_list l (slot ss i) = wbs \<Longrightarrow> evolves ss ss'"
proof (induction wbs arbitrary: res ss)
  case Nil
  then show ?case by (auto intro!: evolves_upd_trims set_list_nil_trims)
next
  case (Cons tmp rest)
  obtain bs where b: "read_block (wb_ptr tmp) (wb_sz tmp) (ss_heap ss) = Some bs"
    using Cons.prems(1) by (auto simp: bind_eq_Some_conv)
  obtain n e W where c: "sys_sendto (fd (slot ss i)) bs (udp_socket_address (slot ss i) (wb_udp_address tmp)) (ss_world ss) = (n, e, W)"
    by (metis prod.exhaust)
  let ?ss = "ss\<lparr>ss_world := W\<rparr>"
  have w: "evolves ss ?ss" by (rule evolves_slot) simp
  let ?cut = "upd_slot i (\<lambda>s. set_list l rest (s\<lparr>wb_size := wb_size s - wb_sz tmp\<rparr>)) ?ss"
  have cut: "evolves ss ?cut"
    by (rule evolves_trims [where i = i]) (use set_list_trims [OF Cons.prems(2)] in auto)
  consider "ss' = ?ss" | ss1 where "write_buffer_free tmp ?cut = Some ss1" "send_wbs_udp rest l i res ss1 = Some (r, res', ss')"
    using Cons.prems(1) b c by (auto simp: bind_eq_Some_conv Let_def split: if_splits)
  then show ?case
  proof cases
    case 1
    then show ?thesis using w by simp
  next
    case 2
    have "slot ss1 = slot ?cut" using 2(1) slot_object_free by (auto simp: write_buffer_free_def)
    then have "evolves ?cut ss1" "get_list l (slot ss1 i) = rest" by (auto intro: evolves_slot, cases l, auto)
    then show ?thesis using Cons.IH [OF 2(2)] cut evolves_trans by blast
  qed
qed

lemma send_list_evolves: "send_list l i res ss = Some (r, res', ss') \<Longrightarrow> evolves ss ss'"
  by (auto simp: send_list_def send_list_tcp_def send_list_udp_def split: if_splits
      intro: send_wbs_tcp_evolves send_wbs_udp_evolves)

lemma raise_uncomplete_evolves: "raise_uncomplete i ss = Some ss' \<Longrightarrow> evolves ss ss'"
  by (auto simp: raise_uncomplete_def trims_def split: list.splits if_splits intro!: evolves_upd_trims)

lemma send_buffer_evolves:
  assumes "send_buffer i res ss = Some (r, res', ss')"
  shows "evolves ss ss'"
proof -
  obtain r1 res1 ss1 where h: "send_list PRIORITY_HIGH i res ss = Some (r1, res1, ss1)"
    using assms by (auto simp: send_buffer_def bind_eq_Some_conv split: if_splits)
  note e1 = send_list_evolves [OF h]
  show ?thesis
  proof (cases "r1 = SOCKET_CLOSE \<or> high (slot ss1 i) \<noteq> []")
    case True
    then have "ss' = ss1" using assms h by (auto simp: send_buffer_def split: if_splits)
    then show ?thesis using e1 by simp
  next
    case more: False
    show ?thesis
    proof (cases "low (slot ss1 i) = []")
      case True
      let ?ss = "sp_write (fd (slot ss1 i)) i False ss1"
      have "evolves ss1 ?ss" by (rule evolves_slot) simp
      then have e2: "evolves ss ?ss" using e1 evolves_trans by blast
      have "ss' = ?ss \<or> (\<exists>res1 res2. force_close i res1 ?ss = Some (res2, ss'))"
        using assms h more True by (auto simp: send_buffer_def Let_def bind_eq_Some_conv split: if_splits)
      then show ?thesis using e2 force_close_evolves evolves_trans by blast
    next
      case False
      then obtain r2 res2 ss2 where l: "send_list PRIORITY_LOW i res1 ss1 = Some (r2, res2, ss2)"
          "ss' = ss2 \<or> raise_uncomplete i ss2 = Some ss'"
        using assms h more by (auto simp: send_buffer_def bind_eq_Some_conv split: if_splits)
      then show ?thesis using e1 send_list_evolves [OF l(1)] raise_uncomplete_evolves evolves_trans by metis
    qed
  qed
qed

lemma writable_append:
  assumes "stype (slot ss i) \<in> {SOCKET_TYPE_CONNECTING, SOCKET_TYPE_CONNECTED, SOCKET_TYPE_HALFCLOSE, SOCKET_TYPE_BIND}"
    "append_sendbuffer_to l i request n a ss = Some ss'"
  shows "evolves ss ss'"
proof -
  obtain wb k where "slot ss' = (slot ss)(i := set_list l (get_list l (slot ss i) @ [wb]) ((slot ss i)\<lparr>wb_size := k\<rparr>))"
    using assms(2) by (auto simp: append_sendbuffer_to_def Let_def bind_eq_Some_conv)
  then show ?thesis by (rule evolves_upd) (use assms(1) in \<open>cases l; auto simp: ages_def sock_ok_def\<close>)+
qed

text \<open>Data requests are not processed before the request that opens their socket.\<close>

definition opened :: "u32 \<Rightarrow> socket_server \<Rightarrow> bool" where
  "opened k ss \<longleftrightarrow> \<not> (stype (slot ss (HASH_ID k)) = SOCKET_TYPE_RESERVE \<and> sid (slot ss (HASH_ID k)) = k)"

lemma send_socket_cases:
  assumes "send_socket request res l a ss = Some (r, res', ss')"
  defines "i \<equiv> HASH_ID (rs_id request)"
  obtains "slot ss' = slot ss"
  | res1 W where "force_close i res1 (ss\<lparr>ss_world := W\<rparr>) = Some (res', ss')"
  | l n a W ss1 where "stype (slot ss i) \<notin> {SOCKET_TYPE_INVALID, SOCKET_TYPE_HALFCLOSE, SOCKET_TYPE_PACCEPT, SOCKET_TYPE_PLISTEN, SOCKET_TYPE_LISTEN}"
      "sid (slot ss i) = rs_id request"
      "append_sendbuffer_to l i request n a (ss\<lparr>ss_world := W\<rparr>) = Some ss1" "slot ss' = slot ss1"
proof -
  note defs = send_socket_def Let_def bind_eq_Some_conv append_sendbuffer_def append_sendbuffer_low_def append_sendbuffer_udp_def
  obtain so where so: "send_object_init ss (rs_buffer request) (rs_sz request) = Some so"
    using assms(1) by (auto simp: defs)
  let ?s = "slot ss i"
  consider (drop) "stype ?s = SOCKET_TYPE_INVALID \<or> sid ?s \<noteq> rs_id request \<or> stype ?s = SOCKET_TYPE_HALFCLOSE \<or> stype ?s = SOCKET_TYPE_PACCEPT"
    | (direct) "stype ?s = SOCKET_TYPE_CONNECTED" "sid ?s = rs_id request" "send_buffer_empty ?s"
    | (queue) "stype ?s \<notin> {SOCKET_TYPE_INVALID, SOCKET_TYPE_HALFCLOSE, SOCKET_TYPE_PACCEPT, SOCKET_TYPE_PLISTEN, SOCKET_TYPE_LISTEN}"
        "sid ?s = rs_id request" "\<not> (send_buffer_empty ?s \<and> stype ?s = SOCKET_TYPE_CONNECTED)"
    using assms(1) so by (auto simp: send_socket_def Let_def i_def split: if_splits)
  then show ?thesis
  proof cases
    case drop
    then show ?thesis using assms(1) so that(1) slot_object_free by (auto simp: send_socket_def Let_def i_def bind_eq_Some_conv)
  next
    case queue
    then show ?thesis using assms(1) so that(3) [of _ _ _ "ss_world ss" ss'] by (auto simp: defs i_def split: if_splits)
  next
    case direct
    obtain bs where b: "read_block (so_buffer so) (so_sz so) (ss_heap ss) = Some bs"
      using assms(1) so direct by (auto simp: defs i_def split: if_splits)
    show ?thesis
    proof (cases "sprotocol ?s = PROTOCOL_TCP")
      case True
      obtain n e W where W: "sys_write (fd ?s) bs (ss_world ss) = (n, e, W)" by (metis prod.exhaust)
      have "(\<exists>res1. force_close i res (ss\<lparr>ss_world := W\<rparr>) = Some (res', ss')) \<or> slot ss' = slot ss \<or>
          (\<exists>ss1 m. append_sendbuffer_to PRIORITY_HIGH i request m [] (ss\<lparr>ss_world := W\<rparr>) = Some ss1 \<and> slot ss' = slot ss1)"
        using assms(1) so direct b W True by (auto simp: defs i_def split: if_splits dest!: slot_object_free)
      then show ?thesis using that direct by auto
    next
      case False
      let ?a = "case a of None \<Rightarrow> p_udp_address ?s | Some a \<Rightarrow> a"
      obtain n e W where W: "sys_sendto (fd ?s) bs (udp_socket_address ?s ?a) (ss_world ss) = (n, e, W)" by (metis prod.exhaust)
      have "slot ss' = slot ss \<or>
          (\<exists>ss1. append_sendbuffer_to l i request 0 ?a (ss\<lparr>ss_world := W\<rparr>) = Some ss1 \<and> slot ss' = slot ss1)"
        using assms(1) so direct b W False
        by (cases a) (auto simp: defs i_def split: if_splits dest!: slot_object_free)
      then show ?thesis using that direct by auto
    qed
  qed
qed

lemma send_socket_evolves:
  assumes "send_socket request res l a ss = Some (r, res', ss')" "opened (rs_id request) ss"
  shows "evolves ss ss'"
  using assms(1)
proof (cases rule: send_socket_cases)
  case 1
  then show ?thesis by (rule evolves_slot)
next
  case (2 res1 W)
  have "evolves ss (ss\<lparr>ss_world := W\<rparr>)" by (rule evolves_slot) simp
  then show ?thesis using force_close_evolves [OF 2] evolves_trans by blast
next
  case (3 l n a W ss1)
  have "stype (slot ss (HASH_ID (rs_id request))) \<in>
      {SOCKET_TYPE_CONNECTING, SOCKET_TYPE_CONNECTED, SOCKET_TYPE_HALFCLOSE, SOCKET_TYPE_BIND}"
    using 3(1,2) assms(2) by (cases "stype (slot ss (HASH_ID (rs_id request)))") (auto simp: opened_def)
  then have "evolves (ss\<lparr>ss_world := W\<rparr>) ss1" by (intro writable_append [OF _ 3(3)]) simp
  then show ?thesis using 3(4) by (simp add: evolves_def table_ok_def)
qed

lemma close_socket_evolves:
  assumes "close_socket request res ss = Some (r, res', ss')"
  shows "table_ok ss \<Longrightarrow> evolves ss ss'"
proof -
  assume ok: "table_ok ss"
  let ?i = "HASH_ID (rc_id request)"
  consider "ss' = ss" | t res1 ss1 where
      "(if \<not> send_buffer_empty (slot ss ?i) then send_buffer ?i res ss else Some (- 1, res, ss)) = Some (t, res1, ss1)"
      "ss' = ss1 \<or> (\<exists>res2. force_close ?i res1 ss1 = Some (res2, ss')) \<or>
       \<not> send_buffer_empty (slot ss1 ?i) \<and> ss' = upd_slot ?i (\<lambda>s. s\<lparr>stype := SOCKET_TYPE_HALFCLOSE\<rparr>) ss1"
    using assms by (auto simp: close_socket_def Let_def bind_eq_Some_conv split: if_splits)
  then show ?thesis
  proof cases
    case 1
    then show ?thesis by (simp add: evolves_slot)
  next
    case 2
    have e1: "evolves ss ss1"
      using 2(1) send_buffer_evolves by (auto split: if_splits intro: evolves_slot)
    have "sock_ok ?i (slot ss1 ?i)" using e1 ok by (auto simp: evolves_def table_ok_def)
    then have "stype (slot ss1 ?i) \<in> {SOCKET_TYPE_CONNECTING, SOCKET_TYPE_CONNECTED, SOCKET_TYPE_HALFCLOSE, SOCKET_TYPE_BIND}"
      if "\<not> send_buffer_empty (slot ss1 ?i)"
      using that by (auto simp: sock_ok_def send_buffer_empty_def)
    then have "evolves ss1 (upd_slot ?i (\<lambda>s. s\<lparr>stype := SOCKET_TYPE_HALFCLOSE\<rparr>) ss1)" if "\<not> send_buffer_empty (slot ss1 ?i)"
      using that by (intro evolves_upd [where i = ?i]) (auto simp: ages_def sock_ok_def)
    then show ?thesis using 2(2) e1 force_close_evolves evolves_trans by blast
  qed
qed

section \<open>Opening\<close>

lemma new_fd_slot:
  assumes "new_fd k f proto opq add ss = Some (r, ss')"
  shows "stype (slot ss (HASH_ID k)) = SOCKET_TYPE_RESERVE"
    "r = None \<Longrightarrow> slot ss' = (slot ss)(HASH_ID k := (slot ss (HASH_ID k))\<lparr>stype := SOCKET_TYPE_INVALID\<rparr>)"
    "r = Some j \<Longrightarrow> j = HASH_ID k \<and> high (slot ss j) = [] \<and> low (slot ss j) = [] \<and>
       slot ss' = (slot ss)(j := (slot ss j)\<lparr>sid := k, fd := f, sprotocol := proto, p_size := MIN_READ_BUFFER,
         opaque := opq, wb_size := 0\<rparr>)"
proof -
  obtain r1 ss1 where a: "(if add then sp_add f (Some (HASH_ID k)) ss else (0, ss)) = (r1, ss1)" by (metis prod.exhaust)
  have "slot ss1 = slot ss" using a slot_sp_add by (auto split: if_splits)
  then show "stype (slot ss (HASH_ID k)) = SOCKET_TYPE_RESERVE"
      "r = None \<Longrightarrow> slot ss' = (slot ss)(HASH_ID k := (slot ss (HASH_ID k))\<lparr>stype := SOCKET_TYPE_INVALID\<rparr>)"
      "r = Some j \<Longrightarrow> j = HASH_ID k \<and> high (slot ss j) = [] \<and> low (slot ss j) = [] \<and>
       slot ss' = (slot ss)(j := (slot ss j)\<lparr>sid := k, fd := f, sprotocol := proto, p_size := MIN_READ_BUFFER,
         opaque := opq, wb_size := 0\<rparr>)"
    using assms a by (auto simp: new_fd_def Let_def split: if_splits)
qed

lemma new_fd_evolves:
  assumes "new_fd k f proto opq add ss = Some (r, ss')"
    "r = None \<Longrightarrow> slot ss'' = (slot ss')(HASH_ID k := (slot ss' (HASH_ID k))\<lparr>stype := SOCKET_TYPE_INVALID\<rparr>)"
    "r \<noteq> None \<Longrightarrow> \<exists>t a n. slot ss'' = (slot ss')(HASH_ID k := (slot ss' (HASH_ID k))\<lparr>stype := t, p_udp_address := a, p_size := n\<rparr>)"
  shows "evolves ss ss''"
proof -
  note n = new_fd_slot [OF assms(1)]
  show ?thesis
  proof (cases r)
    case None
    then show ?thesis using assms(2) n(1,2)
      by (intro evolves_upd [where i = "HASH_ID k" and s' = "(slot ss (HASH_ID k))\<lparr>stype := SOCKET_TYPE_INVALID\<rparr>"])
        (auto simp: ages_def sock_ok_def)
  next
    case (Some j)
    note j = n(3) [OF Some]
    obtain t a m where "slot ss'' = (slot ss')(j := (slot ss' j)\<lparr>stype := t, p_udp_address := a, p_size := m\<rparr>)"
      using assms(3) Some j by auto
    also have "\<dots> = (slot ss)(j := (slot ss j)\<lparr>sid := k, fd := f, sprotocol := proto,
         opaque := opq, wb_size := 0, stype := t, p_udp_address := a, p_size := m\<rparr>)" using j by simp
    finally show ?thesis by (rule evolves_upd) (use n(1) j in \<open>auto simp: ages_def sock_ok_def\<close>)
  qed
qed

lemma slot_set_stype [simp]: "slot (set_stype i t ss) = (slot ss)(i := (slot ss i)\<lparr>stype := t\<rparr>)"
  by (simp add: set_stype_def)

lemma fail_evolves:
  assumes "stype (slot ss i) = SOCKET_TYPE_RESERVE" "slot ss' = (slot ss)(i := (slot ss i)\<lparr>stype := SOCKET_TYPE_INVALID\<rparr>)"
  shows "evolves ss ss'"
  using assms(2) by (rule evolves_upd) (use assms(1) in \<open>auto simp: ages_def sock_ok_def\<close>)

lemma new_fd_index:
  assumes "new_fd k f proto opq add ss = Some (r, ss')" "r \<noteq> None"
  shows "r = Some (HASH_ID k)"
  using assms new_fd_slot(3) [OF assms(1)] by (cases r) simp_all

lemma set_type_step:
  "slot ss' = (slot ss)(i := (slot ss i)\<lparr>stype := t\<rparr>) \<Longrightarrow>
   \<exists>t a n. slot ss' = (slot ss)(i := (slot ss i)\<lparr>stype := t, p_udp_address := a, p_size := n\<rparr>)"
  by (intro exI [of _ t] exI [of _ "p_udp_address (slot ss i)"] exI [of _ "p_size (slot ss i)"]) simp

lemma open_socket_evolves:
  assumes "open_socket request res ss = Some (r, res', ss')" "stype (slot ss (HASH_ID (ro_id request))) = SOCKET_TYPE_RESERVE"
  shows "evolves ss ss'"
proof -
  let ?k = "ro_id request"
  let ?i = "HASH_ID ?k"
  obtain st ais W where g: "sys_getaddrinfo (ro_host request) (ro_port request) (ss_world ss) = (st, ais, W)" by (metis prod.exhaust)
  obtain sock st' ai W' where c: "connect_loop ais (- 1) st W = (sock, st', ai, W')" by (metis prod.exhaust)
  show ?thesis
  proof (cases "st \<noteq> 0 \<or> sock < 0")
    case True
    then have "slot ss' = (slot ss)(?i := (slot ss ?i)\<lparr>stype := SOCKET_TYPE_INVALID\<rparr>)"
      using assms(1) g c by (auto simp: open_socket_def Let_def split: if_splits)
    then show ?thesis by (rule fail_evolves [OF assms(2)])
  next
    case False
    then obtain ns ss1 where n: "new_fd ?k sock PROTOCOL_TCP (ro_opaque request) True (ss\<lparr>ss_world := W'\<rparr>) = Some (ns, ss1)"
      using assms(1) g c by (auto simp: open_socket_def Let_def bind_eq_Some_conv)
    have "evolves (ss\<lparr>ss_world := W'\<rparr>) ss'"
    proof (rule new_fd_evolves [OF n])
      assume "ns = None"
      then show "slot ss' = (slot ss1)(?i := (slot ss1 ?i)\<lparr>stype := SOCKET_TYPE_INVALID\<rparr>)"
        using assms(1) g c n False by (auto simp: open_socket_def Let_def)
    next
      assume "ns \<noteq> None"
      then obtain j where j: "ns = Some j" by auto
      then have i: "j = ?i" using new_fd_index [OF n] by simp
      have "slot ss' = (slot ss1)(?i := (slot ss1 ?i)\<lparr>stype := if st' = 0 then SOCKET_TYPE_CONNECTED else SOCKET_TYPE_CONNECTING\<rparr>)"
        using assms(1) g c n False j i
        by (cases "st' = 0") (auto simp: open_socket_def Let_def bind_eq_Some_conv sys_ntop_def)
      then show "\<exists>t a n. slot ss' = (slot ss1)(?i := (slot ss1 ?i)\<lparr>stype := t, p_udp_address := a, p_size := n\<rparr>)"
        by (rule set_type_step)
    qed
    then show ?thesis by (simp add: evolves_def table_ok_def)
  qed
qed

lemma listen_socket_evolves:
  assumes "listen_socket request res ss = Some (r, res', ss')"
  shows "evolves ss ss'"
proof -
  let ?i = "HASH_ID (rl_id request)"
  obtain ns ss1 where n: "new_fd (rl_id request) (rl_fd request) PROTOCOL_TCP (rl_opaque request) False ss = Some (ns, ss1)"
    using assms by (auto simp: listen_socket_def Let_def bind_eq_Some_conv)
  show ?thesis
  proof (rule new_fd_evolves [OF n])
    assume "ns = None"
    then show "slot ss' = (slot ss1)(?i := (slot ss1 ?i)\<lparr>stype := SOCKET_TYPE_INVALID\<rparr>)"
      using assms n by (auto simp: listen_socket_def Let_def)
  next
    assume "ns \<noteq> None"
    then have "slot ss' = (slot ss1)(?i := (slot ss1 ?i)\<lparr>stype := SOCKET_TYPE_PLISTEN\<rparr>)"
      using assms n new_fd_index [OF n] by (simp add: listen_socket_def Let_def) auto
    then show "\<exists>t a n. slot ss' = (slot ss1)(?i := (slot ss1 ?i)\<lparr>stype := t, p_udp_address := a, p_size := n\<rparr>)"
      by (rule set_type_step)
  qed
qed

lemma bind_socket_evolves:
  assumes "bind_socket request res ss = Some (r, res', ss')"
  shows "evolves ss ss'"
proof -
  let ?i = "HASH_ID (rb_id request)"
  obtain ns ss1 where n: "new_fd (rb_id request) (rb_fd request) PROTOCOL_TCP (rb_opaque request) True ss = Some (ns, ss1)"
    using assms by (auto simp: bind_socket_def Let_def bind_eq_Some_conv)
  show ?thesis
  proof (rule new_fd_evolves [OF n])
    assume "ns = None"
    then show "slot ss' = (slot ss1)(?i := (slot ss1 ?i)\<lparr>stype := SOCKET_TYPE_INVALID\<rparr>)"
      using assms n new_fd_slot(2) [OF n] by (auto simp: bind_socket_def Let_def)
  next
    assume "ns \<noteq> None"
    then have "slot ss' = (slot ss1)(?i := (slot ss1 ?i)\<lparr>stype := SOCKET_TYPE_BIND\<rparr>)"
      using assms n new_fd_index [OF n] by (simp add: bind_socket_def Let_def) auto
    then show "\<exists>t a n. slot ss' = (slot ss1)(?i := (slot ss1 ?i)\<lparr>stype := t, p_udp_address := a, p_size := n\<rparr>)"
      by (rule set_type_step)
  qed
qed

lemma add_udp_socket_evolves:
  assumes "add_udp_socket request ss = Some ss'"
  shows "evolves ss ss'"
proof -
  let ?i = "HASH_ID (ru_id request)"
  obtain ns ss1 proto where n: "new_fd (ru_id request) (ru_fd request) proto (ru_opaque request) True ss = Some (ns, ss1)"
      "proto = (if ru_family request = AF_INET6 then PROTOCOL_UDPv6 else PROTOCOL_UDP)"
    using assms by (auto simp: add_udp_socket_def Let_def bind_eq_Some_conv)
  show ?thesis
  proof (rule new_fd_evolves [OF n(1)])
    assume "ns = None"
    then show "slot ss' = (slot ss1)(?i := (slot ss1 ?i)\<lparr>stype := SOCKET_TYPE_INVALID\<rparr>)"
      using assms n by (auto simp: add_udp_socket_def Let_def)
  next
    assume "ns \<noteq> None"
    then show "\<exists>t a n. slot ss' = (slot ss1)(?i := (slot ss1 ?i)\<lparr>stype := t, p_udp_address := a, p_size := n\<rparr>)"
      using assms n new_fd_index [OF n(1)]
      by (intro exI [of _ SOCKET_TYPE_CONNECTED] exI [of _ "replicate UDP_ADDRESS_SIZE 0"] exI [of _ 0])
        (auto simp: add_udp_socket_def Let_def)
  qed
qed

lemma start_socket_evolves:
  assumes "start_socket request res ss = Some (r, res', ss')"
  shows "evolves ss ss'"
proof -
  let ?i = "HASH_ID (rt_id request)"
  let ?s = "slot ss ?i"
  obtain q ss1 where a: "sp_add (fd ?s) (Some ?i) ss = (q, ss1)" by (metis prod.exhaust)
  have s1: "slot ss1 = slot ss" by (rule slot_sp_add [OF a])
  show ?thesis
  proof (cases "(stype ?s = SOCKET_TYPE_PACCEPT \<or> stype ?s = SOCKET_TYPE_PLISTEN) \<and> sid ?s = rt_id request")
    case True
    let ?t = "if q \<noteq> 0 then SOCKET_TYPE_INVALID else if stype ?s = SOCKET_TYPE_PACCEPT then SOCKET_TYPE_CONNECTED else SOCKET_TYPE_LISTEN"
    let ?o = "if q \<noteq> 0 then opaque ?s else rt_opaque request"
    have "slot ss' = (slot ss)(?i := ?s\<lparr>stype := ?t, opaque := ?o\<rparr>)"
      using assms a s1 True by (cases "q = 0") (auto simp: start_socket_def Let_def)
    then show ?thesis by (rule evolves_upd) (use True in \<open>auto simp: ages_def sock_ok_def\<close>)
  next
    case False
    then have "slot ss' = slot ss \<or> slot ss' = (slot ss)(?i := ?s\<lparr>opaque := rt_opaque request\<rparr>)"
      using assms by (simp add: start_socket_def Let_def) (auto split: if_splits)
    then show ?thesis
    proof
      assume "slot ss' = (slot ss)(?i := ?s\<lparr>opaque := rt_opaque request\<rparr>)"
      then show ?thesis by (rule evolves_trims) (simp add: trims_def)
    qed (rule evolves_slot)
  qed
qed

lemma set_udp_address_evolves:
  assumes "set_udp_address request res ss = Some (r, res', ss')"
  shows "evolves ss ss'"
proof -
  let ?i = "HASH_ID (rd_id request)"
  have "slot ss' = slot ss \<or> (\<exists>n. slot ss' = (slot ss)(?i := set_p_address n (rd_address request) (slot ss ?i)))"
    using assms by (simp add: set_udp_address_def Let_def split: if_splits) auto
  then show ?thesis
  proof
    assume "\<exists>n. slot ss' = (slot ss)(?i := set_p_address n (rd_address request) (slot ss ?i))"
    then obtain n where "slot ss' = (slot ss)(?i := set_p_address n (rd_address request) (slot ss ?i))" ..
    then show ?thesis by (rule evolves_trims) (simp add: trims_def set_p_address_def)
  qed (rule evolves_slot)
qed

section \<open>Events\<close>

lemma evolves_world: "evolves (ss\<lparr>ss_world := W\<rparr>) ss' \<longleftrightarrow> evolves ss ss'"
  by (simp add: evolves_def table_ok_def)

lemma forward_message_tcp_evolves:
  assumes "forward_message_tcp i res ss = Some (r, res', ss')"
  shows "evolves ss ss'"
proof -
  obtain n bs e W where w: "sys_read (fd (slot ss i)) (nat (p_size (slot ss i))) (ss_world ss) = (n, bs, e, W)" by (metis prod.exhaust)
  have "slot ss' = slot ss \<or> (\<exists>res1 res2. force_close i res1 (ss\<lparr>ss_world := W\<rparr>) = Some (res2, ss')) \<or>
      (\<exists>sz. slot ss' = (slot ss)(i := (slot ss i)\<lparr>p_size := sz\<rparr>))"
    using assms w by (simp add: forward_message_tcp_def Let_def bind_eq_Some_conv split: if_splits) auto
  then show ?thesis
  proof (elim disjE exE)
    fix res1 res2 assume "force_close i res1 (ss\<lparr>ss_world := W\<rparr>) = Some (res2, ss')"
    then show ?thesis using force_close_evolves evolves_world by blast
  next
    fix sz assume "slot ss' = (slot ss)(i := (slot ss i)\<lparr>p_size := sz\<rparr>)"
    then show ?thesis by (rule evolves_trims) (simp add: trims_def)
  qed (rule evolves_slot)
qed

lemma forward_message_udp_evolves:
  assumes "forward_message_udp i res ss = Some (r, res', ss')"
  shows "evolves ss ss'"
proof -
  obtain n bs sa e W where w: "sys_recvfrom (fd (slot ss i)) MAX_UDP_PACKAGE (ss_world ss) = (n, bs, sa, e, W)" by (metis prod.exhaust)
  have "slot ss' = slot ss \<or> (\<exists>res1 res2. force_close i res1 (ss\<lparr>ss_world := W\<rparr>) = Some (res2, ss'))"
    using assms w by (simp add: forward_message_udp_def Let_def bind_eq_Some_conv split: if_splits) auto
  then show ?thesis using force_close_evolves evolves_world evolves_slot by blast
qed

lemma report_connect_evolves:
  assumes "report_connect i res ss = Some (r, res', ss')" "stype (slot ss i) = SOCKET_TYPE_CONNECTING"
  shows "evolves ss ss'"
proof -
  obtain code e W where w: "sys_int (Sys_Getsockopt (fd (slot ss i))) (ss_world ss) = (code, e, W)" by (metis prod.exhaust)
  have "(\<exists>res1 res2. force_close i res1 (ss\<lparr>ss_world := W\<rparr>) = Some (res2, ss')) \<or>
      slot ss' = (slot ss)(i := (slot ss i)\<lparr>stype := SOCKET_TYPE_CONNECTED\<rparr>)"
    using assms(1) w
    by (auto simp: report_connect_def Let_def bind_eq_Some_conv sys_ntop_def split: if_splits prod.splits)
  then show ?thesis
  proof (elim disjE exE)
    fix res1 res2 assume "force_close i res1 (ss\<lparr>ss_world := W\<rparr>) = Some (res2, ss')"
    then show ?thesis using force_close_evolves evolves_world by blast
  next
    assume "slot ss' = (slot ss)(i := (slot ss i)\<lparr>stype := SOCKET_TYPE_CONNECTED\<rparr>)"
    then show ?thesis by (rule evolves_upd) (use assms(2) in \<open>auto simp: ages_def sock_ok_def\<close>)
  qed
qed

text \<open>A slot that is taken into use was free and gets an id of its own.\<close>

definition claims :: "socket_server \<Rightarrow> socket_server \<Rightarrow> bool" where
  "claims ss ss' \<longleftrightarrow> (\<exists>k t. t \<in> {SOCKET_TYPE_RESERVE, SOCKET_TYPE_PACCEPT} \<and>
     stype (slot ss (HASH_ID k)) = SOCKET_TYPE_INVALID \<and> stype (slot ss' (HASH_ID k)) = t \<and> sid (slot ss' (HASH_ID k)) = k \<and>
     high (slot ss' (HASH_ID k)) = high (slot ss (HASH_ID k)) \<and> low (slot ss' (HASH_ID k)) = low (slot ss (HASH_ID k)) \<and>
     (\<forall>j. j \<noteq> HASH_ID k \<longrightarrow> slot ss' j = slot ss j))"

lemma reserve_loop_slot:
  "reserve_loop n ss = (r, ss') \<Longrightarrow> (case r of None \<Rightarrow> slot ss' = slot ss
     | Some k \<Rightarrow> stype (slot ss (HASH_ID k)) = SOCKET_TYPE_INVALID \<and>
         slot ss' = (slot ss)(HASH_ID k := (slot ss (HASH_ID k))\<lparr>stype := SOCKET_TYPE_RESERVE, sid := k, fd := - 1\<rparr>))"
proof (induction n arbitrary: ss)
  case (Suc n)
  let ?k = "next_id (alloc_id ss)"
  show ?case
  proof (cases "stype (slot ss (HASH_ID ?k)) = SOCKET_TYPE_INVALID")
    case True
    then show ?thesis using Suc.prems by (auto simp: Let_def)
  next
    case False
    then show ?thesis using Suc.prems Suc.IH [of "ss\<lparr>alloc_id := ?k\<rparr>"] by (cases r) (simp_all add: Let_def)
  qed
qed auto

lemma reserve_id_slot:
  "reserve_id ss = (None, ss') \<Longrightarrow> slot ss' = slot ss"
  "reserve_id ss = (Some k, ss') \<Longrightarrow> stype (slot ss (HASH_ID k)) = SOCKET_TYPE_INVALID \<and>
    slot ss' = (slot ss)(HASH_ID k := (slot ss (HASH_ID k))\<lparr>stype := SOCKET_TYPE_RESERVE, sid := k, fd := - 1\<rparr>)"
  using reserve_loop_slot [of MAX_SOCKET ss] by (force simp: reserve_id_def)+

lemma report_accept_step:
  assumes "report_accept i res ss = Some (ok, res', ss')"
  shows "slot ss' = slot ss \<or> claims ss ss'"
proof -
  obtain f e W where w: "sys_int (Sys_Accept (fd (slot ss i))) (ss_world ss) = (f, e, W)" by (metis prod.exhaust)
  obtain r ss1 where r: "reserve_id (ss\<lparr>ss_world := W\<rparr>) = (r, ss1)" by (metis prod.exhaust)
  show ?thesis
  proof (cases "f < 0 \<or> r = None")
    case True
    then have "slot ss' = slot ss \<or> slot ss' = slot ss1 \<and> r = None"
      using assms w r by (auto simp: report_accept_def Let_def split: if_splits)
    then show ?thesis using reserve_id_slot(1) r by auto
  next
    case False
    then obtain k where k: "r = Some k" by auto
    note rs = reserve_id_slot(2) [OF r [unfolded k]]
    let ?ss = "sp_nonblocking f (upd_world (socket_keepalive f) ss1)"
    obtain ns ss2 where n: "new_fd k f PROTOCOL_TCP (opaque (slot ss i)) False ?ss = Some (ns, ss2)"
      using assms w r k False by (auto simp: report_accept_def Let_def bind_eq_Some_conv)
    have "ns \<noteq> None" using n by (auto simp: new_fd_def Let_def split: if_splits)
    then have j: "ns = Some (HASH_ID k)" by (rule new_fd_index [OF n])
    have "slot ss' = (slot ss2)(HASH_ID k := (slot ss2 (HASH_ID k))\<lparr>stype := SOCKET_TYPE_PACCEPT\<rparr>)"
      using assms w r k False n j by (simp add: report_accept_def Let_def sys_ntop_def) auto
    moreover have "slot ss2 = (slot ss1)(HASH_ID k := (slot ss1 (HASH_ID k))\<lparr>sid := k, fd := f, sprotocol := PROTOCOL_TCP,
         p_size := MIN_READ_BUFFER, opaque := opaque (slot ss i), wb_size := 0\<rparr>)"
      using new_fd_slot(3) [OF n j] by simp
    ultimately have "claims ss ss'" using rs unfolding claims_def by (intro exI [of _ k] exI [of _ SOCKET_TYPE_PACCEPT]) simp
    then show ?thesis ..
  qed
qed

lemma claims_ok: "claims ss ss' \<Longrightarrow> table_ok ss \<Longrightarrow> table_ok ss'"
proof -
  assume c: "claims ss ss'" and ok: "table_ok ss"
  obtain k where k: "stype (slot ss (HASH_ID k)) = SOCKET_TYPE_INVALID" "sid (slot ss' (HASH_ID k)) = k"
      "high (slot ss' (HASH_ID k)) = high (slot ss (HASH_ID k))" "low (slot ss' (HASH_ID k)) = low (slot ss (HASH_ID k))"
      "\<forall>j. j \<noteq> HASH_ID k \<longrightarrow> slot ss' j = slot ss j"
    using c by (auto simp: claims_def)
  show "table_ok ss'"
    unfolding table_ok_def
  proof
    fix j show "sock_ok j (slot ss' j)"
      using ok k by (cases "j = HASH_ID k") (auto simp: table_ok_def sock_ok_def)
  qed
qed

lemma poll_event_step:
  assumes "poll_event n res ss = Some (r, res', ss')"
  shows "evolves ss ss' \<or> claims ss ss'"
proof (cases "ev_s (ev ss ! n)")
  case None
  then show ?thesis using assms by (auto simp: poll_event_def Let_def intro: evolves_slot)
next
  case (Some i)
  let ?t = "stype (slot ss i)" and ?e = "ev ss ! n"
  have clear: "slot (clear_closed_event m c ss0) = slot ss0" for m c ss0 by (simp add: clear_closed_event_def Let_def)
  consider "?t = SOCKET_TYPE_CONNECTING" | "?t = SOCKET_TYPE_LISTEN" | "?t = SOCKET_TYPE_INVALID"
    | "?t \<notin> {SOCKET_TYPE_CONNECTING, SOCKET_TYPE_LISTEN, SOCKET_TYPE_INVALID}" by auto
  then show ?thesis
  proof cases
    case 1
    then obtain q where "report_connect i res ss = Some (q, res', ss')"
      using assms Some by (auto simp: poll_event_def Let_def bind_eq_Some_conv)
    then show ?thesis using report_connect_evolves 1 by blast
  next
    case 2
    then obtain q where "report_accept i res ss = Some (q, res', ss')"
      using assms Some by (auto simp: poll_event_def Let_def bind_eq_Some_conv)
    then show ?thesis using report_accept_step evolves_slot by blast
  next
    case 3
    then show ?thesis using assms Some by (auto simp: poll_event_def Let_def intro: evolves_slot)
  next
    case 4
    note run = assms [unfolded poll_event_def Let_def Some option.case]
    show ?thesis
    proof (cases "ev_read ?e")
      case True
      obtain q res1 ss1 where f: "(if sprotocol (slot ss i) = PROTOCOL_TCP then forward_message_tcp i res ss
          else forward_message_udp i res ss) = Some (q, res1, ss1)" "slot ss' = slot ss1"
        using run 4 True clear by (auto simp: bind_eq_Some_conv split: if_splits)
      then have "evolves ss ss1" using forward_message_tcp_evolves forward_message_udp_evolves by (auto split: if_splits)
      then show ?thesis using f(2) by (simp add: evolves_def table_ok_def)
    next
      case False
      then have "slot ss' = slot ss \<or> (\<exists>q res1 ss1. send_buffer i res ss = Some (q, res1, ss1) \<and> slot ss' = slot ss1)"
        using run 4 clear by (auto simp: bind_eq_Some_conv split: if_splits)
      then show ?thesis using send_buffer_evolves [of i res ss] by (auto simp: evolves_def table_ok_def)
    qed
  qed
qed

section \<open>Requests and runs\<close>

text \<open>
  What the order of the pipe guarantees: the request that opens a socket finds its slot reserved, and data for
  a socket comes after it.
\<close>

definition request_ok :: "byte \<Rightarrow> byte list \<Rightarrow> socket_server \<Rightarrow> bool" where
  "request_ok t bs ss \<longleftrightarrow>
     (t = 79 \<longrightarrow> (\<forall>r. get_open bs = Some r \<longrightarrow> stype (slot ss (HASH_ID (ro_id r))) = SOCKET_TYPE_RESERVE)) \<and>
     (t \<in> {68, 80, 65} \<longrightarrow> (\<forall>r. get_send bs = Some r \<longrightarrow> opened (rs_id r) ss))"

lemma ctrl_dispatch_step:
  assumes "ctrl_dispatch t bs res ss = Some (r, res', ss')" "request_ok t bs ss" "table_ok ss"
  shows "evolves ss ss'"
proof -
  have "evolves ss ss'" if "t = 83" using that assms(1) start_socket_evolves by (auto simp: ctrl_dispatch_def bind_eq_Some_conv)
  moreover have "evolves ss ss'" if "t = 66" using that assms(1) bind_socket_evolves by (auto simp: ctrl_dispatch_def bind_eq_Some_conv)
  moreover have "evolves ss ss'" if "t = 76" using that assms(1) listen_socket_evolves by (auto simp: ctrl_dispatch_def bind_eq_Some_conv)
  moreover have "evolves ss ss'" if "t = 75"
    using that assms(1,3) close_socket_evolves by (auto simp: ctrl_dispatch_def bind_eq_Some_conv)
  moreover have "evolves ss ss'" if "t = 79"
    using that assms(1,2) open_socket_evolves by (auto simp: ctrl_dispatch_def bind_eq_Some_conv request_ok_def)
  moreover have "evolves ss ss'" if "t \<in> {68, 80, 65}"
    using that assms(1,2) send_socket_evolves by (auto simp: ctrl_dispatch_def bind_eq_Some_conv request_ok_def)
  moreover have "evolves ss ss'" if "t = 67"
    using that assms(1) set_udp_address_evolves by (auto simp: ctrl_dispatch_def bind_eq_Some_conv)
  moreover have "evolves ss ss'" if "t = 84"
    using that assms(1) by (auto simp: ctrl_dispatch_def bind_eq_Some_conv setopt_socket_def Let_def intro!: evolves_slot)
  moreover have "evolves ss ss'" if "t = 85"
    using that assms(1) add_udp_socket_evolves by (auto simp: ctrl_dispatch_def bind_eq_Some_conv)
  moreover have "evolves ss ss'" if "t \<notin> {83, 66, 76, 75, 79, 68, 80, 65, 67, 84, 85}"
    using that assms(1) by (auto simp: ctrl_dispatch_def evolves_slot split: if_splits)
  ultimately show ?thesis by blast
qed

text \<open>
  The steps of the server: a request, an event, an id reserved by a thread of the interface, and what leaves
  the table alone.
\<close>

inductive server_step :: "socket_server \<Rightarrow> socket_server \<Rightarrow> bool" where
  request: "ctrl_dispatch t bs res ss = Some (r, res', ss') \<Longrightarrow> request_ok t bs ss \<Longrightarrow> server_step ss ss'"
| event: "poll_event n res ss = Some (q, res', ss') \<Longrightarrow> server_step ss ss'"
| reserve: "reserve_id ss = (k, ss') \<Longrightarrow> server_step ss ss'"
| other: "slot ss' = slot ss \<Longrightarrow> server_step ss ss'"

inductive server_run :: "socket_server \<Rightarrow> bool" where
  created: "socket_server_create junk jev h W = Some (Some ss, W') \<Longrightarrow> server_run ss"
| step: "server_run ss \<Longrightarrow> server_step ss ss' \<Longrightarrow> server_run ss'"

lemma server_step_slots:
  assumes "server_step ss ss'" "table_ok ss"
  shows "evolves ss ss' \<or> claims ss ss'"
  using assms
proof (cases rule: server_step.cases)
  case request
  then show ?thesis using ctrl_dispatch_step assms(2) by blast
next
  case event
  then show ?thesis using poll_event_step by blast
next
  case (reserve k)
  then show ?thesis
  proof (cases k)
    case None
    then show ?thesis using reserve reserve_id_slot(1) evolves_slot by blast
  next
    case (Some j)
    then have "claims ss ss'" using reserve reserve_id_slot(2) [of ss j ss']
      unfolding claims_def by (intro exI [of _ j] exI [of _ SOCKET_TYPE_RESERVE]) simp
    then show ?thesis ..
  qed
next
  case other
  then show ?thesis using evolves_slot by blast
qed

lemma server_run_ok: "server_run ss \<Longrightarrow> table_ok ss"
proof (induction rule: server_run.induct)
  case (created junk jev h W ss W')
  then have "slot ss = (\<lambda>i. clear_socket (junk i))"
    by (auto simp: socket_server_create_def Let_def split: prod.splits if_splits)
  then show ?case by (simp add: table_ok_def sock_ok_def clear_socket_def)
next
  case (step ss ss')
  then show ?case using server_step_slots claims_ok by (auto simp: evolves_def)
qed

text \<open>
  C17. Invariant of the socket table. In every state the server can reach from its creation, a slot in use
  holds an id that maps to it, so that two sockets in use never share an id, and only sockets that can be
  written to have queued data: a free slot, a reserved one, a listening one or one waiting to be started has none.
\<close>

theorem socket_table_invariant:
  assumes "server_run ss"
  shows "(stype (slot ss i) \<noteq> SOCKET_TYPE_INVALID \<longrightarrow> HASH_ID (sid (slot ss i)) = i) \<and>
    (stype (slot ss i) \<notin> {SOCKET_TYPE_CONNECTING, SOCKET_TYPE_CONNECTED, SOCKET_TYPE_HALFCLOSE, SOCKET_TYPE_BIND} \<longrightarrow>
      send_buffer_empty (slot ss i)) \<and>
    (i \<noteq> j \<and> stype (slot ss i) \<noteq> SOCKET_TYPE_INVALID \<and> stype (slot ss j) \<noteq> SOCKET_TYPE_INVALID \<longrightarrow>
      sid (slot ss i) \<noteq> sid (slot ss j))"
proof -
  have "sock_ok i (slot ss i)" "sock_ok j (slot ss j)" using server_run_ok [OF assms] by (simp_all add: table_ok_def)
  then show ?thesis by (auto simp: sock_ok_def send_buffer_empty_def)
qed

text \<open>
  C18. Life of a socket. One step of the server moves a slot along the states of \<open>may_become\<close> and leaves the
  id, the descriptor and the protocol of a socket that stays in use; the only other change is that a free
  slot is reserved or taken by an accepted connection, under an id that maps to it.
\<close>

theorem socket_life_cycle:
  assumes "server_run ss" "server_step ss ss'"
  shows "(stype (slot ss' i) \<in> may_become (stype (slot ss i)) \<and>
      (stype (slot ss i) \<notin> {SOCKET_TYPE_INVALID, SOCKET_TYPE_RESERVE} \<and> stype (slot ss' i) \<noteq> SOCKET_TYPE_INVALID \<longrightarrow>
        sid (slot ss' i) = sid (slot ss i) \<and> fd (slot ss' i) = fd (slot ss i) \<and>
        sprotocol (slot ss' i) = sprotocol (slot ss i))) \<or>
    stype (slot ss i) = SOCKET_TYPE_INVALID \<and> stype (slot ss' i) \<in> {SOCKET_TYPE_RESERVE, SOCKET_TYPE_PACCEPT} \<and>
      HASH_ID (sid (slot ss' i)) = i"
proof -
  consider "evolves ss ss'" | "claims ss ss'" using server_step_slots [OF assms(2) server_run_ok [OF assms(1)]] by blast
  then show ?thesis
  proof cases
    case 1
    then show ?thesis by (simp add: evolves_def ages_def)
  next
    case 2
    then obtain k where k: "stype (slot ss (HASH_ID k)) = SOCKET_TYPE_INVALID" "sid (slot ss' (HASH_ID k)) = k"
        "stype (slot ss' (HASH_ID k)) \<in> {SOCKET_TYPE_RESERVE, SOCKET_TYPE_PACCEPT}"
        "\<forall>j. j \<noteq> HASH_ID k \<longrightarrow> slot ss' j = slot ss j"
      by (auto simp: claims_def)
    show ?thesis using k by (cases "i = HASH_ID k") simp_all
  qed
qed

section \<open>Examples\<close>

definition quiet_world :: world where
  "quiet_world = \<lparr>w_env = (\<lambda>_. quiet_answer), w_next = 0, w_trace = []\<rparr>"

lemma created_example: "\<exists>ss W. socket_server_create (\<lambda>_. idle_socket) [] (\<lambda>_. None) quiet_world = Some (Some ss, W) \<and> server_run ss"
proof -
  obtain ss W where c: "socket_server_create (\<lambda>_. idle_socket) [] (\<lambda>_. None) quiet_world = Some (Some ss, W)"
    by (simp add: socket_server_create_def Let_def sys_int_def next_answer_def sys_step_def quiet_world_def quiet_answer_def
        FD_SETSIZE_def)
  then show ?thesis using server_run.created by blast
qed

theorem socket_table_invariant_witness:
  "\<exists>ss. server_run ss \<and> stype (slot ss 1) = SOCKET_TYPE_INVALID \<and> send_buffer_empty (slot ss 1)"
proof -
  obtain ss W where c: "socket_server_create (\<lambda>_. idle_socket) [] (\<lambda>_. None) quiet_world = Some (Some ss, W)"
      and run: "server_run ss" using created_example by blast
  then have "stype (slot ss 1) = SOCKET_TYPE_INVALID"
    by (auto simp: socket_server_create_def Let_def clear_socket_def split: prod.splits if_splits)
  with socket_table_invariant [OF run, of 1 2] run show ?thesis by auto
qed

theorem socket_life_cycle_witness:
  "\<exists>ss ss'. server_run ss \<and> server_step ss ss' \<and> fst (reserve_id ss) = Some 1 \<and> stype (slot ss 1) = SOCKET_TYPE_INVALID \<and>
    stype (slot ss' 1) \<in> {SOCKET_TYPE_RESERVE, SOCKET_TYPE_PACCEPT} \<and> HASH_ID (sid (slot ss' 1)) = 1"
proof -
  obtain ss W where c: "socket_server_create (\<lambda>_. idle_socket) [] (\<lambda>_. None) quiet_world = Some (Some ss, W)"
      and run: "server_run ss" using created_example by blast
  then have a: "alloc_id ss = 0" "slot ss = (\<lambda>_. clear_socket idle_socket)"
    by (auto simp: socket_server_create_def Let_def split: prod.splits if_splits)
  have h: "next_id 0 = 1" "HASH_ID 1 = 1" by (simp_all add: next_id_def word_sless_alt HASH_ID_def MAX_SOCKET_def)
  obtain ss' where r: "reserve_id ss = (Some 1, ss')" "stype (slot ss' 1) = SOCKET_TYPE_RESERVE"
    using reserve_id_free [of ss] a h by (simp add: clear_socket_def)
  from r(1) have "server_step ss ss'" by (rule server_step.reserve)
  from socket_life_cycle [OF run this, of 1] this run r a show ?thesis
    by (intro exI [of _ ss] exI [of _ ss']) (simp add: clear_socket_def)
qed

end
