(* ===== verification/Concurrency.thy ===== *)
theory Concurrency
  imports Socket_Slots
begin

unbundle bit_operations_syntax

text \<open>
  Threads that meet on shared memory, one atomic instruction per step: the spin lock of
  \<open>common/utils/spinlock.h\<close>, and \<open>reserve_id\<close> of \<open>network/socket/socket_server.c\<close>, which any
  thread of the interface may run while others run it too.
\<close>

section \<open>The spin lock\<close>

record spinlock =
  lock_word :: int

definition spinlock_init :: "spinlock \<Rightarrow> spinlock" where
  "spinlock_init l = l\<lparr>lock_word := 0\<rparr>"

definition test_and_set :: "spinlock \<Rightarrow> int \<times> spinlock" where
  "test_and_set l = (lock_word l, l\<lparr>lock_word := 1\<rparr>)"

text \<open>One turn of the loop of \<open>spinlock_lock\<close>: true when the lock is taken.\<close>

definition spinlock_lock :: "spinlock \<Rightarrow> bool \<times> spinlock" where
  "spinlock_lock l = (case test_and_set l of (old, l) \<Rightarrow> (old = 0, l))"

definition spinlock_trylock :: "spinlock \<Rightarrow> bool \<times> spinlock" where
  "spinlock_trylock l = (case test_and_set l of (old, l) \<Rightarrow> (old = 0, l))"

definition spinlock_unlock :: "spinlock \<Rightarrow> spinlock" where
  "spinlock_unlock l = l\<lparr>lock_word := 0\<rparr>"

datatype lock_pc = Outside | Spinning | Inside

inductive lock_step :: "spinlock \<times> ('t \<Rightarrow> lock_pc) \<Rightarrow> spinlock \<times> ('t \<Rightarrow> lock_pc) \<Rightarrow> bool" where
  enter: "pc t = Outside \<Longrightarrow> lock_step (l, pc) (l, pc(t := Spinning))"
| spin: "pc t = Spinning \<Longrightarrow> spinlock_lock l = (got, l') \<Longrightarrow>
    lock_step (l, pc) (l', if got then pc(t := Inside) else pc)"
| try_lock: "pc t = Outside \<Longrightarrow> spinlock_trylock l = (got, l') \<Longrightarrow>
    lock_step (l, pc) (l', if got then pc(t := Inside) else pc)"
| leave: "pc t = Inside \<Longrightarrow> lock_step (l, pc) (spinlock_unlock l, pc(t := Outside))"

inductive lock_run :: "spinlock \<times> ('t \<Rightarrow> lock_pc) \<Rightarrow> bool" where
  start: "lock_run (spinlock_init l, \<lambda>_. Outside)"
| step: "lock_run s \<Longrightarrow> lock_step s s' \<Longrightarrow> lock_run s'"

section \<open>Reserving ids concurrently\<close>

text \<open>
  The program counter of a thread in \<open>reserve_id\<close>, with the turns left and the id in hand: before the
  fetch-and-add, before the fetch-and-and that clears the sign, before the test of the type, before the
  compare-and-swap, and before the id is stored.
\<close>

datatype reserve_pc = R_Idle | R_Add nat | R_Mask nat | R_Check nat u32 | R_Cas nat u32 | R_Store u32
  | R_Done u32 | R_Failed

record 't reserve_state =
  rv_alloc :: u32
  rv_free :: "nat \<Rightarrow> bool"
  rv_id :: "nat \<Rightarrow> u32"
  rv_pc :: "'t \<Rightarrow> reserve_pc"

definition goto :: "'t \<Rightarrow> reserve_pc \<Rightarrow> 't reserve_state \<Rightarrow> 't reserve_state" where
  "goto t p st = st\<lparr>rv_pc := (rv_pc st)(t := p)\<rparr>"

definition reserve_turn :: "'t \<Rightarrow> 't reserve_state \<Rightarrow> 't reserve_state" where
  "reserve_turn t st = (case rv_pc st t of
     R_Add 0 \<Rightarrow> goto t R_Failed st
   | R_Add (Suc n) \<Rightarrow> (let k = rv_alloc st + 1 in
       goto t (if k <s 0 then R_Mask n else R_Check n k) (st\<lparr>rv_alloc := k\<rparr>))
   | R_Mask n \<Rightarrow> (let k = rv_alloc st AND 0x7fffffff in goto t (R_Check n k) (st\<lparr>rv_alloc := k\<rparr>))
   | R_Check n k \<Rightarrow> (if rv_free st (HASH_ID k) then goto t (R_Cas n k) st else goto t (R_Add n) st)
   | R_Cas n k \<Rightarrow> (if rv_free st (HASH_ID k)
       then goto t (R_Store k) (st\<lparr>rv_free := (rv_free st)(HASH_ID k := False)\<rparr>)
       else goto t (R_Add (Suc n)) st)
   | R_Store k \<Rightarrow> goto t (R_Done k) (st\<lparr>rv_id := (rv_id st)(HASH_ID k := k)\<rparr>)
   | _ \<Rightarrow> st)"

text \<open>A thread calls \<open>reserve_id\<close>, takes a turn, or closes the socket it has reserved.\<close>

inductive reserve_step :: "'t reserve_state \<Rightarrow> 't reserve_state \<Rightarrow> bool" where
  call: "rv_pc st t \<in> {R_Idle, R_Failed} \<Longrightarrow> reserve_step st (goto t (R_Add MAX_SOCKET) st)"
| turn: "reserve_step st (reserve_turn t st)"
| close: "rv_pc st t = R_Done k \<Longrightarrow>
    reserve_step st (goto t R_Idle (st\<lparr>rv_free := (rv_free st)(HASH_ID k := True)\<rparr>))"

inductive reserve_run :: "'t reserve_state \<Rightarrow> bool" where
  start: "(\<forall>i. rv_free st i) \<Longrightarrow> (\<forall>t. rv_pc st t = R_Idle) \<Longrightarrow> reserve_run st"
| step: "reserve_run st \<Longrightarrow> reserve_step st st' \<Longrightarrow> reserve_run st'"

section \<open>Mutual exclusion\<close>

definition lock_inv :: "spinlock \<times> ('t \<Rightarrow> lock_pc) \<Rightarrow> bool" where
  "lock_inv s \<longleftrightarrow> (lock_word (fst s) = 0 \<longleftrightarrow> (\<forall>t. snd s t \<noteq> Inside)) \<and>
     (\<forall>t u. snd s t = Inside \<and> snd s u = Inside \<longrightarrow> t = u)"

lemmas lock_defs = spinlock_lock_def spinlock_trylock_def spinlock_unlock_def spinlock_init_def test_and_set_def

lemma lock_step_inv: "lock_step s s' \<Longrightarrow> lock_inv s \<Longrightarrow> lock_inv s'"
proof (induction rule: lock_step.induct)
  case (enter pc t l)
  then have "(pc(t := Spinning)) u = Inside \<longleftrightarrow> pc u = Inside" for u by simp
  then show ?case using enter.prems by (simp add: lock_inv_def)
next
  case (spin pc t l got l')
  then have e: "got = (lock_word l = 0)" "lock_word l' = 1" by (auto simp: lock_defs)
  show ?case using spin e by (cases got) (auto simp: lock_inv_def)
next
  case (try_lock pc t l got l')
  then have e: "got = (lock_word l = 0)" "lock_word l' = 1" by (auto simp: lock_defs)
  show ?case using try_lock e by (cases got) (auto simp: lock_inv_def)
next
  case (leave pc t l)
  then show ?case by (auto simp: lock_inv_def lock_defs)
qed

lemma lock_run_inv: "lock_run s \<Longrightarrow> lock_inv s"
  by (induction rule: lock_run.induct) (auto simp: lock_inv_def lock_defs dest: lock_step_inv [unfolded lock_inv_def])

text \<open>
  C34. Spin lock. However the threads interleave, at most one is inside the lock, and a spinning thread that
  takes its turn enters exactly when nobody is inside.
\<close>

theorem spinlock_exclusive:
  assumes "lock_run (l, pc)"
  shows "(pc t = Inside \<and> pc u = Inside \<longrightarrow> t = u) \<and> (fst (spinlock_lock l) \<longleftrightarrow> (\<forall>t. pc t \<noteq> Inside))"
  using lock_run_inv [OF assms] by (simp add: lock_inv_def lock_defs)

section \<open>Exclusive reservations\<close>

fun holds :: "reserve_pc \<Rightarrow> u32 option" where
  "holds (R_Store k) = Some k"
| "holds (R_Done k) = Some k"
| "holds _ = None"

definition reserve_inv :: "'t reserve_state \<Rightarrow> bool" where
  "reserve_inv st \<longleftrightarrow>
     (\<forall>t k. holds (rv_pc st t) = Some k \<longrightarrow> \<not> rv_free st (HASH_ID k)) \<and>
     (\<forall>t k. rv_pc st t = R_Done k \<longrightarrow> rv_id st (HASH_ID k) = k) \<and>
     (\<forall>t u k j. t \<noteq> u \<and> holds (rv_pc st t) = Some k \<and> holds (rv_pc st u) = Some j \<longrightarrow> HASH_ID k \<noteq> HASH_ID j)"


lemma goto_simps [simp]: "rv_pc (goto t p st) = (rv_pc st)(t := p)" "rv_free (goto t p st) = rv_free st"
  "rv_id (goto t p st) = rv_id st" "rv_alloc (goto t p st) = rv_alloc st"
  by (simp_all add: goto_def)

lemma inv_move:
  assumes "reserve_inv st" "rv_free st' = rv_free st" "rv_id st' = rv_id st" "rv_pc st' = (rv_pc st)(t := p)" "holds p = None"
  shows "reserve_inv st'"
proof -
  have h: "holds (rv_pc st' u) = Some k \<Longrightarrow> holds (rv_pc st u) = Some k" for u k
    using assms(4,5) by (auto split: if_splits)
  have d: "rv_pc st' u = R_Done k \<Longrightarrow> rv_pc st u = R_Done k" for u k using assms(4,5) by (auto split: if_splits)
  show ?thesis
    using assms(1) unfolding reserve_inv_def assms(2,3) by (blast dest: h d)
qed

lemma reserve_turn_inv:
  assumes inv: "reserve_inv st"
  shows "reserve_inv (reserve_turn t st)"
proof (cases "rv_pc st t")
  case (R_Add n)
  then show ?thesis by (cases n) (auto simp: reserve_turn_def Let_def intro!: inv_move [OF inv])
next
  case (R_Mask n)
  then show ?thesis by (auto simp: reserve_turn_def Let_def intro!: inv_move [OF inv])
next
  case (R_Check n k)
  then show ?thesis by (auto simp: reserve_turn_def intro!: inv_move [OF inv])
next
  case (R_Cas n k)
  show ?thesis
  proof (cases "rv_free st (HASH_ID k)")
    case False
    then show ?thesis using R_Cas by (auto simp: reserve_turn_def intro!: inv_move [OF inv])
  next
    case True
    then have "HASH_ID j \<noteq> HASH_ID k" if "holds (rv_pc st u) = Some j" for u j
      using inv that unfolding reserve_inv_def by metis
    moreover from this have "HASH_ID k \<noteq> HASH_ID j" if "holds (rv_pc st u) = Some j" for u j using that by metis
    ultimately show ?thesis
      using True R_Cas inv unfolding reserve_inv_def by (intro conjI allI impI) (auto simp: reserve_turn_def split: if_splits)
  qed
next
  case (R_Store k)
  then have "HASH_ID j \<noteq> HASH_ID k" if "holds (rv_pc st u) = Some j" "u \<noteq> t" for u j
    using inv that unfolding reserve_inv_def by (metis holds.simps(1))
  moreover have "\<not> rv_free st (HASH_ID k)" using inv R_Store unfolding reserve_inv_def by (metis holds.simps(1))
  moreover have "holds (rv_pc (reserve_turn t st) u) = holds (rv_pc st u)" "rv_free (reserve_turn t st) = rv_free st" for u
    using R_Store by (simp_all add: reserve_turn_def)
  moreover have "rv_id (reserve_turn t st) (HASH_ID j) = j" if "rv_pc (reserve_turn t st) u = R_Done j" for u j
  proof (cases "u = t")
    case True
    then show ?thesis using that R_Store by (simp add: reserve_turn_def)
  next
    case False
    then have "rv_pc st u = R_Done j" using that R_Store by (simp add: reserve_turn_def)
    moreover from this have "HASH_ID j \<noteq> HASH_ID k" using inv R_Store False unfolding reserve_inv_def by (metis holds.simps(1,2))
    moreover have "rv_id st (HASH_ID j) = j" using inv calculation(1) unfolding reserve_inv_def by metis
    ultimately show ?thesis using R_Store by (simp add: reserve_turn_def)
  qed
  ultimately show ?thesis using inv unfolding reserve_inv_def by simp
qed (use inv in \<open>simp_all add: reserve_turn_def\<close>)

lemma reserve_run_inv: "reserve_run st \<Longrightarrow> reserve_inv st"
proof (induction rule: reserve_run.induct)
  case (start st)
  then show ?case by (simp add: reserve_inv_def)
next
  case (step st st')
  from step(2) step.IH show ?case
  proof (induction rule: reserve_step.induct)
    case (call st t)
    then show ?case by (auto intro: inv_move)
  next
    case (turn st t)
    then show ?case by (rule reserve_turn_inv)
  next
    case (close st t k)
    then have "HASH_ID j \<noteq> HASH_ID k" if "holds (rv_pc st u) = Some j" "u \<noteq> t" for u j
      using that unfolding reserve_inv_def by (metis holds.simps(2))
    then show ?case using close unfolding reserve_inv_def by (intro conjI allI impI) (auto split: if_splits)
  qed
qed

text \<open>
  C24. Concurrent reservations. However the calls of \<open>reserve_id\<close> interleave, also when several threads
  run into the sign bit at once and draw the same id, two threads that hold a slot hold different ones, the
  slot is marked as taken, and the id stored in it is the one its owner was given.
\<close>

theorem reservations_exclusive:
  assumes "reserve_run st" "rv_pc st t = R_Done k"
  shows "\<not> rv_free st (HASH_ID k) \<and> rv_id st (HASH_ID k) = k \<and>
    (\<forall>u j. u \<noteq> t \<and> rv_pc st u = R_Done j \<longrightarrow> HASH_ID j \<noteq> HASH_ID k)"
  using reserve_run_inv [OF assms(1)] assms(2) unfolding reserve_inv_def by (metis holds.simps(2))

section \<open>Examples\<close>

definition one_inside :: "nat \<Rightarrow> lock_pc" where
  "one_inside = (\<lambda>_. Outside)(0 := Inside, 1 := Spinning)"

theorem spinlock_exclusive_witness:
  "lock_run (\<lparr>lock_word = 1\<rparr>, one_inside) \<and> one_inside 0 = Inside \<and> one_inside 1 \<noteq> Inside \<and>
   \<not> fst (spinlock_lock \<lparr>lock_word = 1\<rparr>)"
proof -
  let ?pc = "(\<lambda>_. Outside) :: nat \<Rightarrow> lock_pc"
  have "lock_run (\<lparr>lock_word = 0\<rparr>, ?pc)" using lock_run.start [of "\<lparr>lock_word = 0\<rparr>"] by (simp add: spinlock_init_def)
  moreover have "lock_step (\<lparr>lock_word = 0\<rparr>, ?pc) (\<lparr>lock_word = 1\<rparr>, ?pc(0 := Inside))"
    using lock_step.try_lock [of ?pc 0 "\<lparr>lock_word = 0\<rparr>" True "\<lparr>lock_word = 1\<rparr>"] by (simp add: lock_defs)
  moreover have "lock_step (\<lparr>lock_word = 1\<rparr>, ?pc(0 := Inside)) (\<lparr>lock_word = 1\<rparr>, one_inside)"
    using lock_step.enter [of "?pc(0 := Inside)" 1] by (simp add: one_inside_def)
  ultimately have run: "lock_run (\<lparr>lock_word = 1\<rparr>, one_inside)" by (blast intro: lock_run.step)
  have "one_inside 0 = Inside" by (simp add: one_inside_def)
  with run spinlock_exclusive [OF run, of 0 1] show ?thesis by (metis zero_neq_one)
qed

definition one_reserving :: "nat reserve_state" where
  "one_reserving = \<lparr>rv_alloc = 0, rv_free = (\<lambda>_. True), rv_id = (\<lambda>_. 0), rv_pc = (\<lambda>_. R_Idle)\<rparr>"

theorem reservations_exclusive_witness:
  "\<exists>st :: nat reserve_state. reserve_run st \<and> rv_pc st 0 = R_Done 1 \<and> \<not> rv_free st (HASH_ID 1) \<and> rv_id st (HASH_ID 1) = 1"
proof -
  have "MAX_SOCKET \<noteq> 0" by (simp add: MAX_SOCKET_def)
  then obtain n where n: "MAX_SOCKET = Suc n" using not0_implies_Suc by blast
  let ?a = "goto 0 (R_Add (Suc n)) one_reserving"
  have "reserve_run one_reserving" by (rule reserve_run.start) (simp_all add: one_reserving_def)
  then have "reserve_run ?a"
    using reserve_step.call [of one_reserving 0] n by (auto simp: one_reserving_def intro: reserve_run.step)
  moreover have turn: "reserve_run st \<Longrightarrow> reserve_turn 0 st = st' \<Longrightarrow> reserve_run st'" for st st' :: "nat reserve_state"
    using reserve_step.turn [of st 0] by (auto intro: reserve_run.step)
  let ?b = "goto 0 (R_Check n 1) (one_reserving\<lparr>rv_alloc := 1\<rparr>)" and ?c = "goto 0 (R_Cas n 1) (one_reserving\<lparr>rv_alloc := 1\<rparr>)"
  let ?d = "goto 0 (R_Store 1) (one_reserving\<lparr>rv_alloc := 1, rv_free := (\<lambda>_. True)(HASH_ID 1 := False)\<rparr>)"
  let ?e = "goto 0 (R_Done 1) (one_reserving\<lparr>rv_alloc := 1, rv_free := (\<lambda>_. True)(HASH_ID 1 := False),
     rv_id := (\<lambda>_. 0)(HASH_ID 1 := 1)\<rparr>)"
  have "\<not> (1 :: u32) <s 0" by (simp add: word_sless_alt)
  then have "reserve_turn 0 ?a = ?b" "reserve_turn 0 ?b = ?c" "reserve_turn 0 ?c = ?d" "reserve_turn 0 ?d = ?e"
    by (simp_all add: reserve_turn_def one_reserving_def goto_def)
  ultimately have run: "reserve_run ?e" using turn by metis
  have fin: "rv_pc ?e 0 = R_Done 1" by simp
  from reservations_exclusive [OF run fin] run fin show ?thesis by blast
qed

end
