(* ===== verification/Server_Context.thy ===== *)
theory Server_Context
  imports Network Uuid
begin

text \<open>
  The state of a network server (\<open>ServerContext\<close> of \<open>network/context.h\<close>) together with the client
  objects it points to.
  \<^item> A \<open>ClientContext*\<close> is an address of \<open>svr_clients\<close>; using a deleted object gives \<open>None\<close>. The
    packet pool and the id generator are singletons of the program and fields of the same state.
  \<^item> The locale \<open>client_context\<close> is the abstract class \<open>ClientContext\<close>: the virtual functions the
    pool and the receive command call, with the laws both client classes keep. The bookkeeping of
    clients is proved there once, for the socket server and for the libevent server.
\<close>

section \<open>State and operations\<close>

record 'c ServerContext =
  svr_net :: NetworkContext
  m_stClientPool :: "nat ClientContextPool"
  svr_clients :: "nat \<Rightarrow> 'c option"
  svr_next :: nat
  svr_memory :: CPacketMemoryPool
  svr_uuid :: SnowFlakeUUID

definition ClientContextPool_new :: "'c ClientContextPool" where
  "ClientContextPool_new = \<lparr>m_stClientSeqPool = (\<lambda>_. None), m_stClientFdPool = (\<lambda>_. None)\<rparr>"

definition ServerContext_new :: "SnowFlakeUUID \<Rightarrow> 'c ServerContext" where
  "ServerContext_new u = \<lparr>svr_net = NetworkContext_new, m_stClientPool = ClientContextPool_new,
     svr_clients = (\<lambda>_. None), svr_next = 0, svr_memory = CPacketMemoryPool_new, svr_uuid = u\<rparr>"

definition put_client :: "nat \<Rightarrow> 'c \<Rightarrow> 'c ServerContext \<Rightarrow> 'c ServerContext" where
  "put_client p c S = S\<lparr>svr_clients := (svr_clients S)(p := Some c)\<rparr>"

definition new_client :: "'c \<Rightarrow> 'c ServerContext \<Rightarrow> nat \<times> 'c ServerContext" where
  "new_client c S = (svr_next S, put_client (svr_next S) c (S\<lparr>svr_next := Suc (svr_next S)\<rparr>))"

definition delete_client :: "nat \<Rightarrow> 'c ServerContext \<Rightarrow> 'c ServerContext option" where
  "delete_client p S = (case svr_clients S p of
     None \<Rightarrow> None
   | Some _ \<Rightarrow> Some (S\<lparr>svr_clients := (svr_clients S)(p := None)\<rparr>))"

text \<open>
  \<open>RemoveClient\<close> calls \<open>GetClientFd\<close> of the object it finds, so that object must be alive.
\<close>

definition server_RemoveClient ::
    "('c \<Rightarrow> int) \<Rightarrow> u64 \<Rightarrow> 'c ServerContext \<Rightarrow> 'c ServerContext option" where
  "server_RemoveClient fd_of ulClientSeq S = (case GetClient ulClientSeq (m_stClientPool S) of
     None \<Rightarrow> Some S
   | Some q \<Rightarrow> do {
       c \<leftarrow> svr_clients S q;
       Some (S\<lparr>m_stClientPool := snd (RemoveClient (\<lambda>_. fd_of c) None ulClientSeq (m_stClientPool S))\<rparr>)
     })"

definition server_ExecuteCmdRecvAllPacket ::
    "('c \<Rightarrow> ST_ClientContextBuffer) \<Rightarrow> (ST_ClientContextBuffer \<Rightarrow> 'c \<Rightarrow> 'c) \<Rightarrow> (nat \<Rightarrow> u64) \<Rightarrow> nat
     \<Rightarrow> 'c ServerContext \<Rightarrow> (int \<times> 'c ServerContext) option" where
  "server_ExecuteCmdRecvAllPacket get_buffer set_buffer clock p S = do {
     c \<leftarrow> svr_clients S p;
     (ret, b, N, P) \<leftarrow> UnpackPacketToRecvQueue clock (Some (get_buffer c)) (svr_net S) (svr_memory S);
     b \<leftarrow> b;
     Some (ret, put_client p (set_buffer b c) (S\<lparr>svr_net := N, svr_memory := P\<rparr>))
   }"

lemma put_client_simps [simp]:
  "svr_net (put_client p c S) = svr_net S" "m_stClientPool (put_client p c S) = m_stClientPool S"
  "svr_clients (put_client p c S) = (svr_clients S)(p := Some c)" "svr_next (put_client p c S) = svr_next S"
  "svr_memory (put_client p c S) = svr_memory S" "svr_uuid (put_client p c S) = svr_uuid S"
  "put_client p c (put_client p d S) = put_client p c S"
  by (simp_all add: put_client_def)

section \<open>Invariant\<close>

definition received :: "'c ServerContext \<Rightarrow> packet list" where
  "received S = queue_view (svr_memory S) (m_stNetPacketRecvQueue (svr_net S)) @
     queue_view (svr_memory S) (m_stNetPacketRecvPrepareQueue (svr_net S))"

abbreviation signalled :: "'c ServerContext \<Rightarrow> bool" where
  "signalled S \<equiv> m_bHasSignal (m_stSignalExec (svr_net S))"

text \<open>
  The two maps of the pool are two indexes of the same set, the live client objects. Every one of
  these has a valid buffer, addresses are used once, and the queues satisfy their invariant.
\<close>

definition index_of :: "('c \<Rightarrow> 'k) \<Rightarrow> ('k \<Rightarrow> nat option) \<Rightarrow> (nat \<Rightarrow> 'c option) \<Rightarrow> bool" where
  "index_of key m cs \<longleftrightarrow> (\<forall>k p. m k = Some p \<longleftrightarrow> (\<exists>c. cs p = Some c \<and> key c = k))"

definition registered :: "('c \<Rightarrow> int) \<Rightarrow> ('c \<Rightarrow> u64) \<Rightarrow> nat ClientContextPool \<Rightarrow> (nat \<Rightarrow> 'c option) \<Rightarrow> bool" where
  "registered fd_of seq_of cp cs \<longleftrightarrow>
     index_of fd_of (m_stClientFdPool cp) cs \<and> index_of seq_of (m_stClientSeqPool cp) cs"

definition server_inv ::
    "('c \<Rightarrow> ST_ClientContextBuffer) \<Rightarrow> ('c \<Rightarrow> u64) \<Rightarrow> 'c ServerContext \<Rightarrow> bool" where
  "server_inv get_buffer seq_of S \<longleftrightarrow>
     registered (m_iClientFd \<circ> get_buffer) seq_of (m_stClientPool S) (svr_clients S) \<and>
     (\<forall>p c. svr_clients S p = Some c \<longrightarrow> p < svr_next S \<and> ctx_ok (get_buffer c)) \<and>
     (\<exists>L. net_inv (svr_net S) (svr_memory S) L)"

definition client_of :: "'c ServerContext \<Rightarrow> int \<Rightarrow> 'c option" where
  "client_of S fd = Option.bind (GetClientByFd fd (m_stClientPool S)) (svr_clients S)"

lemma server_inv_new: "server_inv get_buffer seq_of (ServerContext_new u)"
  using net_inv_new [OF pool_wf_new]
  by (auto simp: server_inv_def registered_def index_of_def ServerContext_new_def ClientContextPool_new_def)

lemma index_ofI: "(\<And>k p. m k = Some p \<longleftrightarrow> (\<exists>c. cs p = Some c \<and> key c = k)) \<Longrightarrow> index_of key m cs"
  by (simp add: index_of_def)

lemma index_ofD: "index_of key m cs \<Longrightarrow> m k = Some p \<longleftrightarrow> (\<exists>c. cs p = Some c \<and> key c = k)"
  by (simp add: index_of_def)

lemma index_of_key: "index_of key m cs \<Longrightarrow> cs p = Some c \<Longrightarrow> m (key c) = Some p"
  by (simp add: index_ofD)

lemma index_of_inj: "index_of key m cs \<Longrightarrow> cs p = Some c \<Longrightarrow> cs q = Some d \<Longrightarrow> key d = key c \<Longrightarrow> q = p"
  using index_of_key [of key m cs p c] index_of_key [of key m cs q d] by simp

lemma index_of_update:
  assumes "index_of key m cs" "cs p = Some c" "key c' = key c"
  shows "index_of key m (cs(p := Some c'))"
proof (rule index_ofI)
  fix k q
  show "m k = Some q \<longleftrightarrow> (\<exists>d. (cs(p := Some c')) q = Some d \<and> key d = k)"
    using assms(2,3) by (cases "q = p") (simp_all add: index_ofD [OF assms(1)])
qed

lemma index_of_add:
  assumes "index_of key m cs" "cs p = None" "m (key c) = None"
  shows "index_of key (m(key c \<mapsto> p)) (cs(p := Some c))"
proof (rule index_ofI)
  fix k q
  have "k \<noteq> key c" if "cs q = Some d" "key d = k" for d
    using index_of_key [OF assms(1) that(1)] that(2) assms(3) by auto
  then show "(m(key c \<mapsto> p)) k = Some q \<longleftrightarrow> (\<exists>d. (cs(p := Some c)) q = Some d \<and> key d = k)"
    using assms(2) index_ofD [OF assms(1), of k p] index_ofD [OF assms(1), of k q] by (cases "k = key c"; cases "q = p") auto
qed

lemma index_of_remove:
  assumes "index_of key m cs" "cs p = Some c"
  shows "index_of key (m(key c := None)) (cs(p := None))"
proof (rule index_ofI)
  fix k q
  note q = index_ofD [OF assms(1), of k q]
  show "(m(key c := None)) k = Some q \<longleftrightarrow> (\<exists>d. (cs(p := None)) q = Some d \<and> key d = k)"
  proof (cases "q = p")
    case True
    then show ?thesis using q assms(2) by auto
  next
    case False
    then have "key d \<noteq> key c" if "cs q = Some d" for d
      using index_of_inj [OF assms that] by blast
    then show ?thesis using q False by auto
  qed
qed

lemma registered_fd: "registered fd_of seq_of cp cs \<Longrightarrow> cs p = Some c \<Longrightarrow> m_stClientFdPool cp (fd_of c) = Some p"
  by (auto simp: registered_def intro: index_of_key)

lemma registered_seq: "registered fd_of seq_of cp cs \<Longrightarrow> cs p = Some c \<Longrightarrow> m_stClientSeqPool cp (seq_of c) = Some p"
  by (auto simp: registered_def intro: index_of_key)

lemma registered_fdD:
  "registered fd_of seq_of cp cs \<Longrightarrow> m_stClientFdPool cp fd = Some p \<Longrightarrow> \<exists>c. cs p = Some c \<and> fd_of c = fd"
  unfolding registered_def using index_ofD [of fd_of "m_stClientFdPool cp" cs fd p] by simp

lemma registered_update:
  assumes "registered fd_of seq_of cp cs" "cs p = Some c" "fd_of c' = fd_of c" "seq_of c' = seq_of c"
  shows "registered fd_of seq_of cp (cs(p := Some c'))"
  using assms by (simp add: registered_def index_of_update)

lemma registered_add:
  assumes "registered fd_of seq_of cp cs" "cs p = None" "m_stClientFdPool cp (fd_of c) = None"
    "m_stClientSeqPool cp (seq_of c) = None"
  shows "registered fd_of seq_of (AddClient (seq_of c) p (fd_of c) cp) (cs(p := Some c))"
  using assms by (simp add: registered_def index_of_add AddClient_def map_insert_def)

lemma RemoveClient_registered:
  assumes "registered fd_of seq_of cp cs" "cs p = Some c"
  shows "snd (RemoveClient (\<lambda>_. fd_of c) None (seq_of c) cp) =
    cp\<lparr>m_stClientFdPool := (m_stClientFdPool cp)(fd_of c := None),
       m_stClientSeqPool := (m_stClientSeqPool cp)(seq_of c := None)\<rparr>"
  using registered_fd [OF assms] registered_seq [OF assms]
  by (simp add: RemoveClient_def RemoveClientByFd_def)

lemma registered_remove:
  assumes "registered fd_of seq_of cp cs" "cs p = Some c"
  shows "registered fd_of seq_of (snd (RemoveClient (\<lambda>_. fd_of c) None (seq_of c) cp)) (cs(p := None))"
  using assms unfolding RemoveClient_registered [OF assms] by (simp add: registered_def index_of_remove)

section \<open>Streams\<close>

text \<open>
  Parsing is incremental: what has been split off a prefix of a stream stays split off, and the
  parser continues with the bytes it kept. \<open>stalled\<close> bytes announce a frame shorter than its
  own header; the parser waits for ever behind them.
\<close>

definition stalled :: "byte list \<Rightarrow> bool" where
  "stalled d \<longleftrightarrow> 4 \<le> length d \<and> be16 d < 4"

lemma be16_append: "2 \<le> length d \<Longrightarrow> be16 (d @ x) = be16 d"
  by (simp add: be16_def)

lemma frame_head_append: "frame_head d \<noteq> Frame_Wait \<Longrightarrow> frame_head (d @ x) = frame_head d"
  by (cases "4 \<le> length d") (auto simp: frame_head_def be16_append)

lemma frames_of_append:
  "frames_of d = (fs, rest, e) \<Longrightarrow> frames_of (d @ x) =
   (if e = 0 then (case frames_of (rest @ x) of (gs, r, e') \<Rightarrow> (fs @ gs, r, e')) else (fs, rest @ x, e))"
proof (induction d arbitrary: fs rest e rule: frames_of.induct)
  case (1 d)
  show ?case
  proof (cases "frame_head d")
    case Frame_Wait
    then show ?thesis using 1(2) by (simp add: frames_of_wait split: prod.splits)
  next
    case (Frame_Error e')
    then have "e' \<noteq> 0" by (auto simp: frame_head_def split: if_splits)
    moreover have "frames_of d = ([], d, e')" "frames_of (d @ x) = ([], d @ x, e')"
      using Frame_Error frame_head_append [of d x] by (subst frames_of.simps; simp)+
    ultimately show ?thesis using 1(2) by simp
  next
    case (Frame pno n)
    have n: "4 < n" "n \<le> length d" using frame_headD [OF Frame] by auto
    obtain fs' where fs: "fs = (pno, take (n - 4) (drop 4 d)) # fs'" "frames_of (drop n d) = (fs', rest, e)"
      using 1(2) Frame by (subst (asm) frames_of.simps) (auto split: prod.splits)
    have "frames_of (d @ x) = (case frames_of (drop n d @ x) of (gs, r, e') \<Rightarrow> ((pno, take (n - 4) (drop 4 d)) # gs, r, e'))"
      using Frame frame_head_append [of d x] n by (subst frames_of.simps) simp
    then show ?thesis
      using 1(1) [OF Frame fs(2)] fs(1) by (auto split: prod.splits)
  qed
qed

lemma frames_of_rest: "frames_of d = (fs, rest, 0) \<Longrightarrow> frame_head rest = Frame_Wait"
proof (induction d arbitrary: fs rest rule: frames_of.induct)
  case (1 d)
  show ?case
  proof (cases "frame_head d")
    case Frame_Wait
    then show ?thesis using 1(2) frames_of_wait [of d] by simp
  next
    case (Frame_Error e')
    then have "e' \<noteq> 0" by (auto simp: frame_head_def split: if_splits)
    then show ?thesis using 1(2) Frame_Error by (subst (asm) frames_of.simps) simp
  next
    case (Frame pno n)
    then show ?thesis using 1(1) [OF Frame] 1(2) by (subst (asm) (2) frames_of.simps) (auto split: prod.splits)
  qed
qed

lemma be16_bound: "be16 d < 32768"
  using sint_less [where 'a = 16] by (simp add: be16_def)

lemma rest_bound: "frame_head rest = Frame_Wait \<Longrightarrow> \<not> stalled rest \<Longrightarrow> length rest < 32767"
  using be16_bound [of rest] by (auto simp: frame_head_def stalled_def split: if_splits)

lemma stalled_append: "stalled d \<Longrightarrow> stalled (d @ x)"
  by (simp add: stalled_def be16_append)

lemma stalled_wait: "stalled d \<Longrightarrow> frames_of d = ([], d, 0)"
  by (rule frames_of_wait) (simp add: stalled_def frame_head_def)

text \<open>Bytes that arrive behind a valid prefix of a stream.\<close>

lemma frames_of_continue:
  assumes "frames_of (d @ x @ y) = (fs, rest, e)" "\<not> stalled rest"
  obtains fs1 r1 e1 where "frames_of (d @ x) = (fs1, r1, e1)" "e1 = 0 \<longrightarrow> \<not> stalled r1"
    "e1 = 0 \<longrightarrow> (\<exists>fs2. fs = fs1 @ fs2 \<and> frames_of (r1 @ y) = (fs2, rest, e))"
    "e1 \<noteq> 0 \<longrightarrow> fs = fs1 \<and> e = e1"
proof -
  obtain fs1 r1 e1 where 1: "frames_of (d @ x) = (fs1, r1, e1)" by (metis prod.exhaust)
  have all: "frames_of ((d @ x) @ y) = (fs, rest, e)" using assms(1) by simp
  note app = frames_of_append [OF 1, of y]
  have "\<exists>fs2. fs = fs1 @ fs2 \<and> frames_of (r1 @ y) = (fs2, rest, e)" if "e1 = 0"
    using app all that by (auto split: prod.splits)
  moreover have "\<not> stalled r1" if "e1 = 0"
  proof
    assume "stalled r1"
    from stalled_wait [OF stalled_append [OF this, of y]] app all that
    have "rest = r1 @ y" by simp
    then show False using stalled_append [OF \<open>stalled r1\<close>, of y] assms(2) by simp
  qed
  moreover have "fs = fs1 \<and> e = e1" if "e1 \<noteq> 0" using app all that by simp
  ultimately show ?thesis using that [OF 1] by blast
qed

section \<open>The class of clients\<close>

locale client_context =
  fixes get_buffer :: "'c \<Rightarrow> ST_ClientContextBuffer"
    and set_buffer :: "ST_ClientContextBuffer \<Rightarrow> 'c \<Rightarrow> 'c"
    and seq_of :: "'c \<Rightarrow> u64"
  assumes get_set [simp]: "get_buffer (set_buffer b c) = b"
    and seq_set: "ctx_ulClientSeq b = ctx_ulClientSeq (get_buffer c) \<Longrightarrow> seq_of (set_buffer b c) = seq_of c"
begin

abbreviation (input) inv :: "'c ServerContext \<Rightarrow> bool" where
  "inv \<equiv> server_inv get_buffer seq_of"

lemma close_registered:
  assumes inv: "inv S" and p: "svr_clients S p = Some c"
  obtains S' where "server_RemoveClient (m_iClientFd \<circ> get_buffer) (seq_of c) S \<bind> delete_client p = Some S'"
    "inv S'" "svr_clients S' = (svr_clients S)(p := None)"
    "m_stClientFdPool (m_stClientPool S') = (m_stClientFdPool (m_stClientPool S))(m_iClientFd (get_buffer c) := None)"
    "svr_net S' = svr_net S" "svr_memory S' = svr_memory S"
proof -
  have reg: "registered (m_iClientFd \<circ> get_buffer) seq_of (m_stClientPool S) (svr_clients S)"
    using inv by (simp add: server_inv_def)
  let ?cp = "snd (RemoveClient (\<lambda>_. (m_iClientFd \<circ> get_buffer) c) None (seq_of c) (m_stClientPool S))"
  let ?S = "S\<lparr>m_stClientPool := ?cp, svr_clients := (svr_clients S)(p := None)\<rparr>"
  have "inv ?S"
    using inv registered_remove [OF reg p] by (auto simp: server_inv_def)
  moreover have "m_stClientFdPool ?cp = (m_stClientFdPool (m_stClientPool S))(m_iClientFd (get_buffer c) := None)"
    using RemoveClient_registered [OF reg p] by simp
  moreover have "server_RemoveClient (m_iClientFd \<circ> get_buffer) (seq_of c) S \<bind> delete_client p = Some ?S"
    using registered_seq [OF reg p] p by (simp add: server_RemoveClient_def GetClient_def delete_client_def)
  ultimately show ?thesis using that [of ?S] by simp
qed

lemma add_registered:
  assumes inv: "inv S" and c: "ctx_ok (get_buffer c)"
    and fresh: "m_stClientFdPool (m_stClientPool S) (m_iClientFd (get_buffer c)) = None"
      "m_stClientSeqPool (m_stClientPool S) (seq_of c) = None"
  shows "inv (put_client (svr_next S) c (S\<lparr>svr_next := Suc (svr_next S),
    m_stClientPool := AddClient (seq_of c) (svr_next S) (m_iClientFd (get_buffer c)) (m_stClientPool S)\<rparr>))"
proof -
  have p: "svr_clients S (svr_next S) = None"
    using inv by (metis less_irrefl not_None_eq server_inv_def)
  show ?thesis
    using inv c registered_add [of "m_iClientFd \<circ> get_buffer" seq_of "m_stClientPool S" "svr_clients S" "svr_next S" c] fresh p
    by (auto simp: server_inv_def intro: less_SucI)
qed

lemma update_registered:
  assumes inv: "inv S" and p: "svr_clients S p = Some c" and c: "ctx_ok (get_buffer c')" "m_iClientFd (get_buffer c') = m_iClientFd (get_buffer c)"
      "seq_of c' = seq_of c"
  shows "inv (put_client p c' S)"
  using inv p c registered_update [of "m_iClientFd \<circ> get_buffer" seq_of "m_stClientPool S" "svr_clients S" p c c']
  by (auto simp: server_inv_def)

text \<open>The receive command of a server is the wire format on the client's buffer.\<close>

lemma recv_frames:
  assumes inv: "inv S" and p: "svr_clients S p = Some c" and fs: "frames_of (ctx_data (get_buffer c)) = (fs, rest, e)"
  obtains S' b where "server_ExecuteCmdRecvAllPacket get_buffer set_buffer clock p S = Some (e, S')" "inv S'"
    "svr_clients S' = (svr_clients S)(p := Some (set_buffer b c))" "ctx_ok b" "ctx_data b = (if e = 0 then rest else ctx_data (get_buffer c))"
    "ctx_ulClientSeq b = ctx_ulClientSeq (get_buffer c)" "m_iClientFd b = m_iClientFd (get_buffer c)"
    "m_chClientIP b = m_chClientIP (get_buffer c)"
    "received S' = received S @ map (recv_tag (get_buffer c)) fs"
    "signalled S' = (signalled S \<or> (e = 0 \<and> fs \<noteq> []))"
    "m_stClientPool S' = m_stClientPool S" "svr_next S' = svr_next S" "svr_uuid S' = svr_uuid S"
proof -
  obtain L where L: "net_inv (svr_net S) (svr_memory S) L" using inv by (auto simp: server_inv_def)
  have ok: "ctx_ok (get_buffer c)" using inv p by (auto simp: server_inv_def)
  obtain b N P L' where u: "UnpackPacketToRecvQueue clock (Some (get_buffer c)) (svr_net S) (svr_memory S) = Some (e, Some b, N, P)"
      "net_inv N P L'" "ctx_ok b" "ctx_data b = (if e = 0 then rest else ctx_data (get_buffer c))"
      "ctx_ulClientSeq b = ctx_ulClientSeq (get_buffer c)" "m_iClientFd b = m_iClientFd (get_buffer c)"
      "m_chClientIP b = m_chClientIP (get_buffer c)"
      "queue_view P (m_stNetPacketRecvQueue N) @ queue_view P (m_stNetPacketRecvPrepareQueue N) =
       queue_view (svr_memory S) (m_stNetPacketRecvQueue (svr_net S)) @
       queue_view (svr_memory S) (m_stNetPacketRecvPrepareQueue (svr_net S)) @ map (recv_tag (get_buffer c)) fs"
      "m_bHasSignal (m_stSignalExec N) = (signalled S \<or> (e = 0 \<and> fs \<noteq> []))"
    by (rule UnpackPacketToRecvQueue_frames [OF L ok fs, where clock = clock])
  let ?S = "put_client p (set_buffer b c) (S\<lparr>svr_net := N, svr_memory := P\<rparr>)"
  have "inv (put_client p (set_buffer b c) S)"
    using update_registered [OF inv p, of "set_buffer b c"] u(3,5,6) seq_set [of b c] by simp
  then have "inv ?S" using u(2) by (auto simp: server_inv_def)
  moreover have "server_ExecuteCmdRecvAllPacket get_buffer set_buffer clock p S = Some (e, ?S)"
    using p u(1) by (simp add: server_ExecuteCmdRecvAllPacket_def)
  moreover have "received ?S = received S @ map (recv_tag (get_buffer c)) fs"
    using u(8) by (simp add: received_def)
  ultimately show ?thesis using that [of ?S b] u by simp
qed

end

end
