(* ===== verification/Server_Logic.thy ===== *)
theory Server_Logic
  imports Server_Context Socket_Pipe C_String
begin

text \<open>
  The socket back end of a network server, \<open>network/socket/server_logic.cpp\<close> and \<open>server_logic.h\<close>:
  what becomes of the messages of \<open>socket_server_poll\<close> (new clients, data, closed sockets), and the
  command pipe by which the logic thread asks for packets to be sent.
  \<^item> A handler that dereferences a null or dangling pointer, or that never returns, gives \<open>None\<close>.
  \<^item> Clock readings, the buffers of requests and the addresses \<open>malloc\<close> returns are arguments.
\<close>

section \<open>Handlers\<close>

definition NETWORK_SOCKET_SERVER_OPAQUE :: u64 where
  "NETWORK_SOCKET_SERVER_OPAQUE = 1001"

definition NETWORK_SERVER_LISTEN_QUEUE_LEN :: int where
  "NETWORK_SERVER_LISTEN_QUEUE_LEN = 512"

type_synonym socket_ctx = "SocketClientCtx ServerContext"

abbreviation socket_client_fd :: "SocketClientCtx \<Rightarrow> int" where
  "socket_client_fd \<equiv> m_iClientFd \<circ> m_stContextBuffer"

definition set_context_buffer :: "ST_ClientContextBuffer \<Rightarrow> SocketClientCtx \<Rightarrow> SocketClientCtx" where
  "set_context_buffer b c = c\<lparr>m_stContextBuffer := b\<rparr>"

definition ProcessNewClient ::
    "u64 list \<Rightarrow> int \<Rightarrow> socket_message \<Rightarrow> socket_ctx \<Rightarrow> (u64 list \<times> socket_ctx) option" where
  "ProcessNewClient uclock iClientFd rstMessage S = do {
     data \<leftarrow> msg_data rstMessage;
     let dwSize = length (c_str data);
     (case GetClientByFd iClientFd (m_stClientPool S) of
        None \<Rightarrow> do {
          (uuid, u, uclock) \<leftarrow> GenerateSeqID (svr_uuid S) uclock;
          let (p, S) = new_client (SocketClientCtx_new uuid iClientFd) (S\<lparr>svr_uuid := u\<rparr>);
          c \<leftarrow> svr_clients S p;
          c \<leftarrow> SetClientIP data dwSize c;
          let S = put_client p c (S\<lparr>m_stClientPool :=
            AddClient (m_ulClientUniqSeq c) p (socket_client_fd c) (m_stClientPool S)\<rparr>);
          c \<leftarrow> SetClientIP data dwSize c;
          Some (uclock, put_client p c S)
        }
      | Some p \<Rightarrow> do {
          c \<leftarrow> svr_clients S p;
          c \<leftarrow> SetClientIP data dwSize c;
          Some (uclock, put_client p c S)
        })
   }"

definition ProcessCloseClient :: "int \<Rightarrow> socket_ctx \<Rightarrow> (bool \<times> socket_ctx) option" where
  "ProcessCloseClient iClientFd S = (case GetClientByFd iClientFd (m_stClientPool S) of
     None \<Rightarrow> Some (False, S)
   | Some p \<Rightarrow> do {
       c \<leftarrow> svr_clients S p;
       S \<leftarrow> server_RemoveClient socket_client_fd (m_ulClientUniqSeq c) S;
       S \<leftarrow> delete_client p S;
       Some (True, S)
     })"

partial_function (option) message_loop ::
    "(nat \<Rightarrow> nat \<Rightarrow> u64) \<Rightarrow> nat \<Rightarrow> int \<Rightarrow> nat \<Rightarrow> byte list \<Rightarrow> int \<Rightarrow> socket_ctx \<Rightarrow> socket_ctx option" where
  "message_loop clock i iClientFd p pchBufferPtr iBufferNeedRead S = do {
     c \<leftarrow> svr_clients S p;
     (iReadLen, c) \<leftarrow> PacketBufferRead pchBufferPtr iBufferNeedRead c;
     let S = put_client p c S;
     let (pchBufferPtr, iBufferNeedRead) =
       (if iReadLen > 0 then (drop (nat iReadLen) pchBufferPtr, iBufferNeedRead - iReadLen)
        else (pchBufferPtr, iBufferNeedRead));
     (iRet, S) \<leftarrow> server_ExecuteCmdRecvAllPacket m_stContextBuffer set_context_buffer (clock i) p S;
     (if iRet \<noteq> 0 then do {
        (_, S) \<leftarrow> ProcessCloseClient iClientFd S;
        Some S
      }
      else if iBufferNeedRead > 0 then message_loop clock (Suc i) iClientFd p pchBufferPtr iBufferNeedRead S
      else Some S)
   }"

definition ProcessMessageData ::
    "(nat \<Rightarrow> nat \<Rightarrow> u64) \<Rightarrow> int \<Rightarrow> socket_message \<Rightarrow> socket_ctx \<Rightarrow> socket_ctx option" where
  "ProcessMessageData clock iClientFd rstMessage S = (case GetClientByFd iClientFd (m_stClientPool S) of
     None \<Rightarrow> Some S
   | Some p \<Rightarrow> (case msg_data rstMessage of
       None \<Rightarrow> Some S
     | Some data \<Rightarrow>
         if msg_ud rstMessage \<le> 0 then Some S
         else message_loop clock 0 iClientFd p data (msg_ud rstMessage) S))"

definition ProcessOneLoop ::
    "byte list \<Rightarrow> (nat \<Rightarrow> nat \<Rightarrow> u64) \<Rightarrow> u64 list \<Rightarrow> socket_message \<Rightarrow> socket_server \<Rightarrow> socket_ctx
     \<Rightarrow> (u64 list \<times> socket_server \<times> socket_ctx) option" where
  "ProcessOneLoop u clock uclock junk ss S = do {
     (t, stMessage, _, ss) \<leftarrow> socket_server_poll None junk ss;
     (if t = SOCKET_EXIT then Some (uclock, ss, S)
      else if t = SOCKET_OPEN then Some (uclock, ss, S)
      else if t = SOCKET_ACCEPT then do {
        let iClientFd = msg_ud stMessage;
        (uclock, S) \<leftarrow> ProcessNewClient uclock iClientFd stMessage S;
        ss \<leftarrow> socket_server_start u NETWORK_SOCKET_SERVER_OPAQUE (word_of_int iClientFd) ss;
        Some (uclock, ss, S)
      }
      else if t = SOCKET_CLOSE \<or> t = SOCKET_ERROR then do {
        (_, S) \<leftarrow> ProcessCloseClient (sint (msg_id stMessage)) S;
        Some (uclock, ss, S)
      }
      else if t = SOCKET_DATA then do {
        S \<leftarrow> ProcessMessageData clock (sint (msg_id stMessage)) stMessage S;
        Some (uclock, ss, S)
      }
      else Some (uclock, ss, S))
   }"

section \<open>Commands\<close>

text \<open>\<open>ST_NETWORK_CMD_REQUEST\<close> is an object of 32 bytes whose first one is the command.\<close>

definition ST_NETWORK_CMD_REQUEST_MAX_SIZE :: nat where
  "ST_NETWORK_CMD_REQUEST_MAX_SIZE = 32"

definition NETWORK_CMD_REQUEST_SEND_ALL_PACKET :: byte where
  "NETWORK_CMD_REQUEST_SEND_ALL_PACKET = 83"

definition NETWORK_CMD_REQUEST_CLOSE_SERVER :: byte where
  "NETWORK_CMD_REQUEST_CLOSE_SERVER = 67"

definition net_cmd :: "byte \<Rightarrow> byte list" where
  "net_cmd chCmd = (replicate ST_NETWORK_CMD_REQUEST_MAX_SIZE 0)[0 := chCmd]"

definition GetCmd :: "byte list \<Rightarrow> byte" where
  "GetCmd c = c ! 0"

partial_function (option) SendNetworkCmd :: "int \<Rightarrow> byte list \<Rightarrow> world \<Rightarrow> world option" where
  "SendNetworkCmd m_iSendCtrlFd rstNetCmd W =
     (let (n, e, W) = sys_write m_iSendCtrlFd rstNetCmd W in
      if n < 0 then SendNetworkCmd m_iSendCtrlFd rstNetCmd W else Some W)"

text \<open>Every packet becomes a block of its own, which \<open>socket_server_send\<close> takes over.\<close>

fun send_frames ::
    "byte list \<Rightarrow> (heap \<Rightarrow> nat) \<Rightarrow> (int \<times> byte list) list \<Rightarrow> socket_server \<Rightarrow> socket_server option" where
  "send_frames u malloc [] ss = Some ss"
| "send_frames u malloc ((iClientFd, buffer) # outs) ss = do {
     let a = malloc (ss_heap ss);
     (_, ss) \<leftarrow> socket_server_send u (word_of_int iClientFd) a (int (length buffer))
                 (ss\<lparr>ss_heap := (ss_heap ss)(a := Some buffer)\<rparr>);
     send_frames u malloc outs ss
   }"

definition RecvNetworkCmd ::
    "byte list \<Rightarrow> (heap \<Rightarrow> nat) \<Rightarrow> (nat \<Rightarrow> u64) \<Rightarrow> socket_message \<Rightarrow> byte list \<Rightarrow> socket_server \<Rightarrow> socket_ctx
     \<Rightarrow> (socket_server \<times> socket_ctx) option" where
  "RecvNetworkCmd u malloc clock junk rstNetCmd ss S =
     (if GetCmd rstNetCmd = NETWORK_CMD_REQUEST_SEND_ALL_PACKET then do {
        (n, outs, N, P) \<leftarrow> server_ExecuteCmdSendAllPacket (m_stClientPool S) clock (svr_net S) (svr_memory S);
        ss \<leftarrow> send_frames u malloc outs ss;
        Some (ss, S\<lparr>svr_net := N, svr_memory := P\<rparr>)
      }
      else if GetCmd rstNetCmd = NETWORK_CMD_REQUEST_CLOSE_SERVER then do {
        ss \<leftarrow> socket_server_exit u ss;
        ss \<leftarrow> socket_server_release junk ss;
        Some (ss, S)
      }
      else Some (ss, S))"

text \<open>
  One turn of the command thread. A read that fails with anything but an interrupt ends the thread;
  the boolean says whether it goes on.
\<close>

definition cmd_turn ::
    "byte list \<Rightarrow> (heap \<Rightarrow> nat) \<Rightarrow> (nat \<Rightarrow> u64) \<Rightarrow> socket_message \<Rightarrow> int \<Rightarrow> byte list \<Rightarrow> world \<Rightarrow> socket_server \<Rightarrow> socket_ctx
     \<Rightarrow> (bool \<times> byte list \<times> world \<times> socket_server \<times> socket_ctx) option" where
  "cmd_turn u malloc clock junk m_iRecvCtrlFd chBuffer W ss S =
     (let (n, bs, e, W) = sys_read m_iRecvCtrlFd ST_NETWORK_CMD_REQUEST_MAX_SIZE W in
      if n < 0 then Some (e = EINTR, chBuffer, W, ss, S)
      else do {
        chBuffer \<leftarrow> mem_write chBuffer 0 bs;
        (ss, S) \<leftarrow> RecvNetworkCmd u malloc clock junk chBuffer ss S;
        Some (True, chBuffer, W, ss, S)
      })"

text \<open>\<open>SocketServer::Init\<close>: the command pipe, the socket server and its listening socket.\<close>

definition SocketServer_Init ::
    "byte list \<Rightarrow> byte list option \<Rightarrow> int \<Rightarrow> (nat \<Rightarrow> socket) \<Rightarrow> event list \<Rightarrow> heap \<Rightarrow> world
     \<Rightarrow> ((int \<times> int \<times> socket_server) option \<times> world) option" where
  "SocketServer_Init u host port junk junk_ev h W =
     (let fds = a_fds (next_answer W); (r, e, W) = sys_int Sys_Pipe W in
      if r \<noteq> 0 then Some (None, W)
      else do {
        (ss, W) \<leftarrow> socket_server_create junk junk_ev h W;
        ss \<leftarrow> ss;
        (l, ss) \<leftarrow> socket_server_listen u NETWORK_SOCKET_SERVER_OPAQUE host port NETWORK_SERVER_LISTEN_QUEUE_LEN ss;
        ss \<leftarrow> socket_server_start u NETWORK_SOCKET_SERVER_OPAQUE (word_of_int l) ss;
        Some (Some (fst fds, snd fds, ss), ss_world ss)
      })"

section \<open>Clients of the socket server\<close>

interpretation sc: client_context m_stContextBuffer set_context_buffer m_ulClientUniqSeq
  by unfold_locales (simp_all add: set_context_buffer_def)

abbreviation socket_inv :: "socket_ctx \<Rightarrow> bool" where
  "socket_inv \<equiv> server_inv m_stContextBuffer m_ulClientUniqSeq"

lemma set_context_buffer_simps [simp]:
  "m_stContextBuffer (set_context_buffer b c) = b" "m_ulClientUniqSeq (set_context_buffer b c) = m_ulClientUniqSeq c"
  "set_context_buffer b (set_context_buffer b' c) = set_context_buffer b c"
  by (simp_all add: set_context_buffer_def)

lemma append_buffer:
  assumes "ctx_ok b" "length (ctx_data b) + length d \<le> length (m_chBuffer b)"
  obtains b' where "mem_write (m_chBuffer b) (nat (ctx_iBufferSize b)) d = Some (m_chBuffer b')"
    "ctx_ok b'" "ctx_data b' = ctx_data b @ d"
    "b' = b\<lparr>m_chBuffer := m_chBuffer b', ctx_iBufferSize := ctx_iBufferSize b + int (length d)\<rparr>"
proof -
  let ?n = "nat (ctx_iBufferSize b)"
  have n: "length (ctx_data b) = ?n" "?n \<le> length (m_chBuffer b)" "0 \<le> ctx_iBufferSize b"
    using assms(1) by (simp_all add: ctx_data_def ctx_ok_def)
  let ?buf = "take ?n (m_chBuffer b) @ d @ drop (?n + length d) (m_chBuffer b)"
  let ?b = "b\<lparr>m_chBuffer := ?buf, ctx_iBufferSize := ctx_iBufferSize b + int (length d)\<rparr>"
  have "ctx_data ?b = ctx_data b @ d" using n by (simp add: ctx_data_def nat_add_distrib)
  moreover have "ctx_ok ?b" using assms n by (simp add: ctx_ok_def nat_add_distrib)
  ultimately show ?thesis using that [of ?b] assms(2) n by (simp add: mem_write_Some)
qed

lemma PacketBufferRead_append:
  assumes "ctx_ok (m_stContextBuffer c)" "length (ctx_data (m_stContextBuffer c)) + length d \<le> 102400"
  obtains b where "PacketBufferRead d (int (length d)) c = Some (int (length d), set_context_buffer b c)" "ctx_ok b"
    "ctx_data b = ctx_data (m_stContextBuffer c) @ d" "ctx_ulClientSeq b = ctx_ulClientSeq (m_stContextBuffer c)"
    "m_iClientFd b = m_iClientFd (m_stContextBuffer c)" "m_chClientIP b = m_chClientIP (m_stContextBuffer c)"
proof -
  let ?b = "m_stContextBuffer c"
  have l: "length (m_chBuffer ?b) = 102400" using assms(1) by (simp add: ctx_ok_def NETWORK_PACKET_BUFFER_READ_SIZE_def)
  obtain b' where b': "mem_write (m_chBuffer ?b) (nat (ctx_iBufferSize ?b)) d = Some (m_chBuffer b')"
      "ctx_ok b'" "ctx_data b' = ctx_data ?b @ d"
      "b' = ?b\<lparr>m_chBuffer := m_chBuffer b', ctx_iBufferSize := ctx_iBufferSize ?b + int (length d)\<rparr>"
    using append_buffer [OF assms(1), of d] assms(2) l by auto
  have "\<not> 102400 - ctx_iBufferSize ?b < int (length d)"
    using assms(2) ctx_data_length [OF assms(1)] by simp
  then have "PacketBufferRead d (int (length d)) c = Some (int (length d), set_context_buffer b' c)"
    using b'(1,4) l by (simp add: PacketBufferRead_def mem_read_def set_context_buffer_def Let_def)
  moreover have "ctx_ulClientSeq b' = ctx_ulClientSeq ?b" "m_iClientFd b' = m_iClientFd ?b" "m_chClientIP b' = m_chClientIP ?b"
    by (subst b'(4); simp)+
  ultimately show ?thesis using that b'(2,3) by blast
qed

lemma ProcessCloseClient_registered:
  assumes "socket_inv S" "client_of S f = Some c"
  obtains S' where "ProcessCloseClient f S = Some (True, S')" "socket_inv S'"
    "m_stClientFdPool (m_stClientPool S') = (m_stClientFdPool (m_stClientPool S))(f := None)"
    "svr_net S' = svr_net S" "svr_memory S' = svr_memory S"
    "\<forall>g. client_of S' g = (if g = f then None else client_of S g)"
proof -
  have reg: "registered socket_client_fd m_ulClientUniqSeq (m_stClientPool S) (svr_clients S)"
    using assms(1) by (simp add: server_inv_def)
  obtain p where p: "m_stClientFdPool (m_stClientPool S) f = Some p" "svr_clients S p = Some c"
    using assms(2) by (auto simp: client_of_def GetClientByFd_def bind_eq_Some_conv)
  have fd: "m_iClientFd (m_stContextBuffer c) = f"
    using registered_fdD [OF reg p(1)] p(2) by auto
  obtain S' where S': "server_RemoveClient socket_client_fd (m_ulClientUniqSeq c) S \<bind> delete_client p = Some S'"
      "socket_inv S'" "svr_clients S' = (svr_clients S)(p := None)"
      "m_stClientFdPool (m_stClientPool S') = (m_stClientFdPool (m_stClientPool S))(f := None)"
      "svr_net S' = svr_net S" "svr_memory S' = svr_memory S"
    using sc.close_registered [OF assms(1) p(2)] fd by auto
  have "ProcessCloseClient f S = Some (True, S')"
    using S'(1) p by (auto simp: ProcessCloseClient_def GetClientByFd_def bind_eq_Some_conv)
  moreover have "client_of S' g = (if g = f then None else client_of S g)" for g
  proof -
    have "m_stClientFdPool (m_stClientPool S) g \<noteq> Some p" if "g \<noteq> f"
      using registered_fdD [OF reg, of g p] p(2) fd that by auto
    then show ?thesis
      by (cases "m_stClientFdPool (m_stClientPool S) g") (auto simp: client_of_def GetClientByFd_def S'(3,4))
  qed
  ultimately show ?thesis using that S' by blast
qed

lemma ProcessMessageData_unknown: "client_of S f = None \<Longrightarrow> socket_inv S \<Longrightarrow> ProcessMessageData clock f m S = Some S"
proof -
  assume "client_of S f = None" "socket_inv S"
  then have "m_stClientFdPool (m_stClientPool S) f = None"
    using registered_fdD [of socket_client_fd m_ulClientUniqSeq "m_stClientPool S" "svr_clients S" f]
    by (cases "m_stClientFdPool (m_stClientPool S) f") (auto simp: client_of_def GetClientByFd_def server_inv_def)
  then show ?thesis by (simp add: ProcessMessageData_def GetClientByFd_def)
qed

section \<open>Received data\<close>

abbreviation client_bytes :: "SocketClientCtx \<Rightarrow> byte list" where
  "client_bytes c \<equiv> ctx_data (m_stContextBuffer c)"

definition same_client :: "SocketClientCtx \<Rightarrow> SocketClientCtx \<Rightarrow> bool" where
  "same_client c c' \<longleftrightarrow> m_ulClientUniqSeq c' = m_ulClientUniqSeq c \<and>
     ctx_ulClientSeq (m_stContextBuffer c') = ctx_ulClientSeq (m_stContextBuffer c) \<and>
     m_iClientFd (m_stContextBuffer c') = m_iClientFd (m_stContextBuffer c) \<and>
     m_chClientIP (m_stContextBuffer c') = m_chClientIP (m_stContextBuffer c)"

definition data_message :: "byte list \<Rightarrow> socket_message \<Rightarrow> bool" where
  "data_message d m \<longleftrightarrow> d \<noteq> [] \<and> msg_data m = Some d \<and> msg_ud m = int (length d)"

text \<open>What a server makes of a stretch of a client's stream that parses to the given frames.\<close>

definition took_in ::
    "int \<Rightarrow> SocketClientCtx \<Rightarrow> (int \<times> byte list) list \<Rightarrow> byte list \<Rightarrow> int \<Rightarrow> socket_ctx \<Rightarrow> socket_ctx \<Rightarrow> bool" where
  "took_in f c fs rest e S S' \<longleftrightarrow> socket_inv S' \<and>
     received S' = received S @ map (recv_tag (m_stContextBuffer c)) fs \<and>
     (\<forall>g. g \<noteq> f \<longrightarrow> client_of S' g = client_of S g) \<and>
     (if e = 0 then \<exists>c'. client_of S' f = Some c' \<and> same_client c c' \<and> client_bytes c' = rest
      else client_of S' f = None)"

lemma message_taken_in:
  assumes inv: "socket_inv S" and c: "client_of S f = Some c" and m: "data_message d m"
    and fits: "length (client_bytes c) + length d \<le> 102400" and fs: "frames_of (client_bytes c @ d) = (fs, rest, e)"
  obtains S' where "ProcessMessageData clock f m S = Some S'" "took_in f c fs rest e S S'"
proof -
  have reg: "registered socket_client_fd m_ulClientUniqSeq (m_stClientPool S) (svr_clients S)"
    using inv by (simp add: server_inv_def)
  obtain p where p: "m_stClientFdPool (m_stClientPool S) f = Some p" "svr_clients S p = Some c"
    using c by (auto simp: client_of_def GetClientByFd_def bind_eq_Some_conv)
  have ok: "ctx_ok (m_stContextBuffer c)" using inv p(2) by (auto simp: server_inv_def)
  have others: "m_stClientFdPool (m_stClientPool S) g \<noteq> Some p" if "g \<noteq> f" for g
    using registered_fdD [OF reg, of g p] registered_fdD [OF reg p(1)] p(2) that by auto
  obtain b where b: "PacketBufferRead d (int (length d)) c = Some (int (length d), set_context_buffer b c)" "ctx_ok b"
      "ctx_data b = client_bytes c @ d" "ctx_ulClientSeq b = ctx_ulClientSeq (m_stContextBuffer c)"
      "m_iClientFd b = m_iClientFd (m_stContextBuffer c)" "m_chClientIP b = m_chClientIP (m_stContextBuffer c)"
    by (rule PacketBufferRead_append [OF ok fits])
  define S1 where "S1 = put_client p (set_context_buffer b c) S"
  have inv1: "socket_inv S1"
    unfolding S1_def using b(2,5) by (intro sc.update_registered [OF inv p(2)]) simp_all
  have p1: "svr_clients S1 p = Some (set_context_buffer b c)" by (simp add: S1_def)
  have fs1: "frames_of (ctx_data (m_stContextBuffer (set_context_buffer b c))) = (fs, rest, e)" using fs b(3) by simp
  obtain S2 b2 where r: "server_ExecuteCmdRecvAllPacket m_stContextBuffer set_context_buffer (clock 0) p S1 = Some (e, S2)"
      "socket_inv S2" "svr_clients S2 = (svr_clients S1)(p := Some (set_context_buffer b2 (set_context_buffer b c)))"
      "ctx_data b2 = (if e = 0 then rest else ctx_data b)"
      "ctx_ulClientSeq b2 = ctx_ulClientSeq b" "m_iClientFd b2 = m_iClientFd b" "m_chClientIP b2 = m_chClientIP b"
      "received S2 = received S1 @ map (recv_tag b) fs" "m_stClientPool S2 = m_stClientPool S1"
    by (rule sc.recv_frames [OF inv1 p1 fs1, where clock = "clock 0", unfolded set_context_buffer_simps(1)])
  have tag: "recv_tag b = recv_tag (m_stContextBuffer c)" using b(4,5) by (simp add: recv_tag_def fun_eq_iff)
  have rec: "received S2 = received S @ map (recv_tag (m_stContextBuffer c)) fs"
    using r(8) tag by (simp add: S1_def received_def)
  have cl: "client_of S2 f = Some (set_context_buffer b2 c)"
    using p(1) r(3,9) by (simp add: client_of_def GetClientByFd_def S1_def)
  have oth: "client_of S2 g = client_of S g" if "g \<noteq> f" for g
    using others [OF that] r(3,9)
    by (cases "m_stClientFdPool (m_stClientPool S) g") (auto simp: client_of_def GetClientByFd_def S1_def)
  have run: "ProcessMessageData clock f m S =
      (if e \<noteq> 0 then ProcessCloseClient f S2 \<bind> (\<lambda>(_, S). Some S) else Some S2)"
    using m p b(1) r(1)
    by (subst ProcessMessageData_def, subst message_loop.simps)
       (auto simp: data_message_def GetClientByFd_def S1_def Let_def bind_eq_Some_conv split: option.splits)
  show ?thesis
  proof (cases "e = 0")
    case True
    then show ?thesis
      using that [of S2] run rec cl oth r(2,4,5,6,7) b(4,5,6)
      by (auto simp: took_in_def same_client_def)
  next
    case False
    obtain S3 where S3: "ProcessCloseClient f S2 = Some (True, S3)" "socket_inv S3" "svr_net S3 = svr_net S2"
        "svr_memory S3 = svr_memory S2" "\<forall>g. client_of S3 g = (if g = f then None else client_of S2 g)"
      using ProcessCloseClient_registered [OF r(2) cl] by blast
    then show ?thesis
      using that [of S3] run rec oth False by (simp add: took_in_def received_def)
  qed
qed

fun process_messages :: "(nat \<Rightarrow> nat \<Rightarrow> nat \<Rightarrow> u64) \<Rightarrow> nat \<Rightarrow> int \<Rightarrow> socket_message list \<Rightarrow> socket_ctx \<Rightarrow> socket_ctx option" where
  "process_messages clock i f [] S = Some S"
| "process_messages clock i f (m # ms) S = do {
     S \<leftarrow> ProcessMessageData (clock i) f m S;
     process_messages clock (Suc i) f ms S
   }"

lemma process_messages_unknown:
  "client_of S f = None \<Longrightarrow> socket_inv S \<Longrightarrow> process_messages clock i f ms S = Some S"
  by (induction ms arbitrary: i) (simp_all add: ProcessMessageData_unknown)

lemma took_in_trans:
  assumes "took_in f c fs r 0 S S1" "client_of S1 f = Some c1" "took_in f c1 gs rest e S1 S2"
  shows "took_in f c (fs @ gs) rest e S S2"
proof -
  have c1: "same_client c c1" using assms(1,2) by (auto simp: took_in_def)
  then have "recv_tag (m_stContextBuffer c1) = recv_tag (m_stContextBuffer c)"
    by (simp add: same_client_def recv_tag_def fun_eq_iff)
  moreover have "same_client c c'" if "same_client c1 c'" for c' using that c1 by (simp add: same_client_def)
  ultimately show ?thesis using assms(1,3) by (fastforce simp: took_in_def)
qed

lemma messages_taken_in:
  assumes "socket_inv S" "client_of S f = Some c" "frame_head (client_bytes c) = Frame_Wait"
    "list_all2 data_message ds ms" "\<forall>d\<in>set ds. length d \<le> 65536"
    "frames_of (client_bytes c @ concat ds) = (fs, rest, e)" "\<not> stalled rest"
  shows "\<exists>S'. process_messages clock i f ms S = Some S' \<and> took_in f c fs rest e S S'"
  using assms
proof (induction ds arbitrary: ms S c fs i)
  case Nil
  then show ?case by (auto simp: took_in_def same_client_def frames_of_wait)
next
  case (Cons d ds)
  obtain m ms' where m: "ms = m # ms'" "data_message d m" "list_all2 data_message ds ms'"
    using Cons.prems(4) by (auto simp: list_all2_Cons1)
  have all: "frames_of (client_bytes c @ d @ concat ds) = (fs, rest, e)" using Cons.prems(6) by simp
  have wait: "\<not> stalled (client_bytes c)"
  proof
    assume "stalled (client_bytes c)"
    from stalled_append [OF this] have "stalled (client_bytes c @ d @ concat ds)" .
    from stalled_wait [OF this] this show False using all Cons.prems(7) by simp
  qed
  then have fits: "length (client_bytes c) + length d \<le> 102400"
    using rest_bound [OF Cons.prems(3)] Cons.prems(5) by force
  obtain fs1 r1 e1 where 1: "frames_of (client_bytes c @ d) = (fs1, r1, e1)" "e1 = 0 \<longrightarrow> \<not> stalled r1"
      "e1 = 0 \<longrightarrow> (\<exists>fs2. fs = fs1 @ fs2 \<and> frames_of (r1 @ concat ds) = (fs2, rest, e))"
      "e1 \<noteq> 0 \<longrightarrow> fs = fs1 \<and> e = e1"
    using frames_of_continue [OF all Cons.prems(7)] .
  obtain S1 where S1: "ProcessMessageData (clock i) f m S = Some S1" "took_in f c fs1 r1 e1 S S1"
    by (rule message_taken_in [OF Cons.prems(1,2) m(2) fits 1(1)])
  show ?case
  proof (cases "e1 = 0")
    case False
    then have "socket_inv S1" "client_of S1 f = None" using S1(2) by (simp_all add: took_in_def)
    moreover have "took_in f c fs rest e S S1" using S1(2) 1(4) False by (simp add: took_in_def)
    ultimately show ?thesis using S1(1) m(1) by (simp add: process_messages_unknown)
  next
    case True
    obtain c1 where c1: "client_of S1 f = Some c1" "client_bytes c1 = r1"
      using S1(2) True by (auto simp: took_in_def)
    obtain fs2 where fs2: "fs = fs1 @ fs2" "frames_of (r1 @ concat ds) = (fs2, rest, e)" using 1(3) True by blast
    have "frame_head (client_bytes c1) = Frame_Wait" using 1(1) True c1(2) frames_of_rest by blast
    moreover have "socket_inv S1" using S1(2) by (simp add: took_in_def)
    ultimately obtain S2 where "process_messages clock (Suc i) f ms' S1 = Some S2" "took_in f c1 fs2 rest e S1 S2"
      using Cons.IH [of S1 c1 ms' fs2 "Suc i"] m(3) Cons.prems(5,7) c1 fs2(2) by auto
    then show ?thesis
      using took_in_trans [OF _ c1(1), of c fs1 r1] S1 True fs2(1) m(1) by auto
  qed
qed

section \<open>Messages that do not fit\<close>

definition no_room :: "nat \<Rightarrow> byte list \<Rightarrow> int \<Rightarrow> socket_ctx \<Rightarrow> bool" where
  "no_room p d n S \<longleftrightarrow> socket_inv S \<and> n = int (length d) \<and>
     (\<exists>c. svr_clients S p = Some c \<and> frame_head (client_bytes c) = Frame_Wait \<and> 102400 < length (client_bytes c) + length d)"

lemma PacketBufferRead_full:
  assumes "ctx_ok (m_stContextBuffer c)" "102400 < length (client_bytes c) + length d"
  shows "PacketBufferRead d (int (length d)) c = Some (- 1, c)"
proof -
  have "int (length (m_chBuffer (m_stContextBuffer c))) - ctx_iBufferSize (m_stContextBuffer c) < int (length d)"
    using assms ctx_data_length [OF assms(1)] by (simp add: ctx_ok_def NETWORK_PACKET_BUFFER_READ_SIZE_def)
  then show ?thesis by (simp add: PacketBufferRead_def Let_def)
qed

lemma no_room_turn:
  assumes "no_room p d n S"
  obtains c S' where "svr_clients S p = Some c" "PacketBufferRead d n c = Some (- 1, c)" "0 < n"
    "server_ExecuteCmdRecvAllPacket m_stContextBuffer set_context_buffer clock p (put_client p c S) = Some (0, S')"
    "no_room p d n S'"
proof -
  obtain c where inv: "socket_inv S" and n: "n = int (length d)" and c: "svr_clients S p = Some c"
      "frame_head (client_bytes c) = Frame_Wait" "102400 < length (client_bytes c) + length d"
    using assms by (auto simp: no_room_def)
  have ok: "ctx_ok (m_stContextBuffer c)" using inv c(1) by (auto simp: server_inv_def)
  then have "length (client_bytes c) \<le> 102400"
    by (simp add: ctx_data_def ctx_ok_def NETWORK_PACKET_BUFFER_READ_SIZE_def)
  then have "0 < n" using n c(3) by linarith
  have put: "put_client p c S = S" using c(1) by (simp add: put_client_def fun_upd_idem)
  obtain S' b where S': "server_ExecuteCmdRecvAllPacket m_stContextBuffer set_context_buffer clock p S = Some (0, S')"
      "socket_inv S'" "svr_clients S' = (svr_clients S)(p := Some (set_context_buffer b c))" "ctx_data b = client_bytes c"
    by (rule sc.recv_frames [OF inv c(1) frames_of_wait [OF c(2)], where clock = clock]) simp
  have "no_room p d n S'" using S' n c by (auto simp: no_room_def)
  then show ?thesis using that [OF c(1)] PacketBufferRead_full [OF ok c(3)] S'(1) n put \<open>0 < n\<close> by simp
qed

lemma message_loop_hangs:
  assumes "message_loop clock i f p d n S = Some S'"
  shows "\<not> no_room p d n S"
  using assms
proof (rule message_loop.raw_induct [rotated, where P = "\<lambda>clock i f p d n S S'. \<not> no_room p d n S"], goal_cases)
  case (1 loop clock i f p d n S S')
  show ?case
  proof
    assume "no_room p d n S"
    from no_room_turn [OF this, of "clock i"] obtain c S1 where "svr_clients S p = Some c" "PacketBufferRead d n c = Some (- 1, c)" "0 < n"
        "server_ExecuteCmdRecvAllPacket m_stContextBuffer set_context_buffer (clock i) p (put_client p c S) = Some (0, S1)"
        "no_room p d n S1" by blast
    moreover from this have "loop clock (Suc i) f p d n S1 = Some S'" using 1(2) by (simp add: Let_def)
    ultimately show False using 1(1) by blast
  qed
qed

lemma message_fits:
  assumes "socket_inv S" "client_of S f = Some c" "frame_head (client_bytes c) = Frame_Wait" "data_message d m"
    "ProcessMessageData clock f m S = Some S'"
  shows "length (client_bytes c) + length d \<le> 102400"
proof (rule ccontr)
  assume "\<not> length (client_bytes c) + length d \<le> 102400"
  moreover obtain p where p: "m_stClientFdPool (m_stClientPool S) f = Some p" "svr_clients S p = Some c"
    using assms(2) by (auto simp: client_of_def GetClientByFd_def bind_eq_Some_conv)
  ultimately have "no_room p d (msg_ud m) S" using assms by (simp add: no_room_def data_message_def)
  moreover have "message_loop clock 0 f p d (msg_ud m) S = Some S'"
    using p assms(4,5) by (simp add: ProcessMessageData_def GetClientByFd_def data_message_def)
  ultimately show False using message_loop_hangs by blast
qed

text \<open>
  C35. A data message is handled in finite time exactly when it fits. Between messages a client's buffer holds an
  incomplete frame; if the new bytes fit behind it in the 102400 bytes of the buffer the handler
  returns, and if they do not it never returns: the copy is refused, the incomplete frame stays where it is and
  the loop repeats the same turn for ever. No guard of the program keeps a message short enough.
\<close>

theorem data_handler_returns_iff_fits:
  assumes "socket_inv S" "client_of S f = Some c" "frame_head (client_bytes c) = Frame_Wait" "data_message d m"
  shows "(\<exists>S'. ProcessMessageData clock f m S = Some S') \<longleftrightarrow> length (client_bytes c) + length d \<le> 102400"
proof
  assume "length (client_bytes c) + length d \<le> 102400"
  moreover obtain fs rest e where "frames_of (client_bytes c @ d) = (fs, rest, e)" by (metis prod.exhaust)
  ultimately show "\<exists>S'. ProcessMessageData clock f m S = Some S'"
    using message_taken_in [OF assms(1,2,4)] by metis
qed (use message_fits [OF assms] in blast)

text \<open>A server with one client: socket 5, unique id 7.\<close>

definition one_client :: socket_ctx where
  "one_client = put_client 0 (SocketClientCtx_new 7 5)
     ((ServerContext_new \<lparr>m_dwHostID = 0, m_dwGameSvrID = 0, m_ulSequenceID = 0, m_ulLastTimestamp = 0\<rparr>)\<lparr>svr_next := 1,
        m_stClientPool := AddClient 7 0 5 ClientContextPool_new\<rparr>)"

lemma client_new_ok: "ctx_ok (m_stContextBuffer (SocketClientCtx_new u f))" "client_bytes (SocketClientCtx_new u f) = []"
  "m_ulClientUniqSeq (SocketClientCtx_new u f) = u" "m_iClientFd (m_stContextBuffer (SocketClientCtx_new u f)) = f"
  "ctx_ulClientSeq (m_stContextBuffer (SocketClientCtx_new u f)) = 0"
  by (simp_all add: SocketClientCtx_new_def context_construct_def ctx_ok_def ctx_data_def)

lemma one_client_inv: "socket_inv one_client"
proof -
  let ?S = "ServerContext_new \<lparr>m_dwHostID = 0, m_dwGameSvrID = 0, m_ulSequenceID = 0, m_ulLastTimestamp = 0\<rparr> :: socket_ctx"
  have eq: "one_client = put_client (svr_next ?S) (SocketClientCtx_new 7 5) (?S\<lparr>svr_next := Suc (svr_next ?S),
      m_stClientPool := AddClient (m_ulClientUniqSeq (SocketClientCtx_new 7 5)) (svr_next ?S)
        (m_iClientFd (m_stContextBuffer (SocketClientCtx_new 7 5))) (m_stClientPool ?S)\<rparr>)"
    unfolding one_client_def client_new_ok by (simp add: ServerContext_new_def)
  show ?thesis
    unfolding eq by (rule sc.add_registered [OF server_inv_new client_new_ok(1)])
      (simp_all add: ServerContext_new_def ClientContextPool_new_def)
qed

lemma one_client_of: "client_of one_client 5 = Some (SocketClientCtx_new 7 5)"
  by (simp add: one_client_def client_of_def GetClientByFd_def AddClient_def map_insert_def ClientContextPool_new_def)

lemma one_client_received: "received one_client = []"
  by (simp add: one_client_def received_def ServerContext_new_def NetworkContext_new_def)

definition message_of :: "byte list \<Rightarrow> socket_message" where
  "message_of d = \<lparr>msg_id = 5, msg_opaque = 0, msg_ud = int (length d), msg_data = Some d\<rparr>"

lemma data_message_of [simp]: "data_message d (message_of d) \<longleftrightarrow> d \<noteq> []"
  by (simp add: data_message_def message_of_def)

theorem data_handler_returns_iff_fits_witness:
  "(\<exists>S'. ProcessMessageData (\<lambda>_ _. 0) 5 (message_of [0, 6, 0, 1]) one_client = Some S') \<and>
   ProcessMessageData (\<lambda>_ _. 0) 5 (message_of (replicate 102401 0)) one_client = None"
proof -
  have w: "frame_head (client_bytes (SocketClientCtx_new 7 5)) = Frame_Wait"
    unfolding client_new_ok by (simp add: frame_head_def)
  have "\<exists>S'. ProcessMessageData (\<lambda>_ _. 0) 5 (message_of [0, 6, 0, 1]) one_client = Some S'"
    using data_handler_returns_iff_fits [OF one_client_inv one_client_of w, of "[0, 6, 0, 1]" "message_of [0, 6, 0, 1]" "\<lambda>_ _. 0"]
    by (simp add: client_new_ok)
  moreover have "ProcessMessageData (\<lambda>_ _. 0) 5 (message_of d) one_client = None" if "length d = 102401" for d
  proof -
    have "d \<noteq> []" using that by auto
    then show ?thesis
      using data_handler_returns_iff_fits [OF one_client_inv one_client_of w, of d "message_of d" "\<lambda>_ _. 0"] that
      by (simp add: client_new_ok)
  qed
  from this [OF length_replicate]
  have "ProcessMessageData (\<lambda>_ _. 0) 5 (message_of (replicate 102401 0)) one_client = None" .
  ultimately show ?thesis by (rule conjI)
qed



section \<open>The life of the clients\<close>

definition client_idle :: "SocketClientCtx \<Rightarrow> bool" where
  "client_idle c \<longleftrightarrow> frame_head (client_bytes c) = Frame_Wait \<and> ctx_ulClientSeq (m_stContextBuffer c) = 0 \<and>
     length (m_chClientIP (m_stContextBuffer c)) = 64"

definition serving :: "socket_ctx \<Rightarrow> bool" where
  "serving S \<longleftrightarrow> socket_inv S \<and> (\<forall>f c. client_of S f = Some c \<longrightarrow> client_idle c) \<and> (\<forall>v\<in>set (received S). fst v = 0)"

lemma serving_new: "serving (ServerContext_new u)"
  by (simp add: serving_def server_inv_new)
     (simp add: client_of_def GetClientByFd_def ServerContext_new_def ClientContextPool_new_def received_def NetworkContext_new_def)

text \<open>The address text is cut to the size of its field; a text that fills the field has no terminator.\<close>

definition ip_field :: "byte list \<Rightarrow> byte list" where
  "ip_field tx = take 64 (c_str tx @ replicate 64 0)"

lemma SetClientIP_ok:
  assumes "length (m_chClientIP (m_stContextBuffer c)) = 64"
  shows "SetClientIP tx (length (c_str tx)) c =
    Some (set_context_buffer ((m_stContextBuffer c)\<lparr>m_chClientIP := ip_field tx\<rparr>) c)"
proof -
  let ?n = "min 64 (length (c_str tx))"
  have l: "length (c_str tx) \<le> length tx" by (simp add: c_str_def length_takeWhile_le)
  have t: "take ?n tx = take ?n (c_str tx)"
    by (metis c_str_def min.cobounded2 take_all_iff take_take takeWhile_eq_take length_takeWhile_le min.orderE)
  have "mem_write (replicate 64 (0 :: byte)) 0 (take ?n (c_str tx)) = Some (ip_field tx)"
    by (simp add: mem_write_def ip_field_def min_def take_replicate)
  moreover have "mem_read tx 0 ?n = Some (take ?n (c_str tx))" using l t by (simp add: mem_read_def)
  ultimately show ?thesis
    using assms by (cases "64 < length (c_str tx)") (simp_all add: SetClientIP_def NETWORK_SERVER_IP_ADDRESS_LEN_def set_context_buffer_def min_absorb1 min_absorb2 Let_def)
qed

lemma ip_field_length [simp]: "length (ip_field tx) = 64"
  by (simp add: ip_field_def)

lemma ProcessNewClient_adds:
  assumes "socket_inv S" "client_of S f = None" "msg_data m = Some tx"
    "GenerateSeqID (svr_uuid S) uclock = Some (x, u, uclock')" "GetClient x (m_stClientPool S) = None"
  obtains S' c where "ProcessNewClient uclock f m S = Some (uclock', S')" "socket_inv S'" "client_of S' f = Some c"
    "m_ulClientUniqSeq c = x" "client_bytes c = []" "client_idle c" "m_chClientIP (m_stContextBuffer c) = ip_field tx"
    "\<forall>g. g \<noteq> f \<longrightarrow> client_of S' g = client_of S g" "received S' = received S"
proof -
  let ?c = "SocketClientCtx_new x f"
  let ?b = "(m_stContextBuffer ?c)\<lparr>m_chClientIP := ip_field tx\<rparr>"
  let ?d = "set_context_buffer ?b ?c"
  let ?p = "svr_next S"
  let ?S = "put_client ?p ?d (S\<lparr>svr_next := Suc ?p, m_stClientPool := AddClient x ?p f (m_stClientPool S), svr_uuid := u\<rparr>)"
  have reg: "registered socket_client_fd m_ulClientUniqSeq (m_stClientPool S) (svr_clients S)"
    using assms(1) by (simp add: server_inv_def)
  have none: "m_stClientFdPool (m_stClientPool S) f = None" "m_stClientSeqPool (m_stClientPool S) x = None"
    using assms(2,5) registered_fdD [OF reg, of f]
    by (cases "m_stClientFdPool (m_stClientPool S) f"; auto simp: client_of_def GetClientByFd_def GetClient_def)+
  have ok: "ctx_ok (m_stContextBuffer ?d)" "m_iClientFd (m_stContextBuffer ?d) = f" "m_ulClientUniqSeq ?d = x"
    using client_new_ok(1,4) [of x f] by (simp_all add: ctx_ok_def client_new_ok)
  have "socket_inv (put_client ?p ?d (S\<lparr>svr_next := Suc ?p, m_stClientPool := AddClient x ?p f (m_stClientPool S)\<rparr>))"
    using sc.add_registered [OF assms(1) ok(1)] none by (simp only: ok)
  then have inv: "socket_inv ?S" by (simp add: server_inv_def)
  have ip: "length (m_chClientIP (m_stContextBuffer ?c)) = 64"
    by (simp add: SocketClientCtx_new_def context_construct_def NETWORK_SERVER_IP_ADDRESS_LEN_def)
  have "SetClientIP tx (length (c_str tx)) ?d = Some ?d"
    by (subst SetClientIP_ok) (simp_all add: set_context_buffer_def)
  then have run: "ProcessNewClient uclock f m S = Some (uclock', ?S)"
    using assms(3,4) none(1) SetClientIP_ok [OF ip, of tx] ok(2,3)
    by (simp add: ProcessNewClient_def new_client_def GetClientByFd_def Let_def put_client_def del: set_context_buffer_simps)
  have dangling: "svr_clients S ?p = None" using assms(1) by (metis less_irrefl not_None_eq server_inv_def)
  have oth: "\<forall>g. g \<noteq> f \<longrightarrow> client_of ?S g = client_of S g"
  proof (intro allI impI)
    fix g assume "g \<noteq> f"
    moreover have "m_stClientFdPool (m_stClientPool S) g \<noteq> Some ?p" using registered_fdD [OF reg, of g ?p] dangling by auto
    ultimately show "client_of ?S g = client_of S g" using none(1)
      by (cases "m_stClientFdPool (m_stClientPool S) g") (auto simp: client_of_def GetClientByFd_def AddClient_def map_insert_def)
  qed
  have cl: "client_of ?S f = Some ?d"
    using none(1) by (simp add: client_of_def GetClientByFd_def AddClient_def map_insert_def)
  have bytes: "client_bytes ?d = []" using client_new_ok(2) [of x f] by (simp add: ctx_data_def)
  then have "client_idle ?d"
    using client_new_ok(5) [of x f] by (simp add: client_idle_def frame_head_def)
  then show ?thesis
    using that [OF run inv cl ok(3) bytes] oth by (simp add: received_def)
qed

definition fresh_id :: "u64 list \<Rightarrow> socket_ctx \<Rightarrow> bool" where
  "fresh_id uclock S \<longleftrightarrow> (case GenerateSeqID (svr_uuid S) uclock of
     None \<Rightarrow> True | Some (x, _, _) \<Rightarrow> GetClient x (m_stClientPool S) = None)"

lemma client_lookup:
  assumes "socket_inv S" "client_of S f = Some c"
  obtains p where "m_stClientFdPool (m_stClientPool S) f = Some p" "svr_clients S p = Some c"
    "m_iClientFd (m_stContextBuffer c) = f" "ctx_ok (m_stContextBuffer c)"
    "\<forall>g. g \<noteq> f \<longrightarrow> m_stClientFdPool (m_stClientPool S) g \<noteq> Some p"
proof -
  have reg: "registered socket_client_fd m_ulClientUniqSeq (m_stClientPool S) (svr_clients S)"
    using assms(1) by (simp add: server_inv_def)
  obtain p where p: "m_stClientFdPool (m_stClientPool S) f = Some p" "svr_clients S p = Some c"
    using assms(2) by (auto simp: client_of_def GetClientByFd_def bind_eq_Some_conv)
  have "m_iClientFd (m_stContextBuffer c) = f" using registered_fdD [OF reg p(1)] p(2) by auto
  moreover from this have "\<forall>g. g \<noteq> f \<longrightarrow> m_stClientFdPool (m_stClientPool S) g \<noteq> Some p"
    using registered_fdD [OF reg, of _ p] p(2) by fastforce
  ultimately show ?thesis using that p assms(1) by (auto simp: server_inv_def)
qed

lemma client_lookup_none:
  "socket_inv S \<Longrightarrow> client_of S f = None \<longleftrightarrow> GetClientByFd f (m_stClientPool S) = None"
  using registered_fdD [of socket_client_fd m_ulClientUniqSeq "m_stClientPool S" "svr_clients S" f]
  by (cases "m_stClientFdPool (m_stClientPool S) f") (auto simp: server_inv_def client_of_def GetClientByFd_def)

lemma ProcessNewClient_again:
  assumes "socket_inv S" "client_of S f = Some c" "msg_data m = Some tx" "length (m_chClientIP (m_stContextBuffer c)) = 64"
  obtains S' where "ProcessNewClient uclock f m S = Some (uclock, S')" "socket_inv S'"
    "client_of S' f = Some (set_context_buffer ((m_stContextBuffer c)\<lparr>m_chClientIP := ip_field tx\<rparr>) c)"
    "\<forall>g. g \<noteq> f \<longrightarrow> client_of S' g = client_of S g" "received S' = received S"
proof -
  obtain p where p: "m_stClientFdPool (m_stClientPool S) f = Some p" "svr_clients S p = Some c"
      "m_iClientFd (m_stContextBuffer c) = f" "ctx_ok (m_stContextBuffer c)"
      "\<forall>g. g \<noteq> f \<longrightarrow> m_stClientFdPool (m_stClientPool S) g \<noteq> Some p"
    by (rule client_lookup [OF assms(1,2)])
  let ?d = "set_context_buffer ((m_stContextBuffer c)\<lparr>m_chClientIP := ip_field tx\<rparr>) c"
  let ?S = "put_client p ?d S"
  have "socket_inv ?S"
    using p(3,4) by (intro sc.update_registered [OF assms(1) p(2)]) (simp_all add: ctx_ok_def)
  moreover have "ProcessNewClient uclock f m S = Some (uclock, ?S)"
    using assms(3) p(1,2) SetClientIP_ok [OF assms(4), of tx]
    by (simp add: ProcessNewClient_def GetClientByFd_def Let_def)
  moreover have "client_of ?S f = Some ?d" using p(1) by (simp add: client_of_def GetClientByFd_def)
  moreover have "\<forall>g. g \<noteq> f \<longrightarrow> client_of ?S g = client_of S g"
  proof (intro allI impI)
    fix g assume "g \<noteq> f"
    then show "client_of ?S g = client_of S g" using p(5)
      by (cases "m_stClientFdPool (m_stClientPool S) g") (auto simp: client_of_def GetClientByFd_def)
  qed
  ultimately show ?thesis using that [of ?S] by (simp add: received_def)
qed

lemma serving_accept:
  assumes "serving S" "ProcessNewClient uclock f m S = Some (uclock', S')" "fresh_id uclock S"
  shows "serving S'"
proof -
  have S: "socket_inv S" "\<forall>f c. client_of S f = Some c \<longrightarrow> client_idle c" "\<forall>v\<in>set (received S). fst v = 0"
    using assms(1) by (simp_all add: serving_def)
  obtain tx where tx: "msg_data m = Some tx" using assms(2) by (auto simp: ProcessNewClient_def bind_eq_Some_conv)
  show ?thesis
  proof (cases "client_of S f")
    case None
    then have "GetClientByFd f (m_stClientPool S) = None" using client_lookup_none [OF S(1)] by simp
    then obtain x u uc where g: "GenerateSeqID (svr_uuid S) uclock = Some (x, u, uc)"
      using assms(2) tx by (auto simp: ProcessNewClient_def bind_eq_Some_conv Let_def)
    then have "GetClient x (m_stClientPool S) = None" using assms(3) by (simp add: fresh_id_def)
    from ProcessNewClient_adds [OF S(1) None tx g this] obtain c where "socket_inv S'" "client_of S' f = Some c" "client_idle c"
        "\<forall>g. g \<noteq> f \<longrightarrow> client_of S' g = client_of S g" "received S' = received S"
      using assms(2) by auto
    then show ?thesis using S(2,3) unfolding serving_def by (metis option.inject)
  next
    case (Some c)
    then have idle: "client_idle c" using S(2) by blast
    then have "length (m_chClientIP (m_stContextBuffer c)) = 64" by (simp add: client_idle_def)
    from ProcessNewClient_again [OF S(1) Some tx this, of uclock] obtain d where
        d: "d = set_context_buffer ((m_stContextBuffer c)\<lparr>m_chClientIP := ip_field tx\<rparr>) c" and
        "socket_inv S'" "client_of S' f = Some d"
        "\<forall>g. g \<noteq> f \<longrightarrow> client_of S' g = client_of S g" "received S' = received S"
      using assms(2) by auto
    moreover have "client_idle d" using idle by (simp add: d client_idle_def ctx_data_def)
    ultimately show ?thesis using S(2,3) unfolding serving_def by (metis option.inject)
  qed
qed

lemma serving_close:
  assumes "serving S"
  shows "\<exists>S'. ProcessCloseClient f S = Some (client_of S f \<noteq> None, S') \<and> serving S' \<and> client_of S' f = None"
proof (cases "client_of S f")
  case None
  then have "GetClientByFd f (m_stClientPool S) = None" using client_lookup_none assms by (simp add: serving_def)
  then show ?thesis using None assms by (simp add: ProcessCloseClient_def)
next
  case (Some c)
  have "socket_inv S" using assms by (simp add: serving_def)
  from ProcessCloseClient_registered [OF this Some] obtain S' where "ProcessCloseClient f S = Some (True, S')" "socket_inv S'"
      "svr_net S' = svr_net S" "svr_memory S' = svr_memory S" "\<forall>g. client_of S' g = (if g = f then None else client_of S g)"
    by metis
  then show ?thesis using assms Some by (auto simp: serving_def received_def)
qed

lemma serving_data:
  assumes "serving S" "data_message d m" "ProcessMessageData clock f m S = Some S'"
  shows "serving S'"
proof (cases "client_of S f")
  case None
  then show ?thesis using ProcessMessageData_unknown assms by (simp add: serving_def)
next
  case (Some c)
  have S: "socket_inv S" "client_idle c" "\<forall>v\<in>set (received S). fst v = 0" "\<forall>f c. client_of S f = Some c \<longrightarrow> client_idle c"
    using assms(1) Some by (auto simp: serving_def)
  obtain fs rest e where fs: "frames_of (client_bytes c @ d) = (fs, rest, e)" by (metis prod.exhaust)
  have "length (client_bytes c) + length d \<le> 102400"
    using message_fits [OF S(1) Some _ assms(2)] S(2) assms(3) by (auto simp: client_idle_def)
  from message_taken_in [OF S(1) Some assms(2) this fs] have t: "took_in f c fs rest e S S'"
    using assms(3) by (metis option.inject)
  then have "socket_inv S'" "\<forall>v\<in>set (received S'). fst v = 0"
    using S(2,3) by (auto simp: took_in_def recv_tag_def client_idle_def)
  moreover have "client_idle c'" if "client_of S' g = Some c'" for g c'
  proof (cases "g = f")
    case True
    then have e: "e = 0" "same_client c c'" "client_bytes c' = rest"
      using t that by (auto simp: took_in_def split: if_splits)
    then show ?thesis using S(2) frames_of_rest [OF fs [unfolded e(1)]] by (simp add: client_idle_def same_client_def)
  next
    case False
    then show ?thesis using t that S(4) by (auto simp: took_in_def)
  qed
  ultimately show ?thesis by (simp add: serving_def)
qed

section \<open>Unique ids that are not\<close>

text \<open>
  What a repeated id does to the pool. When the generator returns the id of a client that is
  still connected (it repeats after 33.5 seconds), the new client enters the pool only under its
  socket. Closing it removes the other client from the pool and deletes the new client's object while
  the pool keeps pointing to it: the next data for that socket, and the next close, go through the dangling pointer.
\<close>

theorem repeated_id_dangles:
  assumes "socket_inv S" "client_of S f = Some c" "client_of S g = None" "msg_data m = Some tx"
    "GenerateSeqID (svr_uuid S) uclock = Some (m_ulClientUniqSeq c, u, uclock')"
  shows "\<exists>S1 S2. ProcessNewClient uclock g m S = Some (uclock', S1) \<and> client_of S1 g \<noteq> None \<and> client_of S1 f \<noteq> None \<and>
    ProcessCloseClient g S1 = Some (True, S2) \<and> GetClientByFd f (m_stClientPool S2) = None \<and>
    (\<forall>d m' clock. data_message d m' \<longrightarrow> ProcessMessageData clock g m' S2 = None) \<and> ProcessCloseClient g S2 = None"
proof -
  obtain p where p: "m_stClientFdPool (m_stClientPool S) f = Some p" "svr_clients S p = Some c"
      "m_iClientFd (m_stContextBuffer c) = f"
    using client_lookup [OF assms(1,2)] by metis
  have fg: "f \<noteq> g" using assms(2,3) by auto
  have none: "m_stClientFdPool (m_stClientPool S) g = None"
    using client_lookup_none [OF assms(1)] assms(3) by (simp add: GetClientByFd_def)
  have reg: "registered socket_client_fd m_ulClientUniqSeq (m_stClientPool S) (svr_clients S)"
    using assms(1) by (simp add: server_inv_def)
  have seq: "m_stClientSeqPool (m_stClientPool S) (m_ulClientUniqSeq c) = Some p" by (rule registered_seq [OF reg p(2)])
  let ?x = "m_ulClientUniqSeq c" and ?q = "svr_next S"
  have q: "?q \<noteq> p" using assms(1) p(2) by (auto simp: server_inv_def)
  let ?c = "SocketClientCtx_new ?x g"
  let ?d = "set_context_buffer ((m_stContextBuffer ?c)\<lparr>m_chClientIP := ip_field tx\<rparr>) ?c"
  let ?cp = "(m_stClientPool S)\<lparr>m_stClientFdPool := (m_stClientFdPool (m_stClientPool S))(g \<mapsto> ?q)\<rparr>"
  define S1 where "S1 = put_client ?q ?d (S\<lparr>svr_next := Suc ?q, m_stClientPool := ?cp, svr_uuid := u\<rparr>)"
  have ip: "length (m_chClientIP (m_stContextBuffer ?c)) = 64"
    by (simp add: SocketClientCtx_new_def context_construct_def NETWORK_SERVER_IP_ADDRESS_LEN_def)
  have "SetClientIP tx (length (c_str tx)) ?d = Some ?d"
    by (subst SetClientIP_ok) (simp_all add: set_context_buffer_def)
  moreover have "m_iClientFd (m_stContextBuffer ?d) = g" "m_ulClientUniqSeq ?d = ?x" by (simp_all add: client_new_ok)
  moreover have "AddClient ?x ?q g (m_stClientPool S) = ?cp" using none seq by (simp add: AddClient_def map_insert_def)
  ultimately have new: "ProcessNewClient uclock g m S = Some (uclock', S1)"
    using assms(4,5) none SetClientIP_ok [OF ip, of tx]
    by (simp add: ProcessNewClient_def new_client_def GetClientByFd_def Let_def put_client_def S1_def del: set_context_buffer_simps)
  define S2 where "S2 = S1\<lparr>m_stClientPool := ?cp\<lparr>m_stClientFdPool := (m_stClientFdPool ?cp)(f := None),
      m_stClientSeqPool := (m_stClientSeqPool ?cp)(?x := None)\<rparr>, svr_clients := (svr_clients S1)(?q := None)\<rparr>"
  have "ProcessCloseClient g S1 = Some (True, S2)"
    using seq p q fg
    by (simp add: ProcessCloseClient_def GetClientByFd_def S1_def S2_def server_RemoveClient_def GetClient_def RemoveClient_def
        RemoveClientByFd_def delete_client_def client_new_ok)
  moreover have g2: "m_stClientFdPool (m_stClientPool S2) g = Some ?q" "svr_clients S2 ?q = None"
    using fg by (simp_all add: S1_def S2_def)
  moreover have "ProcessMessageData clock g m' S2 = None" if "data_message d m'" for d m' clock
    using that g2 by (subst ProcessMessageData_def, subst message_loop.simps) (simp add: GetClientByFd_def data_message_def)
  moreover have "ProcessCloseClient g S2 = None" using g2 by (simp add: ProcessCloseClient_def GetClientByFd_def)
  moreover have "GetClientByFd f (m_stClientPool S2) = None" by (simp add: S2_def GetClientByFd_def)
  moreover have "client_of S1 g \<noteq> None" "client_of S1 f \<noteq> None"
    using fg p q by (simp_all add: S1_def client_of_def GetClientByFd_def)
  ultimately show ?thesis using new by blast
qed

theorem repeated_id_dangles_witness:
  "\<exists>S1 S2. ProcessNewClient [2 ^ 25] 6 \<lparr>msg_id = 1, msg_opaque = 0, msg_ud = 6, msg_data = Some [49]\<rparr>
      (one_client\<lparr>svr_uuid := \<lparr>m_dwHostID = 0, m_dwGameSvrID = 0, m_ulSequenceID = 6, m_ulLastTimestamp = 2 ^ 25\<rparr>\<rparr>) = Some ([], S1) \<and>
     ProcessCloseClient 6 S1 = Some (True, S2) \<and> ProcessMessageData (\<lambda>_ _. 0) 6 (message_of [0]) S2 = None"
proof -
  let ?S = "one_client\<lparr>svr_uuid := \<lparr>m_dwHostID = 0, m_dwGameSvrID = 0, m_ulSequenceID = 6, m_ulLastTimestamp = 2 ^ 25\<rparr>\<rparr>"
  let ?m = "\<lparr>msg_id = 1, msg_opaque = 0, msg_ud = 6, msg_data = Some [49]\<rparr>"
  have inv: "socket_inv ?S" using one_client_inv by (simp add: server_inv_def)
  have c: "client_of ?S 5 = Some (SocketClientCtx_new 7 5)" using one_client_of by (simp add: client_of_def)
  have n: "client_of ?S 6 = None"
    by (simp add: one_client_def client_of_def GetClientByFd_def AddClient_def map_insert_def ClientContextPool_new_def)
  have v: "uuid_value (2 ^ 25) 0 0 7 = 7" "((6 :: u64) + 1) AND 0xFFF = 7" by code_simp+
  have g: "GenerateSeqID (svr_uuid ?S) [2 ^ 25] = Some (m_ulClientUniqSeq (SocketClientCtx_new 7 5),
      \<lparr>m_dwHostID = 0, m_dwGameSvrID = 0, m_ulSequenceID = 7, m_ulLastTimestamp = 2 ^ 25\<rparr>, [])"
    unfolding client_new_ok using v by (simp add: GenerateSeqID_def Let_def)
  have d: "data_message [0] (message_of [0])" by simp
  show ?thesis
    using repeated_id_dangles [OF inv c n _ g, of ?m "[49]"] d by fastforce
qed

end
