(* ===== verification/Libevent_Server.thy ===== *)
theory Libevent_Server
  imports Server_Logic
begin

text \<open>
  The libevent back end of a network server: \<open>network/libevent/libevent_ctx.h\<close>, \<open>libevent_handle.cpp\<close>
  and \<open>libevent_server.cpp\<close>.
  \<^item> libevent itself is a parameter. A \<open>bufferevent\<close> is a handle; \<open>bev_read\<close> is what
    \<open>bufferevent_read\<close> does to its input buffer, of a type \<open>'e\<close> of libevent's own, and
    \<open>evbuffer_contract\<close> is its documented behaviour: it removes and returns up to the given number
    of the bytes that are waiting. Results of the other calls are arguments.
  \<^item> Using a bufferevent after \<open>bufferevent_free\<close>, or freeing it twice, gives \<open>None\<close>.
\<close>

section \<open>Clients\<close>

record LibeventClientCtx =
  le_ContextBuffer :: ST_ClientContextBuffer
  m_pstBufferEvent :: "nat option"

record 'e libevent =
  bev_input :: "nat \<Rightarrow> 'e option"
  bev_written :: "nat \<Rightarrow> byte list"
  loop_break :: bool

type_synonym libevent_ctx = "LibeventClientCtx ServerContext"

definition set_le_buffer :: "ST_ClientContextBuffer \<Rightarrow> LibeventClientCtx \<Rightarrow> LibeventClientCtx" where
  "set_le_buffer b c = c\<lparr>le_ContextBuffer := b\<rparr>"

abbreviation le_seq :: "LibeventClientCtx \<Rightarrow> u64" where
  "le_seq \<equiv> ctx_ulClientSeq \<circ> le_ContextBuffer"

abbreviation le_fd :: "LibeventClientCtx \<Rightarrow> int" where
  "le_fd \<equiv> m_iClientFd \<circ> le_ContextBuffer"

text \<open>\<open>snprintf\<close> of \<open>%s:%u\<close> into the address field: cut to 63 bytes and terminated.\<close>

definition LibeventClientCtx_new :: "u64 \<Rightarrow> int \<Rightarrow> nat \<Rightarrow> byte list \<Rightarrow> u16 \<Rightarrow> LibeventClientCtx" where
  "LibeventClientCtx_new uuid iClientFd bev ip port =
     \<lparr>le_ContextBuffer = context_construct\<lparr>ctx_ulClientSeq := uuid, m_iClientFd := iClientFd,
        m_chClientIP := take NETWORK_SERVER_IP_ADDRESS_LEN
          (take (NETWORK_SERVER_IP_ADDRESS_LEN - 1) (ip @ [58] @ decimal (unat (ntohs port))) @
           replicate NETWORK_SERVER_IP_ADDRESS_LEN 0)\<rparr>,
      m_pstBufferEvent = Some bev\<rparr>"

definition bufferevent_free :: "nat \<Rightarrow> 'e libevent \<Rightarrow> 'e libevent option" where
  "bufferevent_free bev V = (case bev_input V bev of
     None \<Rightarrow> None | Some _ \<Rightarrow> Some (V\<lparr>bev_input := (bev_input V)(bev := None)\<rparr>))"

definition bufferevent_write :: "nat \<Rightarrow> byte list \<Rightarrow> 'e libevent \<Rightarrow> 'e libevent option" where
  "bufferevent_write bev d V = (case bev_input V bev of
     None \<Rightarrow> None | Some _ \<Rightarrow> Some (V\<lparr>bev_written := (bev_written V)(bev := bev_written V bev @ d)\<rparr>))"

definition LibeventClientCtx_delete :: "LibeventClientCtx \<Rightarrow> 'e libevent \<Rightarrow> 'e libevent option" where
  "LibeventClientCtx_delete c V = (case m_pstBufferEvent c of
     None \<Rightarrow> Some V | Some bev \<Rightarrow> bufferevent_free bev V)"

definition le_PacketBufferRead ::
    "(nat \<Rightarrow> 'e \<Rightarrow> byte list \<times> 'e) \<Rightarrow> nat \<Rightarrow> LibeventClientCtx \<Rightarrow> 'e libevent
     \<Rightarrow> (int \<times> LibeventClientCtx \<times> 'e libevent) option" where
  "le_PacketBufferRead bev_read bev c V = do {
     let b = le_ContextBuffer c;
     let iBufferRecv = int (length (m_chBuffer b)) - ctx_iBufferSize b;
     (if iBufferRecv \<le> 0 then Some (- 1, c, V)
      else do {
        e \<leftarrow> bev_input V bev;
        let (d, e) = bev_read (nat iBufferRecv) e;
        buf \<leftarrow> mem_write (m_chBuffer b) (nat (ctx_iBufferSize b)) d;
        Some (int (length d),
              set_le_buffer (b\<lparr>m_chBuffer := buf, ctx_iBufferSize := ctx_iBufferSize b + int (length d)\<rparr>) c,
              V\<lparr>bev_input := (bev_input V)(bev := Some e)\<rparr>)
      })
   }"

definition le_PacketBufferSend ::
    "u64 \<Rightarrow> CPacketMemoryPool \<Rightarrow> NetPacketBuffer \<Rightarrow> LibeventClientCtx \<Rightarrow> 'e libevent \<Rightarrow> (int \<times> 'e libevent) option" where
  "le_PacketBufferSend now P k c V = do {
     bev \<leftarrow> m_pstBufferEvent c;
     chHeaderArray \<leftarrow> PrepareHeader k (replicate (nat NETWORK_PACKET_HEADER_SIZE) 0);
     chTailArray \<leftarrow> PrepareTail now (replicate (nat NETWORK_PACKET_TAIL_SIZE) 0);
     V \<leftarrow> bufferevent_write bev chHeaderArray V;
     mem \<leftarrow> packet_GetBuffer P k;
     body \<leftarrow> mem_read mem 0 (nat (m_iBufferSize k));
     V \<leftarrow> bufferevent_write bev body V;
     V \<leftarrow> bufferevent_write bev chTailArray V;
     Some (NETWORK_PACKET_HEADER_SIZE + m_iBufferSize k + NETWORK_PACKET_TAIL_SIZE, V)
   }"

section \<open>Handlers\<close>

definition CloseClient :: "nat \<Rightarrow> libevent_ctx \<Rightarrow> 'e libevent \<Rightarrow> (libevent_ctx \<times> 'e libevent) option" where
  "CloseClient p S V = do {
     c \<leftarrow> svr_clients S p;
     S \<leftarrow> server_RemoveClient le_fd (le_seq c) S;
     V \<leftarrow> LibeventClientCtx_delete c V;
     S \<leftarrow> delete_client p S;
     Some (S, V)
   }"

text \<open>
  The arguments \<open>linger\<close> and \<open>keepalive\<close> are the results of the two \<open>setsockopt\<close> calls, \<open>bev\<close>
  that of \<open>bufferevent_socket_new\<close> with its input buffer.
\<close>

definition SetSocketOpt :: "int \<Rightarrow> int \<Rightarrow> int" where
  "SetSocketOpt linger keepalive = (if linger \<noteq> 0 then linger else keepalive)"

definition OnListenerAcceptConnect ::
    "u64 list \<Rightarrow> int \<Rightarrow> (nat \<times> 'e) option \<Rightarrow> int \<Rightarrow> int \<Rightarrow> byte list \<Rightarrow> u16 \<Rightarrow> libevent_ctx \<Rightarrow> 'e libevent
     \<Rightarrow> (u64 list \<times> libevent_ctx \<times> 'e libevent) option" where
  "OnListenerAcceptConnect uclock iClientFd bev linger keepalive ip port S V = do {
     (S, V) \<leftarrow> (case GetClientByFd iClientFd (m_stClientPool S) of
        None \<Rightarrow> Some (S, V) | Some p \<Rightarrow> CloseClient p S V);
     (case bev of
        None \<Rightarrow> Some (uclock, S, V\<lparr>loop_break := True\<rparr>)
      | Some (h, e) \<Rightarrow> do {
          let V = V\<lparr>bev_input := (bev_input V)(h := Some e), bev_written := (bev_written V)(h := [])\<rparr>;
          (if SetSocketOpt linger keepalive \<noteq> 0 then Some (uclock, S, V)
           else do {
             (uuid, u, uclock) \<leftarrow> GenerateSeqID (svr_uuid S) uclock;
             let (p, S) = new_client (LibeventClientCtx_new uuid iClientFd h ip port) (S\<lparr>svr_uuid := u\<rparr>);
             c \<leftarrow> svr_clients S p;
             Some (uclock, S\<lparr>m_stClientPool := AddClient (le_seq c) p (le_fd c) (m_stClientPool S)\<rparr>, V)
           })
        })
   }"

definition OnListenerAcceptError :: "'e libevent \<Rightarrow> 'e libevent" where
  "OnListenerAcceptError V = V\<lparr>loop_break := True\<rparr>"

partial_function (option) read_loop ::
    "(nat \<Rightarrow> 'e \<Rightarrow> byte list \<times> 'e) \<Rightarrow> (nat \<Rightarrow> nat \<Rightarrow> u64) \<Rightarrow> nat \<Rightarrow> nat \<Rightarrow> nat \<Rightarrow> libevent_ctx \<Rightarrow> 'e libevent
     \<Rightarrow> (libevent_ctx \<times> 'e libevent) option" where
  "read_loop bev_read clock i bev p S V = do {
     c \<leftarrow> svr_clients S p;
     (_, c, V) \<leftarrow> le_PacketBufferRead bev_read bev c V;
     (iRet, S) \<leftarrow> server_ExecuteCmdRecvAllPacket le_ContextBuffer set_le_buffer (clock i) p (put_client p c S);
     (if iRet \<noteq> 0 then CloseClient p S V
      else do {
        c \<leftarrow> svr_clients S p;
        (iReadLen, c, V) \<leftarrow> le_PacketBufferRead bev_read bev c V;
        let S = put_client p c S;
        (if iReadLen > 0 then read_loop bev_read clock (Suc i) bev p S V else Some (S, V))
      })
   }"

definition OnBufferEventRead ::
    "(nat \<Rightarrow> 'e \<Rightarrow> byte list \<times> 'e) \<Rightarrow> (nat \<Rightarrow> nat \<Rightarrow> u64) \<Rightarrow> nat \<Rightarrow> int \<Rightarrow> libevent_ctx \<Rightarrow> 'e libevent
     \<Rightarrow> (libevent_ctx \<times> 'e libevent) option" where
  "OnBufferEventRead bev_read clock bev iClientFd S V = (case GetClientByFd iClientFd (m_stClientPool S) of
     None \<Rightarrow> Some (S, V)
   | Some p \<Rightarrow> read_loop bev_read clock 0 bev p S V)"

definition OnBufferEventTrigger ::
    "bool \<Rightarrow> bool \<Rightarrow> bool \<Rightarrow> int \<Rightarrow> libevent_ctx \<Rightarrow> 'e libevent \<Rightarrow> (libevent_ctx \<times> 'e libevent) option" where
  "OnBufferEventTrigger timeout eof error iClientFd S V = (case GetClientByFd iClientFd (m_stClientPool S) of
     None \<Rightarrow> Some (S, V)
   | Some p \<Rightarrow> if timeout \<or> eof \<or> error then CloseClient p S V else Some (S, V))"

section \<open>The server object\<close>

text \<open>Handles of the event base and of the listener; \<open>None\<close> is the null pointer.\<close>

record LibeventServer =
  m_pstEventBase :: "nat option"
  m_pstListener :: "nat option"

definition InitEventMgr :: LibeventServer where
  "InitEventMgr = \<lparr>m_pstEventBase = None, m_pstListener = None\<rparr>"

definition InitEventBase :: "bool \<Rightarrow> nat option \<Rightarrow> bool \<Rightarrow> int \<Rightarrow> LibeventServer \<Rightarrow> bool \<times> LibeventServer" where
  "InitEventBase config base ntf add v =
     (if \<not> config then (False, v)
      else (case base of
          None \<Rightarrow> (False, v)
        | Some eb \<Rightarrow>
            if \<not> ntf then (False, v)
            else if add < 0 then (False, v)
            else (True, v\<lparr>m_pstEventBase := Some eb\<rparr>)))"

definition InitListener :: "nat option \<Rightarrow> LibeventServer \<Rightarrow> bool \<times> LibeventServer" where
  "InitListener listener v = (case listener of
     None \<Rightarrow> (False, v) | Some l \<Rightarrow> (True, v\<lparr>m_pstListener := Some l\<rparr>))"

definition LibeventServer_Init ::
    "bool \<Rightarrow> bool \<Rightarrow> nat option \<Rightarrow> bool \<Rightarrow> int \<Rightarrow> nat option \<Rightarrow> LibeventServer \<Rightarrow> LibeventServer" where
  "LibeventServer_Init pipe config base ntf add listener v =
     (if \<not> pipe then v
      else let (ok, v) = InitEventBase config base ntf add v in
        if \<not> ok then v else snd (InitListener listener v))"

fun le_send_packets ::
    "(nat \<Rightarrow> u64) \<Rightarrow> nat \<Rightarrow> libevent_ctx \<Rightarrow> NetPacketBuffer list \<Rightarrow> 'e libevent \<Rightarrow> 'e libevent option" where
  "le_send_packets clock i S [] V = Some V"
| "le_send_packets clock i S (k # ks) V = (case GetClient (m_ulClientSeq k) (m_stClientPool S) of
     None \<Rightarrow> le_send_packets clock i S ks V
   | Some p \<Rightarrow> do {
       c \<leftarrow> svr_clients S p;
       (_, V) \<leftarrow> le_PacketBufferSend (clock i) (svr_memory S) k c V;
       le_send_packets clock (Suc i) S ks V
     })"

text \<open>\<open>ExecuteCmdSendAllPacket\<close> with clients that write to bufferevents.\<close>

partial_function (option) le_send_all ::
    "(nat \<Rightarrow> u64) \<Rightarrow> nat \<Rightarrow> libevent_ctx \<Rightarrow> 'e libevent \<Rightarrow> (libevent_ctx \<times> 'e libevent) option" where
  "le_send_all clock i S V = do {
     let N = svr_net S;
     V \<leftarrow> le_send_packets clock i S (m_vecPacketPool (m_stNetPacketSendCache N)) V;
     (cache, P) \<leftarrow> ReleaseAllPackets (m_stNetPacketSendCache N) (svr_memory S);
     let (iTotalPackets, N') = PacketSendPrepareCache (N\<lparr>m_stNetPacketSendCache := cache\<rparr>);
     let S = S\<lparr>svr_net := N', svr_memory := P\<rparr>;
     (if iTotalPackets > 0 then le_send_all clock (i + length (m_vecPacketPool (m_stNetPacketSendCache N))) S V
      else Some (S, V))
   }"

definition le_RecvNetworkCmd ::
    "(nat \<Rightarrow> u64) \<Rightarrow> byte list \<Rightarrow> LibeventServer \<Rightarrow> libevent_ctx \<Rightarrow> 'e libevent \<Rightarrow> (libevent_ctx \<times> 'e libevent) option" where
  "le_RecvNetworkCmd clock rstNetCmd v S V =
     (if m_pstEventBase v = None then None
      else if GetCmd rstNetCmd = NETWORK_CMD_REQUEST_SEND_ALL_PACKET then
        le_send_all clock 0 (S\<lparr>svr_net := snd (PacketSendPrepareCache (svr_net S))\<rparr>) V
      else if GetCmd rstNetCmd = NETWORK_CMD_REQUEST_CLOSE_SERVER then Some (S, V\<lparr>loop_break := True\<rparr>)
      else Some (S, V))"

definition le_SendNetworkCmd :: "int \<Rightarrow> byte list \<Rightarrow> world \<Rightarrow> world option" where
  "le_SendNetworkCmd = SendNetworkCmd"

text \<open>The buffer is cleared for every read, so a short read leaves no stale command behind.\<close>

definition OnRecvNetCmdCtrl ::
    "(nat \<Rightarrow> u64) \<Rightarrow> int \<Rightarrow> LibeventServer \<Rightarrow> world \<Rightarrow> libevent_ctx \<Rightarrow> 'e libevent \<Rightarrow> (world \<times> libevent_ctx \<times> 'e libevent) option" where
  "OnRecvNetCmdCtrl clock iRecvCtrlFd v W S V =
     (let (n, bs, e, W) = sys_read iRecvCtrlFd ST_NETWORK_CMD_REQUEST_MAX_SIZE W in
      if n < 0 then Some (W, S, V)
      else do {
        buf \<leftarrow> mem_write (replicate ST_NETWORK_CMD_REQUEST_MAX_SIZE 0) 0 bs;
        (S, V) \<leftarrow> le_RecvNetworkCmd clock buf v S V;
        Some (W, S, V)
      })"

definition StartEventLoop :: "LibeventServer \<Rightarrow> LibeventServer option" where
  "StartEventLoop v = (if m_pstEventBase v = None then None else Some InitEventMgr)"

section \<open>Reading\<close>

interpretation le: client_context le_ContextBuffer set_le_buffer le_seq
  by unfold_locales (simp_all add: set_le_buffer_def)

abbreviation le_inv :: "libevent_ctx \<Rightarrow> bool" where
  "le_inv \<equiv> server_inv le_ContextBuffer le_seq"

abbreviation le_bytes :: "LibeventClientCtx \<Rightarrow> byte list" where
  "le_bytes c \<equiv> ctx_data (le_ContextBuffer c)"

lemma set_le_buffer_simps [simp]:
  "le_ContextBuffer (set_le_buffer b c) = b" "m_pstBufferEvent (set_le_buffer b c) = m_pstBufferEvent c"
  "set_le_buffer b (set_le_buffer b' c) = set_le_buffer b c"
  by (simp_all add: set_le_buffer_def)

definition evbuffer_contract :: "(nat \<Rightarrow> 'e \<Rightarrow> byte list \<times> 'e) \<Rightarrow> ('e \<Rightarrow> byte list) \<Rightarrow> bool" where
  "evbuffer_contract bev_read waiting \<longleftrightarrow>
     (\<forall>n e. fst (bev_read n e) = take n (waiting e) \<and> waiting (snd (bev_read n e)) = drop n (waiting e))"

definition ctx_id :: "ST_ClientContextBuffer \<Rightarrow> u64 \<times> int \<times> byte list" where
  "ctx_id b = (ctx_ulClientSeq b, m_iClientFd b, m_chClientIP b)"

lemma le_read:
  assumes "evbuffer_contract bev_read waiting" "ctx_ok (le_ContextBuffer c)" "bev_input V h = Some e"
  obtains e' b k where "le_PacketBufferRead bev_read h c V =
      Some (if length (le_bytes c) = 102400 then - 1 else int (length k), set_le_buffer b c,
        V\<lparr>bev_input := (bev_input V)(h := Some e')\<rparr>)"
    "k = take (102400 - length (le_bytes c)) (waiting e)" "waiting e' = drop (length k) (waiting e)"
    "ctx_ok b" "ctx_data b = le_bytes c @ k" "ctx_id b = ctx_id (le_ContextBuffer c)"
proof -
  let ?b = "le_ContextBuffer c"
  have l: "length (m_chBuffer ?b) = 102400" "int (length (le_bytes c)) = ctx_iBufferSize ?b" "length (le_bytes c) \<le> 102400"
    using assms(2) ctx_data_length [OF assms(2)] by (simp_all add: ctx_ok_def ctx_data_def NETWORK_PACKET_BUFFER_READ_SIZE_def)
  show ?thesis
  proof (cases "length (le_bytes c) = 102400")
    case True
    have "(bev_input V)(h := Some e) = bev_input V" using assms(3) by (simp add: fun_upd_idem)
    moreover have "set_le_buffer ?b c = c" by (simp add: set_le_buffer_def)
    ultimately show ?thesis
      using that [of "[]" ?b e] True l assms(2) by (simp add: le_PacketBufferRead_def Let_def)
  next
    case False
    let ?n = "102400 - length (le_bytes c)"
    let ?k = "take ?n (waiting e)"
    obtain e' where r: "bev_read ?n e = (?k, e')" "waiting e' = drop ?n (waiting e)"
      using assms(1) unfolding evbuffer_contract_def by (metis prod.collapse)
    have fits: "length (le_bytes c) + length ?k \<le> length (m_chBuffer ?b)" using l by simp
    obtain b' where b': "mem_write (m_chBuffer ?b) (nat (ctx_iBufferSize ?b)) ?k = Some (m_chBuffer b')"
        "ctx_ok b'" "ctx_data b' = le_bytes c @ ?k"
        "b' = ?b\<lparr>m_chBuffer := m_chBuffer b', ctx_iBufferSize := ctx_iBufferSize ?b + int (length ?k)\<rparr>"
      by (rule append_buffer [OF assms(2) fits])
    have "drop ?n (waiting e) = drop (length ?k) (waiting e)" by (cases "?n \<le> length (waiting e)") simp_all
    moreover have "nat (int (length (m_chBuffer ?b)) - ctx_iBufferSize ?b) = ?n"
      using l by (simp add: nat_diff_distrib flip: l(2))
    moreover have "\<not> int (length (m_chBuffer ?b)) - ctx_iBufferSize ?b \<le> 0" using l False by simp
    moreover have "ctx_id b' = ctx_id ?b" by (subst b'(4)) (simp add: ctx_id_def)
    moreover have "set_le_buffer (?b\<lparr>m_chBuffer := m_chBuffer b', ctx_iBufferSize := ctx_iBufferSize ?b + int (length ?k)\<rparr>) c = set_le_buffer b' c"
      using b'(4) by simp
    ultimately show ?thesis
      using that [of ?k b' e'] r b'(1,2,3) assms(3) False
      by (simp add: le_PacketBufferRead_def Let_def del: length_take)
  qed
qed

lemma le_inv_client:
  assumes "le_inv S" "client_of S f = Some c"
  obtains p where "m_stClientFdPool (m_stClientPool S) f = Some p" "svr_clients S p = Some c"
    "m_iClientFd (le_ContextBuffer c) = f" "ctx_ok (le_ContextBuffer c)"
proof -
  have reg: "registered le_fd le_seq (m_stClientPool S) (svr_clients S)"
    using assms(1) by (simp add: server_inv_def)
  obtain p where p: "m_stClientFdPool (m_stClientPool S) f = Some p" "svr_clients S p = Some c"
    using assms(2) by (auto simp: client_of_def GetClientByFd_def bind_eq_Some_conv)
  moreover have "m_iClientFd (le_ContextBuffer c) = f" using registered_fdD [OF reg p(1)] p(2) by auto
  ultimately show ?thesis using that assms(1) by (auto simp: server_inv_def)
qed

lemma CloseClient_ok:
  assumes "le_inv S" "svr_clients S p = Some c" "m_pstBufferEvent c = Some h" "bev_input V h \<noteq> None"
  obtains S' where "CloseClient p S V = Some (S', V\<lparr>bev_input := (bev_input V)(h := None)\<rparr>)" "le_inv S'"
    "svr_clients S' = (svr_clients S)(p := None)"
    "m_stClientFdPool (m_stClientPool S') = (m_stClientFdPool (m_stClientPool S))(le_fd c := None)"
    "received S' = received S"
proof -
  obtain S' where S': "server_RemoveClient le_fd (le_seq c) S \<bind> delete_client p = Some S'"
      "le_inv S'" "svr_clients S' = (svr_clients S)(p := None)"
      "m_stClientFdPool (m_stClientPool S') = (m_stClientFdPool (m_stClientPool S))(m_iClientFd (le_ContextBuffer c) := None)"
      "svr_net S' = svr_net S" "svr_memory S' = svr_memory S"
    by (rule le.close_registered [OF assms(1,2)])
  have "CloseClient p S V = Some (S', V\<lparr>bev_input := (bev_input V)(h := None)\<rparr>)"
    using S'(1) assms(2-) by (auto simp: CloseClient_def LibeventClientCtx_delete_def bufferevent_free_def bind_eq_Some_conv)
  then show ?thesis using that S' by (simp add: received_def)
qed

text \<open>
  The state of a reading loop: the client at \<open>p\<close> has its bufferevent \<open>h\<close>, whose input buffer holds
  the bytes \<open>d\<close>.
\<close>

definition reading :: "('e \<Rightarrow> byte list) \<Rightarrow> nat \<Rightarrow> nat \<Rightarrow> LibeventClientCtx \<Rightarrow> byte list \<Rightarrow> libevent_ctx \<Rightarrow> 'e libevent \<Rightarrow> bool" where
  "reading waiting h p c d S V \<longleftrightarrow> le_inv S \<and> svr_clients S p = Some c \<and> m_pstBufferEvent c = Some h \<and>
     map_option waiting (bev_input V h) = Some d"

definition le_outcome ::
    "('e \<Rightarrow> byte list) \<Rightarrow> nat \<Rightarrow> nat \<Rightarrow> LibeventClientCtx \<Rightarrow> (int \<times> byte list) list \<Rightarrow> byte list \<Rightarrow> int
     \<Rightarrow> libevent_ctx \<Rightarrow> libevent_ctx \<times> 'e libevent \<Rightarrow> bool" where
  "le_outcome waiting h p c fs rest e S r \<longleftrightarrow> (case r of (S', V') \<Rightarrow>
     le_inv S' \<and> received S' = received S @ map (recv_tag (le_ContextBuffer c)) fs \<and>
     (\<forall>q. q \<noteq> p \<longrightarrow> svr_clients S' q = svr_clients S q) \<and>
     (if e = 0 then \<exists>c'. reading waiting h p c' [] S' V' \<and> ctx_id (le_ContextBuffer c') = ctx_id (le_ContextBuffer c) \<and>
        le_bytes c' = rest \<and> m_stClientPool S' = m_stClientPool S
      else svr_clients S' p = None \<and> bev_input V' h = None \<and>
        m_stClientFdPool (m_stClientPool S') = (m_stClientFdPool (m_stClientPool S))(le_fd c := None)))"

lemma le_turn_read:
  assumes "evbuffer_contract bev_read waiting" "reading waiting h p c d S V"
  obtains n c' V' k where "le_PacketBufferRead bev_read h c V = Some (n, c', V')"
    "reading waiting h p c' (drop (length k) d) (put_client p c' S) V'" "k = take (102400 - length (le_bytes c)) d"
    "le_bytes c' = le_bytes c @ k" "ctx_id (le_ContextBuffer c') = ctx_id (le_ContextBuffer c)" "received (put_client p c' S) = received S"
    "n = (if length (le_bytes c) = 102400 then - 1 else int (length k))"
proof -
  obtain e where e: "bev_input V h = Some e" "waiting e = d" and inv: "le_inv S" "svr_clients S p = Some c" "m_pstBufferEvent c = Some h"
    using assms(2) by (auto simp: reading_def)
  have ok: "ctx_ok (le_ContextBuffer c)" using inv by (auto simp: server_inv_def)
  obtain e' b k where r: "le_PacketBufferRead bev_read h c V =
      Some (if length (le_bytes c) = 102400 then - 1 else int (length k), set_le_buffer b c, V\<lparr>bev_input := (bev_input V)(h := Some e')\<rparr>)"
      "k = take (102400 - length (le_bytes c)) (waiting e)" "waiting e' = drop (length k) (waiting e)"
      "ctx_ok b" "ctx_data b = le_bytes c @ k" "ctx_id b = ctx_id (le_ContextBuffer c)"
    by (rule le_read [OF assms(1) ok e(1)])
  have "le_inv (put_client p (set_le_buffer b c) S)"
    using r(4,6) by (intro le.update_registered [OF inv(1,2)]) (simp_all add: ctx_id_def)
  then have "reading waiting h p (set_le_buffer b c) (drop (length k) d) (put_client p (set_le_buffer b c) S)
      (V\<lparr>bev_input := (bev_input V)(h := Some e')\<rparr>)"
    using inv r(3) e(2) by (simp add: reading_def)
  then show ?thesis using that r e(2) by (simp add: received_def)
qed

lemma le_outcome_trans:
  assumes "received S1 = received S @ map (recv_tag (le_ContextBuffer c)) fs" "m_stClientPool S1 = m_stClientPool S"
    "\<forall>q. q \<noteq> p \<longrightarrow> svr_clients S1 q = svr_clients S q" "ctx_id (le_ContextBuffer c1) = ctx_id (le_ContextBuffer c)"
    "le_outcome waiting h p c1 gs rest e S1 r"
  shows "le_outcome waiting h p c (fs @ gs) rest e S r"
proof -
  have "recv_tag (le_ContextBuffer c1) = recv_tag (le_ContextBuffer c)" "le_fd c1 = le_fd c"
    using assms(4) by (auto simp: ctx_id_def recv_tag_def fun_eq_iff)
  then show ?thesis using assms by (cases r) (auto simp: le_outcome_def split: if_splits)
qed

lemma le_recv_turn:
  assumes "reading waiting h p c d S V" "frames_of (le_bytes c) = (fs, r, e)"
  obtains S' c' where "server_ExecuteCmdRecvAllPacket le_ContextBuffer set_le_buffer clock p S = Some (e, S')"
    "reading waiting h p c' d S' V" "le_bytes c' = (if e = 0 then r else le_bytes c)"
    "ctx_id (le_ContextBuffer c') = ctx_id (le_ContextBuffer c)"
    "received S' = received S @ map (recv_tag (le_ContextBuffer c)) fs" "m_stClientPool S' = m_stClientPool S"
    "\<forall>q. q \<noteq> p \<longrightarrow> svr_clients S' q = svr_clients S q"
proof -
  have S: "le_inv S" "svr_clients S p = Some c" "m_pstBufferEvent c = Some h" "map_option waiting (bev_input V h) = Some d"
    using assms(1) by (simp_all add: reading_def)
  obtain S' b where r: "server_ExecuteCmdRecvAllPacket le_ContextBuffer set_le_buffer clock p S = Some (e, S')" "le_inv S'"
      "svr_clients S' = (svr_clients S)(p := Some (set_le_buffer b c))" "ctx_data b = (if e = 0 then r else le_bytes c)"
      "ctx_ulClientSeq b = ctx_ulClientSeq (le_ContextBuffer c)" "m_iClientFd b = m_iClientFd (le_ContextBuffer c)"
      "m_chClientIP b = m_chClientIP (le_ContextBuffer c)"
      "received S' = received S @ map (recv_tag (le_ContextBuffer c)) fs" "m_stClientPool S' = m_stClientPool S"
    by (rule le.recv_frames [OF S(1,2) assms(2), where clock = clock])
  show ?thesis
    by (rule that [OF r(1), of "set_le_buffer b c"]) (use r S in \<open>simp_all add: reading_def ctx_id_def\<close>)
qed

text \<open>The first half of a turn: a read and the receive command.\<close>

lemma le_first_half:
  assumes "evbuffer_contract bev_read waiting" "reading waiting h p c d S V"
    "frames_of (le_bytes c @ d) = (fs, rest, e)" "\<not> stalled rest"
  obtains n1 c1 V1 e1 S2 c2 d1 fs1 where "le_PacketBufferRead bev_read h c V = Some (n1, c1, V1)"
    "server_ExecuteCmdRecvAllPacket le_ContextBuffer set_le_buffer clock p (put_client p c1 S) = Some (e1, S2)"
    "reading waiting h p c2 d1 S2 V1" "length d1 \<le> length d" "ctx_id (le_ContextBuffer c2) = ctx_id (le_ContextBuffer c)"
    "received S2 = received S @ map (recv_tag (le_ContextBuffer c)) fs1" "m_stClientPool S2 = m_stClientPool S"
    "\<forall>q. q \<noteq> p \<longrightarrow> svr_clients S2 q = svr_clients S q"
    "e1 = 0 \<longrightarrow> frame_head (le_bytes c2) = Frame_Wait \<and> length (le_bytes c2) < 32767 \<and>
       (\<exists>fs2. fs = fs1 @ fs2 \<and> frames_of (le_bytes c2 @ d1) = (fs2, rest, e))"
    "e1 \<noteq> 0 \<longrightarrow> fs = fs1 \<and> e = e1"
proof -
  obtain n1 c1 V1 k1 where t1: "le_PacketBufferRead bev_read h c V = Some (n1, c1, V1)"
      "reading waiting h p c1 (drop (length k1) d) (put_client p c1 S) V1" "k1 = take (102400 - length (le_bytes c)) d"
      "le_bytes c1 = le_bytes c @ k1" "ctx_id (le_ContextBuffer c1) = ctx_id (le_ContextBuffer c)" "received (put_client p c1 S) = received S"
    by (rule le_turn_read [OF assms(1,2)])
  define d1 where "d1 = drop (length k1) d"
  have d: "d = k1 @ d1" using t1(3) by (metis append_take_drop_id d1_def length_take append_eq_conv_conj)
  have all: "frames_of (le_bytes c @ k1 @ d1) = (fs, rest, e)" using assms(3) d by simp
  obtain fs1 r1 e1 where 1: "frames_of (le_bytes c @ k1) = (fs1, r1, e1)" "e1 = 0 \<longrightarrow> \<not> stalled r1"
      "e1 = 0 \<longrightarrow> (\<exists>fs2. fs = fs1 @ fs2 \<and> frames_of (r1 @ d1) = (fs2, rest, e))" "e1 \<noteq> 0 \<longrightarrow> fs = fs1 \<and> e = e1"
    by (rule frames_of_continue [OF all assms(4)])
  obtain S2 c2 where t2: "server_ExecuteCmdRecvAllPacket le_ContextBuffer set_le_buffer clock p (put_client p c1 S) = Some (e1, S2)"
      "reading waiting h p c2 d1 S2 V1" "le_bytes c2 = (if e1 = 0 then r1 else le_bytes c1)"
      "ctx_id (le_ContextBuffer c2) = ctx_id (le_ContextBuffer c1)"
      "received S2 = received (put_client p c1 S) @ map (recv_tag (le_ContextBuffer c1)) fs1"
      "m_stClientPool S2 = m_stClientPool (put_client p c1 S)"
      "\<forall>q. q \<noteq> p \<longrightarrow> svr_clients S2 q = svr_clients (put_client p c1 S) q"
    by (rule le_recv_turn [OF t1(2) [folded d1_def] 1(1) [folded t1(4)]])
  have "recv_tag (le_ContextBuffer c1) = recv_tag (le_ContextBuffer c)"
    using t1(5) by (auto simp: ctx_id_def recv_tag_def fun_eq_iff)
  moreover have "frame_head (le_bytes c2) = Frame_Wait \<and> length (le_bytes c2) < 32767" if "e1 = 0"
    using rest_bound [OF frames_of_rest] 1(1,2) t2(3) that frames_of_rest by auto
  ultimately show ?thesis
    by (intro that [OF t1(1) t2(1,2)]) (use t1(5,6) t2 1(3,4) d in auto)
qed

lemma read_loop_drains:
  assumes "evbuffer_contract bev_read waiting" "reading waiting h p c d S V"
    "frames_of (le_bytes c @ d) = (fs, rest, e)" "\<not> stalled rest"
  shows "\<exists>r. read_loop bev_read clock i h p S V = Some r \<and> le_outcome waiting h p c fs rest e S r"
  using assms(2,3)
proof (induction "length d" arbitrary: d c S V fs i rule: less_induct)
  case less
  have c: "svr_clients S p = Some c" using less.prems(1) by (simp add: reading_def)
  obtain n1 c1 V1 e1 S2 c2 d1 fs1 where t: "le_PacketBufferRead bev_read h c V = Some (n1, c1, V1)"
      "server_ExecuteCmdRecvAllPacket le_ContextBuffer set_le_buffer (clock i) p (put_client p c1 S) = Some (e1, S2)"
      "reading waiting h p c2 d1 S2 V1" "length d1 \<le> length d" "ctx_id (le_ContextBuffer c2) = ctx_id (le_ContextBuffer c)"
      and S2: "received S2 = received S @ map (recv_tag (le_ContextBuffer c)) fs1" "m_stClientPool S2 = m_stClientPool S"
      "\<forall>q. q \<noteq> p \<longrightarrow> svr_clients S2 q = svr_clients S q" and
      on: "e1 = 0 \<longrightarrow> frame_head (le_bytes c2) = Frame_Wait \<and> length (le_bytes c2) < 32767 \<and>
         (\<exists>fs2. fs = fs1 @ fs2 \<and> frames_of (le_bytes c2 @ d1) = (fs2, rest, e))" and
      off: "e1 \<noteq> 0 \<longrightarrow> fs = fs1 \<and> e = e1"
    by (rule le_first_half [OF assms(1) less.prems assms(4), where clock = "clock i"])
  have c2: "le_inv S2" "svr_clients S2 p = Some c2" "m_pstBufferEvent c2 = Some h" "bev_input V1 h \<noteq> None"
    using t(3) by (auto simp: reading_def)
  show ?case
  proof (cases "e1 = 0")
    case False
    obtain S3 where S3: "CloseClient p S2 V1 = Some (S3, V1\<lparr>bev_input := (bev_input V1)(h := None)\<rparr>)" "le_inv S3"
        "svr_clients S3 = (svr_clients S2)(p := None)"
        "m_stClientFdPool (m_stClientPool S3) = (m_stClientFdPool (m_stClientPool S2))(le_fd c2 := None)"
        "received S3 = received S2"
      by (rule CloseClient_ok [OF c2])
    have "read_loop bev_read clock i h p S V = Some (S3, V1\<lparr>bev_input := (bev_input V1)(h := None)\<rparr>)"
      using c t(1,2) S3(1) False by (subst read_loop.simps) simp
    then show ?thesis using S3 S2 t(5) off False by (simp add: le_outcome_def ctx_id_def)
  next
    case True
    then obtain fs2 where fs2: "fs = fs1 @ fs2" "frames_of (le_bytes c2 @ d1) = (fs2, rest, e)"
      and wait: "frame_head (le_bytes c2) = Frame_Wait" and room: "length (le_bytes c2) < 32767" using on by blast
    obtain n3 c3 V3 k3 where t3: "le_PacketBufferRead bev_read h c2 V1 = Some (n3, c3, V3)"
        "reading waiting h p c3 (drop (length k3) d1) (put_client p c3 S2) V3" "k3 = take (102400 - length (le_bytes c2)) d1"
        "le_bytes c3 = le_bytes c2 @ k3" "ctx_id (le_ContextBuffer c3) = ctx_id (le_ContextBuffer c2)"
        "received (put_client p c3 S2) = received S2" "n3 = (if length (le_bytes c2) = 102400 then - 1 else int (length k3))"
      by (rule le_turn_read [OF assms(1) t(3)])
    define S3 where "S3 = put_client p c3 S2"
    define d3 where "d3 = drop (length k3) d1"
    have run: "read_loop bev_read clock i h p S V =
        (if k3 \<noteq> [] then read_loop bev_read clock (Suc i) h p S3 V3 else Some (S3, V3))"
      using c t(1,2) c2(2) t3(1,7) room True by (subst read_loop.simps) (simp add: S3_def)
    have S3: "received S3 = received S @ map (recv_tag (le_ContextBuffer c)) fs1" "m_stClientPool S3 = m_stClientPool S"
        "\<forall>q. q \<noteq> p \<longrightarrow> svr_clients S3 q = svr_clients S q" "ctx_id (le_ContextBuffer c3) = ctx_id (le_ContextBuffer c)"
      using S2 t3(5,6) t(5) by (simp_all add: S3_def)
    have rd3: "reading waiting h p c3 d3 S3 V3" using t3(2) by (simp add: S3_def d3_def)
    have d3: "d1 = k3 @ d3" using t3(3) by (metis append_take_drop_id d3_def length_take append_eq_conv_conj)
    show ?thesis
    proof (cases "k3 = []")
      case k3: True
      then have "d1 = []" using t3(3) room by auto
      then have "fs2 = []" "rest = le_bytes c2" "e = 0" using fs2(2) frames_of_wait [OF wait] by simp_all
      moreover have "le_outcome waiting h p c3 [] (le_bytes c2) 0 S3 (S3, V3)"
        using rd3 k3 t3(4) \<open>d1 = []\<close> by (auto simp: le_outcome_def reading_def d3_def)
      ultimately show ?thesis using le_outcome_trans [OF S3, of waiting h "[]" rest e "(S3, V3)"] run k3 fs2(1) by simp
    next
      case False
      then have "length d3 < length d" using d3 t(4) by (cases k3) simp_all
      moreover have "frames_of (le_bytes c3 @ d3) = (fs2, rest, e)" using t3(4) d3 fs2(2) by simp
      ultimately obtain r where "read_loop bev_read clock (Suc i) h p S3 V3 = Some r" "le_outcome waiting h p c3 fs2 rest e S3 r"
        using less.hyps [OF _ rd3] by blast
      then show ?thesis using le_outcome_trans [OF S3, of waiting h fs2 rest e r] run False fs2(1) by simp
    qed
  qed
qed


definition le_client :: LibeventClientCtx where
  "le_client = LibeventClientCtx_new 7 5 3 [49] 0"

definition le_server :: libevent_ctx where
  "le_server = put_client 0 le_client
     ((ServerContext_new \<lparr>m_dwHostID = 0, m_dwGameSvrID = 0, m_ulSequenceID = 0, m_ulLastTimestamp = 0\<rparr>)\<lparr>svr_next := 1,
        m_stClientPool := AddClient 7 0 5 ClientContextPool_new\<rparr>)"

lemma le_client_simps:
  "ctx_ok (le_ContextBuffer le_client)" "le_bytes le_client = []" "m_iClientFd (le_ContextBuffer le_client) = 5"
  "ctx_ulClientSeq (le_ContextBuffer le_client) = 7" "m_pstBufferEvent le_client = Some 3"
  by (simp_all add: le_client_def LibeventClientCtx_new_def context_construct_def ctx_ok_def ctx_data_def)

lemma le_server_inv: "le_inv le_server"
proof -
  let ?S = "ServerContext_new \<lparr>m_dwHostID = 0, m_dwGameSvrID = 0, m_ulSequenceID = 0, m_ulLastTimestamp = 0\<rparr> :: libevent_ctx"
  have eq: "le_server = put_client (svr_next ?S) le_client (?S\<lparr>svr_next := Suc (svr_next ?S),
      m_stClientPool := AddClient (le_seq le_client) (svr_next ?S) (m_iClientFd (le_ContextBuffer le_client)) (m_stClientPool ?S)\<rparr>)"
    unfolding le_server_def by (simp add: le_client_simps ServerContext_new_def)
  show ?thesis
    unfolding eq by (rule le.add_registered [OF server_inv_new le_client_simps(1)])
      (simp_all add: ServerContext_new_def ClientContextPool_new_def)
qed

definition list_read :: "nat \<Rightarrow> byte list \<Rightarrow> byte list \<times> byte list" where
  "list_read n d = (take n d, drop n d)"


section \<open>Sending\<close>

lemma le_PacketBufferSend_frame:
  assumes "packet_ok P k" "m_pstBufferEvent c = Some h" "bev_input V h \<noteq> None"
  shows "le_PacketBufferSend now P k c V = Some (NETWORK_PACKET_HEADER_SIZE + m_iBufferSize k + NETWORK_PACKET_TAIL_SIZE,
    V\<lparr>bev_written := (bev_written V)(h := bev_written V h @ snd (sent_frame now (packet_view P k)))\<rparr>)"
proof -
  obtain p b where k: "m_pstMemory k = Some p" "pool_fetch P p = Some b" "nat (m_iBufferSize k) \<le> length b"
      "0 \<le> m_iBufferSize k"
    using assms(1) by (auto simp: packet_ok_def packet_ptr_def)
  have get: "packet_GetBuffer P k = Some b" using k by (auto simp: packet_GetBuffer_def pool_fetch_def)
  let ?n = "nat (m_iBufferSize k)"
  have len: "(word_of_int (m_iBufferSize k + 12) :: u16) = of_nat (length (take ?n b @ be_bytes now) + 4)"
  proof -
    have "m_iBufferSize k + 12 = int (length (take ?n b @ be_bytes now) + 4)" using k by simp
    then show ?thesis by (metis of_int_of_nat_eq)
  qed
  have view: "packet_view P k = (m_ulClientSeq k, m_iSockFd k, m_iProtoNo k, take ?n b)"
    using k by (simp add: packet_view_def packet_ptr_def)
  have head: "PrepareHeader k (replicate (nat NETWORK_PACKET_HEADER_SIZE) 0) =
      Some (be_bytes (of_nat (length (take ?n b @ be_bytes now) + 4) :: u16) @ be_bytes (word_of_int (m_iProtoNo k) :: u16))"
    unfolding len [symmetric] by (rule PrepareHeader_bytes) (simp add: packet_consts)
  obtain inp where "bev_input V h = Some inp" using assms(3) by blast
  moreover have "mem_read b 0 ?n = Some (take ?n b)" using k(3) by (simp add: mem_read_def)
  ultimately show ?thesis
    unfolding le_PacketBufferSend_def head
    using assms(2) get by (simp add: bufferevent_write_def PrepareTail_bytes view sent_frame_def encode_frame_def packet_consts)
qed

lemma frame_too_long:
  assumes "10240 < length body" "length body < 32764"
  shows "frames_of (encode_frame (pno, body)) = ([], encode_frame (pno, body), - 3)"
proof -
  have *: "(of_nat (length body + 4) :: u16) = word_of_int (int (length body) + 4)" by simp
  have "be16 (encode_frame (pno, body)) = int (length body) + 4"
    unfolding encode_frame_def * fst_conv snd_conv using assms by (intro be16_be_bytes) simp_all
  then have "frame_head (encode_frame (pno, body)) = Frame_Error (- 3)" using assms by (auto simp: frame_head_def)
  then show ?thesis by (subst frames_of.simps) simp
qed

text \<open>
  C9. Both ends of a connection. What the sender writes for a packet (both back ends write the same
  bytes) is one frame that the receiver of the same program takes apart again with the protocol
  number intact, but the eight bytes of the time stamp arrive as part of the body; and bodies of 10233 to
  10240 bytes, which the sender accepts, make the receiver fail with -3 and drop the connection.
\<close>

theorem sender_and_receiver:
  assumes "packet_ok P k" "- 32768 \<le> m_iProtoNo k" "m_iProtoNo k < 32768"
    "m_pstBufferEvent c = Some h" "bev_input V h \<noteq> None"
  shows "\<exists>body bytes V'. packet_view P k = (m_ulClientSeq k, m_iSockFd k, m_iProtoNo k, body) \<and>
    PacketBufferSend now P k = Some (m_iSockFd k, bytes) \<and>
    le_PacketBufferSend now P k c V = Some (int (length bytes), V') \<and> bev_written V' h = bev_written V h @ bytes \<and>
    frames_of bytes = (if m_iBufferSize k \<le> 10232 then ([(m_iProtoNo k, body @ be_bytes now)], [], 0) else ([], bytes, - 3))"
proof -
  obtain b where b: "pool_fetch P (packet_ptr k) = Some b" "nat (m_iBufferSize k) \<le> length b"
      "0 \<le> m_iBufferSize k" "m_iBufferSize k \<le> 10240"
    using assms(1) by (auto simp: packet_ok_def NETWORK_PACKET_BUFFER_MAX_SIZE_def)
  let ?body = "take (nat (m_iBufferSize k)) b"
  let ?f = "(m_iProtoNo k, ?body @ be_bytes now)"
  have view: "packet_view P k = (m_ulClientSeq k, m_iSockFd k, m_iProtoNo k, ?body)" using b(1) by (simp add: packet_view_def)
  have len: "int (length (snd ?f)) = m_iBufferSize k + 8" using b by simp
  have "frames_of (encode_frame ?f) = (if m_iBufferSize k \<le> 10232 then ([?f], [], 0) else ([], encode_frame ?f, - 3))"
  proof (cases "m_iBufferSize k \<le> 10232")
    case True
    have "0 < length (snd ?f)" using len b(3) by linarith
    then have "frame_ok ?f" using assms(2,3) len True unfolding frame_ok_def length_greater_0_conv by (simp del: length_append)
    then show ?thesis using frames_of_encode [of ?f "[]"] True frames_of_wait [of "[]"] by (simp add: frame_head_def)
  next
    case False
    then have "10240 < length (snd ?f)" "length (snd ?f) < 32764" using len b(4) by linarith+
    from frame_too_long [OF this, of "fst ?f"] show ?thesis using False by simp
  qed
  moreover have "int (length (encode_frame ?f)) = NETWORK_PACKET_HEADER_SIZE + m_iBufferSize k + NETWORK_PACKET_TAIL_SIZE"
    using len by (simp add: packet_consts)
  ultimately show ?thesis
    using PacketBufferSend_frame [OF assms(1), of now] le_PacketBufferSend_frame [OF assms(1,4,5), of now] view
    by (simp add: sent_frame_def)
qed

theorem sender_and_receiver_witness:
  "\<exists>P k. m_iBufferSize k = 10240 \<and> (\<exists>bytes. PacketBufferSend 1 P k = Some (5, bytes) \<and> frames_of bytes = ([], bytes, - 3)) \<and>
   (\<exists>P k bytes. PacketBufferSend 1 P k = Some (5, bytes) \<and> frames_of bytes = ([(1, [9, 0, 0, 0, 0, 0, 0, 0, 1])], [], 0))"
proof -
  let ?V = "\<lparr>bev_input = [3 \<mapsto> ()], bev_written = (\<lambda>_. []), loop_break = False\<rparr>"
  have V: "bev_input ?V 3 \<noteq> None" by simp
  have m: "\<exists>P k. packet_ok P k \<and> packet_view P k = (7, 5, 1, d) \<and> m_iBufferSize k = int (length d)"
    if "length d \<le> 10240" for d :: "byte list"
  proof -
    have "0 \<le> int (length d)" "int (length d) \<le> NETWORK_PACKET_BUFFER_MAX_SIZE" "nat (int (length d)) \<le> length d"
      using that by (simp_all add: NETWORK_PACKET_BUFFER_MAX_SIZE_def)
    from AddPacket_ok [OF pool_wf_new this, of 0 7 5 1 queue_Init] obtain k P where
      k: "AddPacket 0 7 5 1 (int (length d)) d queue_Init CPacketMemoryPool_new = Some (queue_add [k] queue_Init, P)"
        "packet_ok P k" "packet_view P k = (7, 5, 1, take (nat (int (length d))) d)" by metis
    have "m_iBufferSize k = int (length d)"
      using k(1) by (auto simp: AddPacket_def NetPacketBuffer_new_def bind_eq_Some_conv queue_add_def queue_Init_def)
    then show ?thesis using k by auto
  qed
  obtain P1 k1 where 1: "packet_ok P1 k1" "packet_view P1 k1 = (7, 5, 1, replicate 10240 0)" "m_iBufferSize k1 = int (length (replicate 10240 (0 :: byte)))"
    using m [of "replicate 10240 0"] by auto
  obtain P2 k2 where 2: "packet_ok P2 k2" "packet_view P2 k2 = (7, 5, 1, [9])" "m_iBufferSize k2 = int (length [9 :: byte])"
    using m [of "[9]"] by auto
  have ts: "be_bytes (1 :: u64) = [0, 0, 0, 0, 0, 0, 0, 1]" by code_simp
  have no: "m_iProtoNo k1 = 1" "m_iProtoNo k2 = 1" "m_iSockFd k1 = 5" "m_iSockFd k2 = 5" using 1(2) 2(2) by (simp_all add: packet_view_def)
  have "\<exists>bytes. PacketBufferSend 1 P1 k1 = Some (5, bytes) \<and> frames_of bytes = ([], bytes, - 3)"
    using sender_and_receiver [OF 1(1) _ _ le_client_simps(5) V, of 1] no 1(3) by auto
  moreover have "\<exists>bytes. PacketBufferSend 1 P2 k2 = Some (5, bytes) \<and> frames_of bytes = ([(1, [9, 0, 0, 0, 0, 0, 0, 0, 1])], [], 0)"
    using sender_and_receiver [OF 2(1) _ _ le_client_simps(5) V, of 1] no 2(2,3) ts by auto
  moreover have "m_iBufferSize k1 = 10240" using 1(3) by simp
  ultimately show ?thesis by blast
qed

end
