(* ===== verification/Config.thy ===== *)
theory Config
  imports Main "HOL-Library.Monad_Syntax" C_String
begin

text \<open>
  Configuration files: the parser and the typed getters of \<open>common/conf/config.cpp\<close>, the server
  address of \<open>network/defines.h\<close> and the settings of \<open>service/gamesvr/gameconf.h\<close>.
  \<^item> A file is the string of its characters, \<open>None\<close> when it cannot be opened.
  \<^item> A \<open>char*\<close> into a line is what is left of the line up to its terminator, so \<open>*p\<close> is
    \<open>peek p\<close> and reads the terminator at the end.
  \<^item> The character classes are those of the C locale.
\<close>

section \<open>Characters and numbers of the C library\<close>

definition isspace :: "char \<Rightarrow> bool" where
  "isspace c \<longleftrightarrow> c \<in> {CHR 0x20, CHR 0x09, CHR 0x0A, CHR 0x0B, CHR 0x0C, CHR 0x0D}"

definition tolower :: "char \<Rightarrow> char" where
  "tolower c = (let n = (of_char c :: nat) in if 65 \<le> n \<and> n \<le> 90 then char_of (n + 32) else c)"

definition NUL :: char where "NUL = CHR 0x00"
definition LF :: char where "LF = CHR 0x0A"

definition peek :: "string \<Rightarrow> char" where
  "peek p = (case p of [] \<Rightarrow> NUL | c # _ \<Rightarrow> c)"

definition digit_value :: "char \<Rightarrow> nat" where
  "digit_value c = (let n = (of_char c :: nat) in
     if 48 \<le> n \<and> n \<le> 57 then n - 48
     else if 97 \<le> n \<and> n \<le> 122 then n - 87
     else if 65 \<le> n \<and> n \<le> 90 then n - 55 else 99)"

definition digits :: "nat \<Rightarrow> string \<Rightarrow> string" where
  "digits base s = takeWhile (\<lambda>c. digit_value c < base) s"

definition number :: "nat \<Rightarrow> string \<Rightarrow> int" where
  "number base s = foldl (\<lambda>n c. n * int base + int (digit_value c)) 0 s"

text \<open>\<open>strtol\<close> with base 0: the value, \<open>None\<close> when no digits were found, clamped to the range of \<open>long\<close>.\<close>

definition strtol :: "string \<Rightarrow> int option" where
  "strtol s =
     (let s = dropWhile isspace s;
          neg = (peek s = CHR ''-'');
          s = (if peek s = CHR ''-'' \<or> peek s = CHR ''+'' then tl s else s);
          (base, ds) = (if peek s = CHR ''0'' \<and> peek (tl s) \<in> {CHR ''x'', CHR ''X''} \<and> digits 16 (drop 2 s) \<noteq> []
                        then (16, digits 16 (drop 2 s))
                        else if peek s = CHR ''0'' then (8, digits 8 s) else (10, digits 10 s));
          n = (if neg then - number base ds else number base ds)
      in if ds = [] then None else Some (max (- (2 ^ 63)) (min (2 ^ 63 - 1) n)))"

section \<open>Values\<close>

type_synonym conf_values = "string \<Rightarrow> string list"

definition makeKey :: "string \<Rightarrow> string \<Rightarrow> string" where
  "makeKey section name = map tolower (section @ ''.'' @ name)"

definition push_value :: "string \<Rightarrow> string \<Rightarrow> conf_values \<Rightarrow> conf_values" where
  "push_value key v m = m(key := m key @ [v])"

definition conf_get :: "string \<Rightarrow> string \<Rightarrow> string \<Rightarrow> conf_values \<Rightarrow> string" where
  "conf_get section name default_value m =
     (let p = m (makeKey section name) in if p = [] then default_value else last p)"

definition getStrings :: "string \<Rightarrow> string \<Rightarrow> conf_values \<Rightarrow> string list" where
  "getStrings section name m = m (makeKey section name)"

definition getInteger :: "string \<Rightarrow> string \<Rightarrow> int \<Rightarrow> conf_values \<Rightarrow> int" where
  "getInteger section name default_value m =
     (case strtol (takeWhile (\<lambda>c. c \<noteq> NUL) (conf_get section name [] m)) of
        Some n \<Rightarrow> n | None \<Rightarrow> default_value)"

definition getBoolean :: "string \<Rightarrow> string \<Rightarrow> bool \<Rightarrow> conf_values \<Rightarrow> bool" where
  "getBoolean section name default_value m =
     (let valstr = map tolower (conf_get section name [] m) in
      if valstr = ''true'' \<or> valstr = ''yes'' \<or> valstr = ''on'' \<or> valstr = ''1'' then True
      else if valstr = ''false'' \<or> valstr = ''no'' \<or> valstr = ''off'' \<or> valstr = ''0'' then False
      else default_value)"

section \<open>The scanner of a line\<close>

record LineScanner =
  ls_p :: string
  ls_err :: bool

definition skipSpaces :: "LineScanner \<Rightarrow> LineScanner" where
  "skipSpaces l = (if ls_err l then l else l\<lparr>ls_p := dropWhile isspace (ls_p l)\<rparr>)"

definition rstrip :: "string \<Rightarrow> string" where
  "rstrip s = rev (dropWhile isspace (rev s))"

definition peekChar :: "LineScanner \<Rightarrow> char \<times> LineScanner" where
  "peekChar l = (let l = skipSpaces l in (peek (ls_p l), l))"

definition ls_skip :: "nat \<Rightarrow> LineScanner \<Rightarrow> LineScanner" where
  "ls_skip i l = l\<lparr>ls_p := drop i (ls_p l)\<rparr>"

definition ls_match :: "char \<Rightarrow> LineScanner \<Rightarrow> LineScanner" where
  "ls_match c l = (let l = skipSpaces l in l\<lparr>ls_p := drop 1 (ls_p l), ls_err := (peek (ls_p l) \<noteq> c)\<rparr>)"

definition consumeTill :: "char \<Rightarrow> LineScanner \<Rightarrow> string \<times> LineScanner" where
  "consumeTill c l =
     (let l = skipSpaces l;
          s = (if ls_err l then [] else takeWhile (\<lambda>x. x \<noteq> c) (ls_p l));
          e = drop (length s) (ls_p l) in
      if peek e \<noteq> c then ([], l\<lparr>ls_err := True\<rparr>)
      else (rstrip s, l\<lparr>ls_p := e\<rparr>))"

fun till_end :: "bool \<Rightarrow> string \<Rightarrow> string" where
  "till_end wasspace [] = []"
| "till_end wasspace (c # s) =
     (if c = CHR '';'' \<or> c = CHR ''#'' then []
      else if wasspace then []
      else c # till_end (isspace c) s)"

definition consumeTillEnd :: "LineScanner \<Rightarrow> string \<times> LineScanner" where
  "consumeTillEnd l =
     (let l = skipSpaces l;
          s = (if ls_err l then [] else till_end False (ls_p l))
      in (rstrip s, l\<lparr>ls_p := drop (length s) (ls_p l)\<rparr>))"

section \<open>Parsing a file\<close>

definition MAX_LINE :: nat where "MAX_LINE = 16 * 1024"

text \<open>\<open>fgets\<close>: up to \<open>n - 1\<close> characters, ending behind a newline.\<close>

fun get_line :: "nat \<Rightarrow> string \<Rightarrow> string \<times> string" where
  "get_line 0 s = ([], s)"
| "get_line (Suc n) [] = ([], [])"
| "get_line (Suc n) (c # s) =
     (if c = LF then ([c], s) else (case get_line n s of (ln, r) \<Rightarrow> (c # ln, r)))"

lemma get_line_length: "get_line n s = (ln, r) \<Longrightarrow> length s = length ln + length r"
  by (induction n s arbitrary: ln rule: get_line.induct) (auto split: if_splits prod.splits)

lemma get_line_progress: "0 < n \<Longrightarrow> s \<noteq> [] \<Longrightarrow> get_line n s = (ln, r) \<Longrightarrow> length r < length s"
  by (cases n; cases s) (auto split: if_splits prod.splits dest: get_line_length)

record parse_state =
  ps_section :: string
  ps_key :: string
  ps_values :: conf_values
  ps_err :: bool

definition parse_line :: "string \<Rightarrow> parse_state \<Rightarrow> parse_state" where
  "parse_line raw st =
     (let ln = takeWhile (\<lambda>c. c \<noteq> NUL) raw;
          (c, ls) = peekChar \<lparr>ls_p = ln, ls_err = False\<rparr> in
      if c = CHR '';'' \<or> c = CHR ''#'' \<or> c = NUL then st
      else if c = CHR ''['' then
        (let (section, ls) = consumeTill (CHR '']'') (ls_skip 1 ls) in
         st\<lparr>ps_section := section, ps_err := ls_err (ls_match (CHR '']'') ls), ps_key := []\<rparr>)
      else if isspace (peek ln) then
        (if ps_key st \<noteq> [] then
           st\<lparr>ps_values := push_value (makeKey (ps_section st) (ps_key st)) (fst (consumeTill NUL ls)) (ps_values st)\<rparr>
         else st\<lparr>ps_err := True\<rparr>)
      else
        (let lsc = ls;
             (key, ls) = consumeTill (CHR ''='') ls;
             (c, ls) = peekChar ls;
             (key, err, ls) =
               (if c = CHR ''='' then (key, ps_err st, ls_skip 1 ls)
                else (let (key, ls) = consumeTill (CHR '':'') lsc; ls = ls_match (CHR '':'') ls
                      in (key, ls_err ls, ls)));
             (v, ls) = consumeTillEnd ls in
         st\<lparr>ps_key := key, ps_err := err, ps_values := push_value (makeKey (ps_section st) key) v (ps_values st)\<rparr>))"

function parse_lines :: "string \<Rightarrow> nat \<Rightarrow> parse_state \<Rightarrow> nat \<times> parse_state" where
  "parse_lines file lineno st =
     (if ps_err st \<or> file = [] then (lineno, st)
      else (let (ln, file') = get_line (MAX_LINE - 1) file in parse_lines file' (Suc lineno) (parse_line ln st)))"
  by pat_completeness auto

termination parse_lines
  by (relation "measure (\<lambda>(file, _). length file)") (auto simp: MAX_LINE_def, metis get_line_progress zero_less_numeral)

declare parse_lines.simps [simp del]

definition conf_parse :: "string option \<Rightarrow> conf_values \<Rightarrow> int \<times> conf_values" where
  "conf_parse file m = (case file of
     None \<Rightarrow> (- 1, m)
   | Some f \<Rightarrow>
       (let (lineno, st) = parse_lines f 0 \<lparr>ps_section = [], ps_key = [], ps_values = m, ps_err = False\<rparr>
        in (if ps_err st then int lineno else 0, ps_values st)))"

definition GameConf_Init :: "bool \<Rightarrow> string option \<Rightarrow> conf_values \<Rightarrow> bool \<times> conf_values" where
  "GameConf_Init exists file m =
     (if \<not> exists then (False, m)
      else let (iError, m) = conf_parse file m in (\<not> iError > 0, m))"

section \<open>The settings of the game server\<close>

record ST_ServerIPInfo =
  m_wServerPort :: u16
  m_achServerIP :: "byte list"

definition ServerIPInfo_new :: ST_ServerIPInfo where
  "ServerIPInfo_new = \<lparr>m_wServerPort = 0, m_achServerIP = replicate 64 0\<rparr>"

definition ServerIPInfo_Init :: "u16 \<Rightarrow> byte list option \<Rightarrow> ST_ServerIPInfo \<Rightarrow> (bool \<times> ST_ServerIPInfo) option" where
  "ServerIPInfo_Init m_wPort pchServerIP i = (case pchServerIP of
     None \<Rightarrow> Some (False, i)
   | Some ip \<Rightarrow>
       if sint m_wPort \<le> 1000 \<or> sint m_wPort \<ge> 65536 then Some (False, i)
       else do {
         a \<leftarrow> c_strncpy (m_achServerIP i) ip (length (m_achServerIP i));
         Some (True, i\<lparr>m_wServerPort := m_wPort, m_achServerIP := a\<rparr>)
       })"

record GameSvrConf =
  m_stServerIPInfo :: ST_ServerIPInfo
  m_stProxyServerIPInfo :: ST_ServerIPInfo
  m_stProxyConnectIPInfo :: ST_ServerIPInfo
  conf_dwHostID :: u32
  conf_dwGameSvrID :: u32
  conf_logger :: "(string \<times> bool) option"

definition bytes_of :: "string \<Rightarrow> byte list" where
  "bytes_of s = map of_char s"

definition init_address :: "string \<Rightarrow> conf_values \<Rightarrow> ST_ServerIPInfo \<Rightarrow> ST_ServerIPInfo option" where
  "init_address section m i =
     map_option snd (ServerIPInfo_Init (word_of_int (getInteger section ''port'' 0 m))
       (Some (bytes_of (conf_get section ''host'' [] m))) i)"

definition InitGameSvrConf :: "bool \<Rightarrow> string option \<Rightarrow> GameSvrConf \<Rightarrow> conf_values \<Rightarrow> (GameSvrConf \<times> conf_values) option" where
  "InitGameSvrConf exists file g m = do {
     let (ok, m) = GameConf_Init exists file m;
     (if \<not> ok then Some (g, m)
      else do {
        let g = g\<lparr>conf_dwHostID := word_of_int (getInteger ''main'' ''host_id'' 0 m),
                  conf_dwGameSvrID := word_of_int (getInteger ''main'' ''gamesvr_id'' 0 m)\<rparr>;
        a \<leftarrow> init_address ''main_server'' m (m_stServerIPInfo g);
        b \<leftarrow> init_address ''proxy_server'' m (m_stProxyServerIPInfo g);
        c \<leftarrow> init_address ''proxy_connect'' m (m_stProxyConnectIPInfo g);
        Some (g\<lparr>m_stServerIPInfo := a, m_stProxyServerIPInfo := b, m_stProxyConnectIPInfo := c,
                conf_logger := Some (conf_get ''log'' ''level'' [] m, getBoolean ''log'' ''console'' False m)\<rparr>, m)
      })
   }"

section \<open>What a file says\<close>

text \<open>
  The reference: a configuration is a sequence of sections, each with its settings; a value is read
  up to the first blank or comment sign.
\<close>

type_synonym document = "(string \<times> (string \<times> string) list) list"

definition print_setting :: "string \<times> string \<Rightarrow> string" where
  "print_setting kv = fst kv @ ''='' @ snd kv @ [LF]"

definition print_section :: "string \<times> (string \<times> string) list \<Rightarrow> string" where
  "print_section s = ''['' @ fst s @ '']'' @ [LF] @ concat (map print_setting (snd s))"

definition print_doc :: "document \<Rightarrow> string" where
  "print_doc doc = concat (map print_section doc)"

definition cut_value :: "string \<Rightarrow> string" where
  "cut_value v = takeWhile (\<lambda>c. \<not> isspace c \<and> c \<noteq> CHR '';'' \<and> c \<noteq> CHR ''#'') (dropWhile isspace v)"

definition settings :: "document \<Rightarrow> (string \<times> string) list" where
  "settings doc = concat (map (\<lambda>(s, kvs). map (\<lambda>(k, v). (makeKey s k, cut_value v)) kvs) doc)"

definition trimmed :: "string \<Rightarrow> bool" where
  "trimmed s \<longleftrightarrow> s = [] \<or> (\<not> isspace (hd s) \<and> \<not> isspace (last s))"

definition on_line :: "string \<Rightarrow> bool" where
  "on_line s \<longleftrightarrow> LF \<notin> set s \<and> NUL \<notin> set s"

definition setting_ok :: "string \<times> string \<Rightarrow> bool" where
  "setting_ok kv \<longleftrightarrow> fst kv \<noteq> [] \<and> trimmed (fst kv) \<and> on_line (fst kv) \<and> CHR ''='' \<notin> set (fst kv) \<and>
     hd (fst kv) \<notin> {CHR '';'', CHR ''#'', CHR ''[''} \<and> on_line (snd kv) \<and> length (fst kv) + length (snd kv) < 16382"

definition section_ok :: "string \<times> (string \<times> string) list \<Rightarrow> bool" where
  "section_ok s \<longleftrightarrow> trimmed (fst s) \<and> on_line (fst s) \<and> CHR '']'' \<notin> set (fst s) \<and> length (fst s) < 16381 \<and>
     (\<forall>kv\<in>set (snd s). setting_ok kv)"

lemma get_line_LF: "LF \<notin> set l \<Longrightarrow> length l < n \<Longrightarrow> get_line n (l @ LF # r) = (l @ [LF], r)"
proof (induction l arbitrary: n)
  case Nil
  then show ?case by (cases n) simp_all
next
  case (Cons c l)
  then show ?case by (cases n) auto
qed

lemma rstrip_Cons: "rstrip (c # s) = (if rstrip s = [] \<and> isspace c then [] else c # rstrip s)"
  by (simp add: rstrip_def dropWhile_append)

lemma rstrip_Nil [simp]: "rstrip [] = []"
  by (simp add: rstrip_def)

lemma rstrip_trimmed: "trimmed s \<Longrightarrow> rstrip s = s"
proof (cases s rule: rev_cases)
  case (snoc t c)
  then show "trimmed s \<Longrightarrow> rstrip s = s" by (simp add: trimmed_def rstrip_def)
qed simp

lemma rstrip_till_end:
  "rstrip (till_end False s) = takeWhile (\<lambda>c. \<not> isspace c \<and> c \<noteq> CHR '';'' \<and> c \<noteq> CHR ''#'') s"
proof (induction s)
  case Nil
  then show ?case by simp
next
  case (Cons c s)
  have "till_end True s = []" by (cases s) simp_all
  then show ?case using Cons by (cases "isspace c") (auto simp: rstrip_Cons)
qed

lemma isspace_simps [simp]: "isspace LF" "\<not> isspace (CHR ''='')" "\<not> isspace (CHR ''['')" "\<not> isspace (CHR '']'')" "\<not> isspace NUL"
  by (simp_all add: isspace_def LF_def NUL_def)

lemma cut_value_line: "rstrip (till_end False (dropWhile isspace (v @ [LF]))) = cut_value v"
proof (cases "\<forall>c\<in>set v. isspace c")
  case True
  then have "dropWhile isspace (v @ [LF]) = []" "dropWhile isspace v = []" by (simp_all add: dropWhile_append)
  then show ?thesis by (simp only: cut_value_def) simp
next
  case False
  then have "dropWhile isspace (v @ [LF]) = dropWhile isspace v @ [LF]" by (auto simp: dropWhile_append1)
  then show ?thesis by (simp add: cut_value_def rstrip_till_end takeWhile_tail)
qed

lemma takeWhile_stop: "c \<notin> set s \<Longrightarrow> takeWhile (\<lambda>x. x \<noteq> c) (s @ c # r) = s"
  by (induction s) auto

lemma NUL_neq [simp]: "CHR ''['' \<noteq> NUL" "CHR '']'' \<noteq> NUL" "LF \<noteq> NUL" "CHR ''='' \<noteq> NUL"
  "NUL \<noteq> CHR ''[''" "NUL \<noteq> CHR '']''" "NUL \<noteq> LF" "NUL \<noteq> CHR ''=''"
  by (simp_all add: NUL_def LF_def)

lemma takeWhile_NUL: "NUL \<notin> set s \<Longrightarrow> takeWhile (\<lambda>c. c \<noteq> NUL) s = s"
  by (auto simp: takeWhile_eq_all_conv)

lemma parse_section_line:
  assumes "trimmed s" "on_line s" "CHR '']'' \<notin> set s" "\<not> ps_err st"
  shows "parse_line (''['' @ s @ '']'' @ [LF]) st = st\<lparr>ps_section := s, ps_key := []\<rparr>"
proof -
  have nul: "takeWhile (\<lambda>c. c \<noteq> NUL) (''['' @ s @ '']'' @ [LF]) = ''['' @ s @ '']'' @ [LF]"
    using assms(2) by (intro takeWhile_NUL) (auto simp: on_line_def)
  have sp: "dropWhile isspace (s @ '']'' @ [LF]) = s @ '']'' @ [LF]"
    using assms(1) by (cases s) (simp_all add: trimmed_def)
  have till: "takeWhile (\<lambda>x. x \<noteq> CHR '']'') (s @ '']'' @ [LF]) = s" using takeWhile_stop [OF assms(3)] by simp
  show ?thesis
    using assms(4) rstrip_trimmed [OF assms(1)]
    by (simp add: parse_line_def nul [simplified] Let_def peekChar_def skipSpaces_def peek_def consumeTill_def ls_skip_def
        sp [simplified] till [simplified] ls_match_def)
qed

lemma parse_setting_line:
  assumes "setting_ok (k, v)" "\<not> ps_err st"
  shows "parse_line (k @ ''='' @ v @ [LF]) st =
    st\<lparr>ps_key := k, ps_values := push_value (makeKey (ps_section st) k) (cut_value v) (ps_values st)\<rparr>"
proof -
  obtain c t where k: "k = c # t" "\<not> isspace c" "c \<notin> {CHR '';'', CHR ''#'', CHR ''['', NUL}"
    using assms(1) by (cases k) (auto simp: setting_ok_def trimmed_def on_line_def)
  have nul: "takeWhile (\<lambda>c. c \<noteq> NUL) (k @ ''='' @ v @ [LF]) = k @ ''='' @ v @ [LF]"
    using assms(1) by (intro takeWhile_NUL) (auto simp: on_line_def setting_ok_def)
  have sp: "dropWhile isspace (k @ ''='' @ v @ [LF]) = k @ ''='' @ v @ [LF]" using k by simp
  have till: "takeWhile (\<lambda>x. x \<noteq> CHR ''='') (k @ ''='' @ v @ [LF]) = k"
    using takeWhile_stop [of "CHR ''=''" k] assms(1) by (simp add: setting_ok_def)
  have pk: "peekChar \<lparr>ls_p = k @ ''='' @ v @ [LF], ls_err = False\<rparr> = (c, \<lparr>ls_p = k @ ''='' @ v @ [LF], ls_err = False\<rparr>)"
    using sp k(1) by (simp add: peekChar_def skipSpaces_def peek_def)
  have con: "consumeTill (CHR ''='') \<lparr>ls_p = k @ ''='' @ v @ [LF], ls_err = False\<rparr> = (k, \<lparr>ls_p = ''='' @ v @ [LF], ls_err = False\<rparr>)"
    using sp till rstrip_trimmed [of k] assms(1)
    by (simp add: consumeTill_def skipSpaces_def Let_def peek_def setting_ok_def)
  obtain l where val: "consumeTillEnd \<lparr>ls_p = v @ [LF], ls_err = False\<rparr> = (cut_value v, l)"
    by (simp add: consumeTillEnd_def skipSpaces_def Let_def cut_value_line)
  have fin: "peekChar \<lparr>ls_p = ''='' @ v @ [LF], ls_err = False\<rparr> = (CHR ''='', \<lparr>ls_p = ''='' @ v @ [LF], ls_err = False\<rparr>)"
    by (simp add: peekChar_def skipSpaces_def peek_def)
  show ?thesis
    unfolding parse_line_def nul Let_def pk prod.case con fin
    using k val assms(2) by (cases st) (simp add: ls_skip_def peek_def)
qed

definition setting_state :: "string \<times> string \<Rightarrow> parse_state \<Rightarrow> parse_state" where
  "setting_state kv st = st\<lparr>ps_key := fst kv,
     ps_values := push_value (makeKey (ps_section st) (fst kv)) (cut_value (snd kv)) (ps_values st)\<rparr>"

definition section_state :: "string \<times> (string \<times> string) list \<Rightarrow> parse_state \<Rightarrow> parse_state" where
  "section_state s st = fold setting_state (snd s) (st\<lparr>ps_section := fst s, ps_key := []\<rparr>)"

lemma parse_lines_step:
  assumes "\<not> ps_err st" "LF \<notin> set l" "length l < 16383"
  shows "parse_lines (l @ LF # r) n st = parse_lines r (Suc n) (parse_line (l @ [LF]) st)"
  using assms get_line_LF [of l 16383 r] by (subst parse_lines.simps) (simp add: MAX_LINE_def)

lemma parse_settings:
  "\<forall>kv\<in>set kvs. setting_ok kv \<Longrightarrow> \<not> ps_err st \<Longrightarrow>
   parse_lines (concat (map print_setting kvs) @ r) n st = parse_lines r (n + length kvs) (fold setting_state kvs st)"
proof (induction kvs arbitrary: n st)
  case Nil
  then show ?case by simp
next
  case (Cons kv kvs)
  obtain k v where kv: "kv = (k, v)" by fastforce
  have ok: "setting_ok (k, v)" using Cons.prems kv by simp
  have l: "LF \<notin> set (k @ ''='' @ v)" "length (k @ ''='' @ v) < 16383"
    using ok by (auto simp: setting_ok_def on_line_def LF_def)
  have st: "parse_line ((k @ ''='' @ v) @ [LF]) st = setting_state kv st"
    using parse_setting_line [OF ok Cons.prems(2)] kv by (simp add: setting_state_def)
  have "\<not> ps_err (setting_state kv st)" using Cons.prems(2) by (simp add: setting_state_def)
  then show ?case
    using Cons.IH [of "setting_state kv st" "Suc n"] Cons.prems parse_lines_step [OF Cons.prems(2) l] st kv
    by (simp add: print_setting_def)
qed

lemma parse_sections:
  "\<forall>s\<in>set doc. section_ok s \<Longrightarrow> \<not> ps_err st \<Longrightarrow>
   \<exists>m. parse_lines (print_doc doc) n st = (m, fold section_state doc st)"
proof (induction doc arbitrary: n st)
  case Nil
  then show ?case by (subst parse_lines.simps) (simp add: print_doc_def)
next
  case (Cons s doc)
  obtain name kvs where s: "s = (name, kvs)" by fastforce
  have ok: "trimmed name" "on_line name" "CHR '']'' \<notin> set name" "length name < 16381" "\<forall>kv\<in>set kvs. setting_ok kv"
    using Cons.prems s by (simp_all add: section_ok_def)
  have l: "LF \<notin> set (''['' @ name @ '']'')" "length (''['' @ name @ '']'') < 16383"
    using ok(2,4) by (auto simp: on_line_def LF_def)
  let ?st = "st\<lparr>ps_section := name, ps_key := []\<rparr>"
  have "parse_lines (print_doc (s # doc)) n st = parse_lines (concat (map print_setting kvs) @ print_doc doc) (Suc n) ?st"
    using parse_lines_step [OF Cons.prems(2) l] parse_section_line [OF ok(1,2,3) Cons.prems(2)] s
    by (simp add: print_doc_def print_section_def)
  also have "\<dots> = parse_lines (print_doc doc) (Suc n + length kvs) (section_state s st)"
    using parse_settings [OF ok(5), of ?st] Cons.prems(2) s by (simp add: section_state_def)
  finally have step: "parse_lines (print_doc (s # doc)) n st = parse_lines (print_doc doc) (Suc n + length kvs) (section_state s st)" .
  have "\<not> ps_err (fold setting_state kvs st')" if "\<not> ps_err st'" for st'
    using that by (induction kvs arbitrary: st') (simp_all add: setting_state_def)
  then have "\<not> ps_err (section_state s st)" using Cons.prems(2) by (simp add: section_state_def s)
  then show ?case using Cons.IH Cons.prems(1) step by simp
qed

definition said :: "string \<Rightarrow> (string \<times> string) list \<Rightarrow> string list" where
  "said key sets = map snd (filter (\<lambda>kv. fst kv = key) sets)"

lemma fold_settings:
  "ps_values (fold setting_state kvs st) key = ps_values st key @ said key (map (\<lambda>(k, v). (makeKey (ps_section st) k, cut_value v)) kvs) \<and>
   ps_err (fold setting_state kvs st) = ps_err st"
  by (induction kvs arbitrary: st) (auto simp: setting_state_def push_value_def said_def split: prod.splits)

lemma fold_sections:
  "ps_values (fold section_state doc st) key = ps_values st key @ said key (settings doc) \<and>
   ps_err (fold section_state doc st) = ps_err st"
proof (induction doc arbitrary: st)
  case Nil
  then show ?case by (simp add: settings_def said_def)
next
  case (Cons s doc)
  have "ps_values (section_state s st) key = ps_values st key @ said key (map (\<lambda>(k, v). (makeKey (fst s) k, cut_value v)) (snd s))"
    "ps_err (section_state s st) = ps_err st"
    using fold_settings [of "snd s" "st\<lparr>ps_section := fst s, ps_key := []\<rparr>" key] by (simp_all add: section_state_def)
  then show ?case using Cons [of "section_state s st"] by (auto simp: settings_def said_def split: prod.splits)
qed

text \<open>
  C16. Reading a configuration file. For every sequence of sections and settings written out
  line by line, whatever the values are, the parser succeeds and stores for each key, upper and lower case
  not distinguished, the values of all its settings in order behind those it had, each cut at the first blank
  or comment sign; \<open>get\<close> returns the last one, and the default exactly when there is none.
\<close>

theorem config_round_trip:
  assumes "\<forall>s\<in>set doc. section_ok s"
  shows "\<exists>m'. conf_parse (Some (print_doc doc)) m = (0, m') \<and>
    (\<forall>key. m' key = m key @ said key (settings doc)) \<and>
    (\<forall>sec name d. conf_get sec name d m' =
       (if m (makeKey sec name) @ said (makeKey sec name) (settings doc) = [] then d
        else last (m (makeKey sec name) @ said (makeKey sec name) (settings doc))))"
proof -
  let ?st = "\<lparr>ps_section = [], ps_key = [], ps_values = m, ps_err = False\<rparr>"
  obtain n where "parse_lines (print_doc doc) 0 ?st = (n, fold section_state doc ?st)"
    using parse_sections [OF assms, of ?st 0] by auto
  then show ?thesis
    using fold_sections [of doc ?st] by (auto simp: conf_parse_def conf_get_def Let_def)
qed

theorem config_round_trip_witness:
  "\<exists>m'. conf_parse (Some (print_doc [(''main_server'', [(''port'', '' 10002''), (''Host'', ''my host # x'')])])) (\<lambda>_. []) = (0, m') \<and>
     conf_get ''MAIN_server'' ''PORT'' [] m' = ''10002'' \<and> conf_get ''main_server'' ''host'' [] m' = ''my''"
proof -
  let ?doc = "[(''main_server'', [(''port'', '' 10002''), (''Host'', ''my host # x'')])]"
  have ok: "\<forall>s\<in>set ?doc. section_ok s"
    by (simp add: section_ok_def setting_ok_def trimmed_def on_line_def isspace_def LF_def NUL_def)
  have "settings ?doc = [(''main_server.port'', ''10002''), (''main_server.host'', ''my'')]" by code_simp
  moreover have "makeKey ''MAIN_server'' ''PORT'' = ''main_server.port''" "makeKey ''main_server'' ''host'' = ''main_server.host''"
    by code_simp+
  ultimately show ?thesis using config_round_trip [OF ok, of "\<lambda>_. []"] by (auto simp: said_def)
qed

section \<open>Ports\<close>



end
