(* ===== verification/Hand_Over.thy ===== *)
theory Hand_Over
  imports Network
begin

text \<open>
  How packets pass from the network thread to the logic thread, as interleaved steps of the two:
  \<open>UnpackPacketToRecvQueue\<close> (\<open>network/context.h\<close>) on one side, \<open>_ProcessCSNetworkPacket\<close>
  (\<open>service/gamesvr/gamelogic.cpp\<close>) on the other, and the signal object (\<open>common/signal.cpp\<close>) between them.
  \<^item> A step is what a thread does under one lock: moving packets to the receive queue, raising the signal,
    testing and clearing it, taking the receive queue. The preparation queue and the logic queue belong to one thread each.
  \<^item> \<open>ho_in\<close> and \<open>ho_out\<close> are histories: all packets parsed, and all packets handled.
\<close>

section \<open>Steps\<close>

datatype net_pc = Net_Idle | Net_Emit

datatype logic_pc = Logic_Idle | Logic_Copy | Logic_Handle

record hand_over =
  ho_ctx :: NetworkContext
  ho_net :: net_pc
  ho_logic :: logic_pc
  ho_in :: "NetPacketBuffer list"
  ho_out :: "NetPacketBuffer list"

definition hand_start :: hand_over where
  "hand_start = \<lparr>ho_ctx = NetworkContext_new, ho_net = Net_Idle, ho_logic = Logic_Idle, ho_in = [], ho_out = []\<rparr>"

text \<open>
  The network thread: the packets of a sound buffer go to the receive queue, and when there are any the
  signal is raised afterwards; those before a fault stay in the preparation queue, and it is not.
\<close>

definition parse_step :: "bool \<Rightarrow> NetPacketBuffer list \<Rightarrow> hand_over \<Rightarrow> hand_over" where
  "parse_step fault ks s =
     (let N = (ho_ctx s)\<lparr>m_stNetPacketRecvPrepareQueue := queue_add ks (m_stNetPacketRecvPrepareQueue (ho_ctx s))\<rparr> in
      if fault then s\<lparr>ho_ctx := N, ho_in := ho_in s @ ks\<rparr>
      else s\<lparr>ho_ctx := snd (PacketRecvPrepare N), ho_in := ho_in s @ ks, ho_net := (if ks = [] then Net_Idle else Net_Emit)\<rparr>)"

definition emit_step :: "hand_over \<Rightarrow> hand_over" where
  "emit_step s = s\<lparr>ho_ctx := (ho_ctx s)\<lparr>m_stSignalExec := Emit (m_stSignalExec (ho_ctx s))\<rparr>, ho_net := Net_Idle\<rparr>"

text \<open>The logic thread: test the signal, take the queue, handle the packets and release them.\<close>

definition logic_step :: "hand_over \<Rightarrow> hand_over" where
  "logic_step s = (case ho_logic s of
     Logic_Idle \<Rightarrow>
       (let (b, g) = CheckAndSetSignalActived (m_stSignalExec (ho_ctx s))
        in s\<lparr>ho_ctx := (ho_ctx s)\<lparr>m_stSignalExec := g\<rparr>, ho_logic := (if b then Logic_Copy else Logic_Idle)\<rparr>)
   | Logic_Copy \<Rightarrow> s\<lparr>ho_ctx := snd (CopyPacketsFromNetToLogic (ho_ctx s)), ho_logic := Logic_Handle\<rparr>
   | Logic_Handle \<Rightarrow>
       s\<lparr>ho_out := ho_out s @ m_vecPacketPool (m_stNetPacketLogicQueue (ho_ctx s)),
         ho_ctx := (ho_ctx s)\<lparr>m_stNetPacketLogicQueue := (m_stNetPacketLogicQueue (ho_ctx s))\<lparr>m_vecPacketPool := []\<rparr>\<rparr>,
         ho_logic := Logic_Idle\<rparr>)"

text \<open>\<open>faults\<close> says whether malformed buffers occur.\<close>

inductive hand_step :: "bool \<Rightarrow> hand_over \<Rightarrow> hand_over \<Rightarrow> bool" for faults where
  parse: "ho_net s = Net_Idle \<Longrightarrow> fault \<longrightarrow> faults \<Longrightarrow> hand_step faults s (parse_step fault ks s)"
| emit: "ho_net s = Net_Emit \<Longrightarrow> hand_step faults s (emit_step s)"
| logic: "hand_step faults s (logic_step s)"

inductive_cases hand_stepE: "hand_step faults s s'"

section \<open>Invariant\<close>

abbreviation ho_recv :: "hand_over \<Rightarrow> NetPacketBuffer list" where
  "ho_recv s \<equiv> m_vecPacketPool (m_stNetPacketRecvQueue (ho_ctx s))"

abbreviation ho_prepare :: "hand_over \<Rightarrow> NetPacketBuffer list" where
  "ho_prepare s \<equiv> m_vecPacketPool (m_stNetPacketRecvPrepareQueue (ho_ctx s))"

abbreviation ho_taken :: "hand_over \<Rightarrow> NetPacketBuffer list" where
  "ho_taken s \<equiv> m_vecPacketPool (m_stNetPacketLogicQueue (ho_ctx s))"

abbreviation ho_signal :: "hand_over \<Rightarrow> bool" where
  "ho_signal s \<equiv> m_bHasSignal (m_stSignalExec (ho_ctx s))"

definition hand_inv :: "hand_over \<Rightarrow> bool" where
  "hand_inv s \<longleftrightarrow> queue_exact (m_stNetPacketRecvQueue (ho_ctx s)) \<and>
     ho_in s = ho_out s @ ho_taken s @ ho_recv s @ ho_prepare s \<and>
     (ho_logic s \<noteq> Logic_Handle \<longrightarrow> ho_taken s = [])"

definition wake_inv :: "hand_over \<Rightarrow> bool" where
  "wake_inv s \<longleftrightarrow> ho_prepare s = [] \<and>
     (ho_recv s \<noteq> [] \<longrightarrow> ho_signal s \<or> ho_net s = Net_Emit \<or> ho_logic s = Logic_Copy)"

lemma hand_inv_start: "hand_inv hand_start" "wake_inv hand_start"
  by (simp_all add: hand_inv_def wake_inv_def hand_start_def NetworkContext_new_def)

lemma PacketRecvPrepare_exact:
  "queue_exact (m_stNetPacketRecvQueue N) \<Longrightarrow> snd (PacketRecvPrepare N) = N\<lparr>m_stNetPacketRecvQueue :=
     queue_of (m_vecPacketPool (m_stNetPacketRecvQueue N) @ m_vecPacketPool (m_stNetPacketRecvPrepareQueue N)), m_stNetPacketRecvPrepareQueue := queue_Init\<rparr>"
  using CopyFrom_wf [OF queue_exact_wf, of "m_stNetPacketRecvQueue N" "m_stNetPacketRecvPrepareQueue N"]
  by (simp add: PacketRecvPrepare_def)

lemma CopyPackets_exact: "snd (CopyPacketsFromNetToLogic N) = N\<lparr>m_stNetPacketLogicQueue := queue_of (m_vecPacketPool (m_stNetPacketRecvQueue N)),
    m_stNetPacketRecvQueue := queue_Init\<rparr>"
  using CopyFrom_wf [of queue_Init "m_stNetPacketRecvQueue N"] by (simp add: CopyPacketsFromNetToLogic_def)

lemma hand_inv_step: "hand_step faults s s' \<Longrightarrow> hand_inv s \<Longrightarrow> hand_inv s'"
  by (erule hand_stepE; cases "ho_logic s")
     (auto simp: hand_inv_def parse_step_def emit_step_def logic_step_def PacketRecvPrepare_exact CopyPackets_exact CheckAndSetSignalActived_def Let_def)

lemma wake_inv_step: "hand_step False s s' \<Longrightarrow> hand_inv s \<Longrightarrow> wake_inv s \<Longrightarrow> wake_inv s'"
  by (erule hand_stepE; cases "ho_logic s")
     (auto simp: hand_inv_def wake_inv_def parse_step_def emit_step_def logic_step_def PacketRecvPrepare_exact CopyPackets_exact
        CheckAndSetSignalActived_def Emit_def Let_def)

lemma hand_inv_reachable:
  assumes "(hand_step faults)\<^sup>*\<^sup>* hand_start s"
  shows "hand_inv s \<and> (\<not> faults \<longrightarrow> wake_inv s)"
  using assms
proof (induction rule: rtranclp_induct)
  case base
  show ?case by (simp add: hand_inv_start)
next
  case (step s s')
  then show ?case by (auto intro: hand_inv_step wake_inv_step)
qed

text \<open>While the network thread rests, four steps of the logic thread drain the queues.\<close>

lemma logic_drains:
  assumes "hand_inv s" "wake_inv s" "ho_net s = Net_Idle"
  shows "ho_out ((logic_step ^^ 4) s) = ho_in s"
  using assms
  by (cases "ho_logic s"; cases "ho_signal s")
     (auto simp: hand_inv_def wake_inv_def logic_step_def CopyPackets_exact CheckAndSetSignalActived_def numeral_eq_Suc)

text \<open>
  C6. No packet is lost or handled twice, and without faults no wake-up is missed. In every state the two threads
  can reach, in whatever order their steps are interleaved, the packets parsed so far are those
  handled, those the logic has taken, those in the receive queue and those still in preparation, in
  this order. As long as no malformed buffer has occurred, a non-empty receive queue means that the signal is
  set, or about to be raised, or that the logic is about to take the queue; and whenever the
  network thread is idle, four steps of the logic thread handle everything that was parsed.
\<close>

theorem no_packet_lost:
  assumes "(hand_step faults)\<^sup>*\<^sup>* hand_start s"
  shows "ho_in s = ho_out s @ ho_taken s @ ho_recv s @ ho_prepare s \<and>
    (\<not> faults \<longrightarrow> (ho_recv s \<noteq> [] \<longrightarrow> ho_signal s \<or> ho_net s = Net_Emit \<or> ho_logic s = Logic_Copy) \<and>
       (ho_net s = Net_Idle \<longrightarrow> ho_out ((logic_step ^^ 4) s) = ho_in s))"
  using hand_inv_reachable [OF assms] logic_drains [of s] unfolding hand_inv_def wake_inv_def by blast

abbreviation a_packet :: NetPacketBuffer where
  "a_packet \<equiv> NetPacketBuffer_new_empty 0 0 0 0 0"

theorem no_packet_lost_witness:
  "\<exists>s. (hand_step False)\<^sup>*\<^sup>* hand_start s \<and> ho_in s = [a_packet] \<and> ho_out s = [] \<and> ho_out ((logic_step ^^ 4) s) = [a_packet]"
proof -
  let ?s = "emit_step (parse_step False [a_packet] hand_start)"
  have p: "ho_net hand_start = Net_Idle" by (simp add: hand_start_def)
  have e: "ho_net (parse_step False [a_packet] hand_start) = Net_Emit" by (simp add: parse_step_def Let_def)
  have r: "(hand_step False)\<^sup>*\<^sup>* hand_start ?s"
    using hand_step.parse [OF p, of False False "[a_packet]"] hand_step.emit [OF e, of False] by auto
  have "ho_net ?s = Net_Idle" "ho_in ?s = [a_packet]" "ho_out ?s = []"
    by (simp_all add: emit_step_def parse_step_def hand_start_def Let_def)
  then show ?thesis using no_packet_lost [OF r] r by (intro exI [of _ ?s]) simp
qed

lemma logic_step_asleep:
  assumes "ho_logic s = Logic_Idle" "\<not> ho_signal s"
  shows "(logic_step ^^ n) s = s"
proof (induction n)
  case 0
  then show ?case by simp
next
  case (Suc n)
  have "logic_step s = s" using assms by (simp add: logic_step_def CheckAndSetSignalActived_def)
  then show ?case using Suc by (simp add: funpow_swap1)
qed


end
