(* ===== verification/Proto_Handle.thy ===== *)
theory Proto_Handle
  imports Server_Logic
begin

text \<open>
  The protocol handlers of the game server (\<open>service/gamesvr/net/handle.cpp\<close>), the messages of
  \<open>proto/src/hello.proto\<close> and the loop of \<open>service/gamesvr/gamelogic.cpp\<close> that hands queued packets to
  a handler.
  \<^item> The code that protobuf generates is a parameter, the record \<open>protobuf\<close>; \<open>codec_ok\<close> is its documented
    contract: \<open>SerializeToArray\<close> fills exactly the \<open>ByteSizeLong\<close> bytes.
  \<^item> Readings of the clock are arguments: a pair of the time the handler reads and of the time the
    packet it produces is stamped with.
  \<^item> The locales \<open>packet_handler\<close> and \<open>packet_sender\<close> are the two interfaces the loop relies on. The loop
    is proved once, for both protocols and for servers and connectors.
\<close>

section \<open>Messages\<close>

record CSHello =
  hello_id :: int
  hello_content :: "byte list"

record CSHelloRsp =
  rsp_id :: int
  rsp_content :: "byte list"
  rsp_unpack_timestamp :: u64
  rsp_logic_timestamp :: u64

record SSHello =
  hello_timestamp :: u64

record SSHelloRsp =
  rsp_timestamp :: u64

record protobuf =
  CSHello_ParseFromArray :: "byte list \<Rightarrow> CSHello"
  CSHelloRsp_ByteSizeLong :: "CSHelloRsp \<Rightarrow> int"
  CSHelloRsp_SerializeToArray :: "CSHelloRsp \<Rightarrow> int \<Rightarrow> byte list"
  SSHello_ParseFromArray :: "byte list \<Rightarrow> SSHello"
  SSHello_ByteSizeLong :: "SSHello \<Rightarrow> int"
  SSHello_SerializeToArray :: "SSHello \<Rightarrow> int \<Rightarrow> byte list"
  SSHelloRsp_ParseFromArray :: "byte list \<Rightarrow> SSHelloRsp"
  SSHelloRsp_ByteSizeLong :: "SSHelloRsp \<Rightarrow> int"
  SSHelloRsp_SerializeToArray :: "SSHelloRsp \<Rightarrow> int \<Rightarrow> byte list"

definition codec_ok :: "('m \<Rightarrow> int) \<Rightarrow> ('m \<Rightarrow> int \<Rightarrow> byte list) \<Rightarrow> bool" where
  "codec_ok ByteSizeLong SerializeToArray \<longleftrightarrow>
     (\<forall>m. 0 \<le> ByteSizeLong m \<and> length (SerializeToArray m (ByteSizeLong m)) = nat (ByteSizeLong m))"

definition CS_PROTOCOL_MESSAGE_ID_HELLO :: int where "CS_PROTOCOL_MESSAGE_ID_HELLO = 1"
definition SS_PROTOCOL_MESSAGE_ID_HELLO :: int where "SS_PROTOCOL_MESSAGE_ID_HELLO = 20001"
definition SS_PROTOCOL_MESSAGE_ID_HELLO_RSP :: int where "SS_PROTOCOL_MESSAGE_ID_HELLO_RSP = 20002"

section \<open>Handlers\<close>

definition UnpackProtobufStruct ::
    "(byte list \<Rightarrow> 'm) \<Rightarrow> byte list \<Rightarrow> int \<Rightarrow> 'm option" where
  "UnpackProtobufStruct ParseFromArray buffer iBufferSize = do {
     d \<leftarrow> mem_read buffer 0 (nat iBufferSize);
     Some (ParseFromArray d)
   }"

definition HandleCSProtoHello ::
    "protobuf \<Rightarrow> u64 \<times> u64 \<Rightarrow> NetPacketBuffer \<Rightarrow> NetworkContext \<Rightarrow> CPacketMemoryPool
     \<Rightarrow> (NetworkContext \<times> CPacketMemoryPool) option" where
  "HandleCSProtoHello C t rstPacket N P = do {
     let dwLogicTime = fst t;
     buf \<leftarrow> packet_GetBuffer P rstPacket;
     stHello \<leftarrow> UnpackProtobufStruct (CSHello_ParseFromArray C) buf (m_iBufferSize rstPacket);
     let stHelloRsp = \<lparr>rsp_id = hello_id stHello, rsp_content = hello_content stHello,
       rsp_unpack_timestamp = m_dwCreateTime rstPacket, rsp_logic_timestamp = dwLogicTime\<rparr>;
     (_, N, P) \<leftarrow> PacketProduceProtobufPacket (CSHelloRsp_ByteSizeLong C) (CSHelloRsp_SerializeToArray C) (snd t)
       (m_ulClientSeq rstPacket) (m_iSockFd rstPacket) CS_PROTOCOL_MESSAGE_ID_HELLO stHelloRsp N P;
     Some (N, P)
   }"

definition HandleSSProtoHello ::
    "protobuf \<Rightarrow> u64 \<times> u64 \<Rightarrow> NetPacketBuffer \<Rightarrow> NetworkContext \<Rightarrow> CPacketMemoryPool
     \<Rightarrow> (NetworkContext \<times> CPacketMemoryPool) option" where
  "HandleSSProtoHello C t rstPacket N P = do {
     buf \<leftarrow> packet_GetBuffer P rstPacket;
     stHello \<leftarrow> UnpackProtobufStruct (SSHello_ParseFromArray C) buf (m_iBufferSize rstPacket);
     let stHelloRsp = \<lparr>rsp_timestamp = fst t\<rparr>;
     (_, N, P) \<leftarrow> PacketProduceProtobufPacket (SSHelloRsp_ByteSizeLong C) (SSHelloRsp_SerializeToArray C) (snd t)
       (m_ulClientSeq rstPacket) (m_iSockFd rstPacket) SS_PROTOCOL_MESSAGE_ID_HELLO_RSP stHelloRsp N P;
     Some (N, P)
   }"

definition HandleSSProtoHelloRsp ::
    "protobuf \<Rightarrow> NetPacketBuffer \<Rightarrow> CPacketMemoryPool \<Rightarrow> SSHelloRsp option" where
  "HandleSSProtoHelloRsp C rstPacket P = do {
     buf \<leftarrow> packet_GetBuffer P rstPacket;
     UnpackProtobufStruct (SSHelloRsp_ParseFromArray C) buf (m_iBufferSize rstPacket)
   }"

definition HandleSSProtoExecute ::
    "protobuf \<Rightarrow> u64 \<times> u64 \<Rightarrow> NetPacketBuffer \<Rightarrow> NetworkContext \<Rightarrow> CPacketMemoryPool
     \<Rightarrow> (NetworkContext \<times> CPacketMemoryPool) option" where
  "HandleSSProtoExecute C t rstPacket N P =
     (if m_iProtoNo rstPacket = SS_PROTOCOL_MESSAGE_ID_HELLO then HandleSSProtoHello C t rstPacket N P
      else if m_iProtoNo rstPacket = SS_PROTOCOL_MESSAGE_ID_HELLO_RSP then do {
        _ \<leftarrow> HandleSSProtoHelloRsp C rstPacket P;
        Some (N, P)
      }
      else Some (N, P))"

definition HandleCSProto ::
    "protobuf \<Rightarrow> u64 \<times> u64 \<Rightarrow> NetPacketBuffer \<Rightarrow> NetworkContext \<Rightarrow> CPacketMemoryPool
     \<Rightarrow> (NetworkContext \<times> CPacketMemoryPool) option" where
  "HandleCSProto C t rstPacket N P =
     (if m_iProtoNo rstPacket = CS_PROTOCOL_MESSAGE_ID_HELLO then HandleCSProtoHello C t rstPacket N P
      else Some (N, P))"

section \<open>The loop over the queued packets\<close>

text \<open>
  Both handle functions of the logic walk through the logic queue by index, let the owner of the
  queue send, and release the packets. \<open>flush\<close> tells after which packets the owner is asked to send in
  between.
\<close>

type_synonym packet_handle =
  "u64 \<times> u64 \<Rightarrow> NetPacketBuffer \<Rightarrow> NetworkContext \<Rightarrow> CPacketMemoryPool \<Rightarrow> (NetworkContext \<times> CPacketMemoryPool) option"

fun handle_loop ::
    "packet_handle \<Rightarrow> (nat \<Rightarrow> bool) \<Rightarrow> (NetworkContext \<Rightarrow> 'w \<Rightarrow> (NetworkContext \<times> 'w) option) \<Rightarrow> (nat \<Rightarrow> u64 \<times> u64)
     \<Rightarrow> nat \<Rightarrow> NetPacketBuffer list \<Rightarrow> NetworkContext \<Rightarrow> CPacketMemoryPool \<Rightarrow> 'w
     \<Rightarrow> (NetworkContext \<times> CPacketMemoryPool \<times> 'w) option" where
  "handle_loop handle flush send clock i [] N P W = Some (N, P, W)"
| "handle_loop handle flush send clock i (k # ks) N P W = do {
     (N, P) \<leftarrow> handle (clock i) k N P;
     (N, W) \<leftarrow> (if flush i then send N W else Some (N, W));
     handle_loop handle flush send clock (Suc i) ks N P W
   }"

definition ProcessPackets ::
    "packet_handle \<Rightarrow> (nat \<Rightarrow> bool) \<Rightarrow> (NetworkContext \<Rightarrow> 'w \<Rightarrow> (NetworkContext \<times> 'w) option) \<Rightarrow> (nat \<Rightarrow> u64 \<times> u64)
     \<Rightarrow> int \<Rightarrow> NetworkContext \<Rightarrow> CPacketMemoryPool \<Rightarrow> 'w \<Rightarrow> (NetworkContext \<times> CPacketMemoryPool \<times> 'w) option" where
  "ProcessPackets handle flush send clock iPacketNum N P W =
     (let vec = m_vecPacketPool (m_stNetPacketLogicQueue N) in
      if iPacketNum \<noteq> queue_Size (m_stNetPacketLogicQueue N) then None
      else if length vec < nat iPacketNum then None
      else do {
        (N, P, W) \<leftarrow> handle_loop handle flush send clock 0 (take (nat iPacketNum) vec) N P W;
        (N, W) \<leftarrow> send N W;
        (q, P) \<leftarrow> ReleaseAllPackets (m_stNetPacketLogicQueue N) P;
        Some (N\<lparr>m_stNetPacketLogicQueue := q\<rparr>, P, W)
      })"

text \<open>
  What the logic does for a context whose signal is set: the body shared by \<open>_ProcessCSNetworkPacket\<close>
  and both branches of \<open>_ProcessSSNetworkPacket\<close>. The result is the number of packets handled.
\<close>

definition logic_turn ::
    "packet_handle \<Rightarrow> (nat \<Rightarrow> bool) \<Rightarrow> (NetworkContext \<Rightarrow> 'w \<Rightarrow> (NetworkContext \<times> 'w) option) \<Rightarrow> (nat \<Rightarrow> u64 \<times> u64)
     \<Rightarrow> NetworkContext \<Rightarrow> CPacketMemoryPool \<Rightarrow> 'w \<Rightarrow> (int \<times> NetworkContext \<times> CPacketMemoryPool \<times> 'w) option" where
  "logic_turn handle flush send clock N P W =
     (let (b, s) = CheckAndSetSignalActived (m_stSignalExec N); N = N\<lparr>m_stSignalExec := s\<rparr> in
      if \<not> b then Some (0, N, P, W)
      else let (iPacketNum, N) = CopyPacketsFromNetToLogic N in do {
        (N, P, W) \<leftarrow> ProcessPackets handle flush send clock iPacketNum N P W;
        Some (iPacketNum, N, P, W)
      })"

section \<open>Producing a packet\<close>

definition packet_fits :: "packet \<Rightarrow> bool" where
  "packet_fits v \<longleftrightarrow> length (snd (snd (snd v))) \<le> 10240"

lemma AddPacket_too_big:
  assumes "pool_wf P L" "10240 < n"
  shows "AddPacket now seq sock pno n src q P = None"
  using pool_acquire_limit [of n P L src] assms
  by (cases "GetFreePacketMemory P")
     (auto simp: AddPacket_def pool_acquire_def NetPacketBuffer_new_def packet_consts split: bind_splits)

lemma produce_packet:
  assumes "pool_wf P L" "codec_ok sz ser" and v_def: "v = (seq, sock, pno, ser m (sz m))"
  shows "packet_fits v \<Longrightarrow> \<exists>k P'. PacketProduceProtobufPacket sz ser now seq sock pno m N P =
      Some (True, N\<lparr>m_stNetPacketSendPrepareQueue := queue_add [k] (m_stNetPacketSendPrepareQueue N)\<rparr>, P') \<and>
      fresh_packets P L [k] [v] P'"
    and "\<not> packet_fits v \<Longrightarrow> PacketProduceProtobufPacket sz ser now seq sock pno m N P = None"
proof -
  let ?d = "ser m (sz m)"
  have c: "0 \<le> sz m" "length ?d = nat (sz m)" using assms(2) by (simp_all add: codec_ok_def)
  have w: "mem_write (replicate (nat (sz m)) 0) 0 ?d = Some ?d" using c(2) by (simp add: mem_write_Some)
  show "\<exists>k P'. PacketProduceProtobufPacket sz ser now seq sock pno m N P =
      Some (True, N\<lparr>m_stNetPacketSendPrepareQueue := queue_add [k] (m_stNetPacketSendPrepareQueue N)\<rparr>, P') \<and>
      fresh_packets P L [k] [v] P'" if fit: "packet_fits v"
  proof -
    have n: "sz m \<le> NETWORK_PACKET_BUFFER_MAX_SIZE" "nat (sz m) \<le> length ?d"
      using fit c by (simp_all add: packet_fits_def v_def packet_consts)
    obtain k P' where k: "AddPacket now seq sock pno (sz m) ?d (m_stNetPacketSendPrepareQueue N) P =
          Some (queue_add [k] (m_stNetPacketSendPrepareQueue N), P')"
        "packet_ptr k \<notin> L" "pool_wf P' (insert (packet_ptr k) L)" "packet_ok P' k"
        "packet_view P' k = (seq, sock, pno, take (nat (sz m)) ?d)" "\<forall>q\<in>L. pool_fetch P' q = pool_fetch P q"
      by (rule AddPacket_ok [OF assms(1) c(1) n])
    then show ?thesis
      using w c(2) by (auto simp: PacketProduceProtobufPacket_def PackProtobufStruct_def fresh_packets_def v_def Let_def)
  qed
  show "PacketProduceProtobufPacket sz ser now seq sock pno m N P = None" if "\<not> packet_fits v"
    using that w c AddPacket_too_big [OF assms(1), of "sz m"]
    by (simp add: PacketProduceProtobufPacket_def PackProtobufStruct_def packet_fits_def v_def Let_def)
qed

definition packet_payload :: "CPacketMemoryPool \<Rightarrow> NetPacketBuffer \<Rightarrow> byte list" where
  "packet_payload P k = snd (snd (snd (packet_view P k)))"

lemma packet_body:
  assumes "packet_ok P k"
  obtains b where "packet_GetBuffer P k = Some b"
    "UnpackProtobufStruct parse b (m_iBufferSize k) = Some (parse (packet_payload P k))"
proof -
  obtain p b where k: "m_pstMemory k = Some p" "pool_fetch P p = Some b" "nat (m_iBufferSize k) \<le> length b"
    using assms by (auto simp: packet_ok_def packet_ptr_def)
  then show ?thesis
    using that [of b]
    by (auto simp: packet_GetBuffer_def pool_fetch_def packet_view_def packet_payload_def packet_ptr_def
        UnpackProtobufStruct_def mem_read_def)
qed

section \<open>The interfaces of the loop\<close>

text \<open>
  A handler answers a packet with the packets \<open>reply\<close>, which it appends to the queue of packets to be
  sent, each in memory of its own; when one of them does not fit into a packet it fails.
\<close>

locale packet_handler =
  fixes handle :: packet_handle
    and reply :: "u64 \<times> u64 \<Rightarrow> CPacketMemoryPool \<Rightarrow> NetPacketBuffer \<Rightarrow> packet list"
    and contract :: bool
  assumes handle_fits: "contract \<Longrightarrow> pool_wf P L \<Longrightarrow> packet_ok P k \<Longrightarrow> \<forall>v\<in>set (reply t P k). packet_fits v \<Longrightarrow>
      \<exists>js P'. handle t k N P =
          Some (N\<lparr>m_stNetPacketSendPrepareQueue := queue_add js (m_stNetPacketSendPrepareQueue N)\<rparr>, P') \<and>
        fresh_packets P L js (reply t P k) P'"
    and handle_too_big: "contract \<Longrightarrow> pool_wf P L \<Longrightarrow> packet_ok P k \<Longrightarrow> v \<in> set (reply t P k) \<Longrightarrow> \<not> packet_fits v \<Longrightarrow>
      handle t k N P = None"
    and reply_frame: "pool_fetch P' (packet_ptr k) = pool_fetch P (packet_ptr k) \<Longrightarrow> reply t P' k = reply t P k"

text \<open>
  An owner of the queues that is \<open>ready\<close> moves what was produced to the send queue, \<open>posts\<close> the
  command to send it, and stays ready.
\<close>

locale packet_sender =
  fixes send :: "NetworkContext \<Rightarrow> 'w \<Rightarrow> (NetworkContext \<times> 'w) option"
    and ready :: "'w \<Rightarrow> bool"
    and posted :: "'w \<Rightarrow> bool"
  assumes send_ready: "ready W \<Longrightarrow> \<exists>W'. send N W = Some (snd (PacketSendPrepare N), W') \<and> ready W' \<and> posted W'"

definition hello_answer :: "protobuf \<Rightarrow> u64 \<Rightarrow> CPacketMemoryPool \<Rightarrow> NetPacketBuffer \<Rightarrow> CSHelloRsp" where
  "hello_answer C now P k =
     (let hello = CSHello_ParseFromArray C (packet_payload P k)
      in \<lparr>rsp_id = hello_id hello, rsp_content = hello_content hello,
          rsp_unpack_timestamp = m_dwCreateTime k, rsp_logic_timestamp = now\<rparr>)"

definition cs_reply :: "protobuf \<Rightarrow> u64 \<times> u64 \<Rightarrow> CPacketMemoryPool \<Rightarrow> NetPacketBuffer \<Rightarrow> packet list" where
  "cs_reply C t P k =
     (if m_iProtoNo k = CS_PROTOCOL_MESSAGE_ID_HELLO then
        [(m_ulClientSeq k, m_iSockFd k, CS_PROTOCOL_MESSAGE_ID_HELLO,
          let rsp = hello_answer C (fst t) P k in CSHelloRsp_SerializeToArray C rsp (CSHelloRsp_ByteSizeLong C rsp))]
      else [])"

definition ss_reply :: "protobuf \<Rightarrow> u64 \<times> u64 \<Rightarrow> CPacketMemoryPool \<Rightarrow> NetPacketBuffer \<Rightarrow> packet list" where
  "ss_reply C t P k =
     (if m_iProtoNo k = SS_PROTOCOL_MESSAGE_ID_HELLO then
        [(m_ulClientSeq k, m_iSockFd k, SS_PROTOCOL_MESSAGE_ID_HELLO_RSP,
          let rsp = \<lparr>rsp_timestamp = fst t\<rparr> in SSHelloRsp_SerializeToArray C rsp (SSHelloRsp_ByteSizeLong C rsp))]
      else [])"

abbreviation cs_codec :: "protobuf \<Rightarrow> bool" where
  "cs_codec C \<equiv> codec_ok (CSHelloRsp_ByteSizeLong C) (CSHelloRsp_SerializeToArray C)"

abbreviation ss_codec :: "protobuf \<Rightarrow> bool" where
  "ss_codec C \<equiv> codec_ok (SSHelloRsp_ByteSizeLong C) (SSHelloRsp_SerializeToArray C)"

lemma HandleCSProto_hello:
  assumes "packet_ok P k"
  shows "HandleCSProto C t k N P =
    (if m_iProtoNo k = CS_PROTOCOL_MESSAGE_ID_HELLO then
       PacketProduceProtobufPacket (CSHelloRsp_ByteSizeLong C) (CSHelloRsp_SerializeToArray C) (snd t)
         (m_ulClientSeq k) (m_iSockFd k) CS_PROTOCOL_MESSAGE_ID_HELLO (hello_answer C (fst t) P k) N P \<bind> (\<lambda>(_, r). Some r)
     else Some (N, P))"
proof -
  obtain b where "packet_GetBuffer P k = Some b"
      "UnpackProtobufStruct (CSHello_ParseFromArray C) b (m_iBufferSize k) = Some (CSHello_ParseFromArray C (packet_payload P k))"
    using packet_body [OF assms] .
  then show ?thesis by (simp add: HandleCSProto_def HandleCSProtoHello_def hello_answer_def Let_def split_def)
qed

lemma HandleSSProto_hello:
  assumes "packet_ok P k"
  shows "HandleSSProtoExecute C t k N P =
    (if m_iProtoNo k = SS_PROTOCOL_MESSAGE_ID_HELLO then
       PacketProduceProtobufPacket (SSHelloRsp_ByteSizeLong C) (SSHelloRsp_SerializeToArray C) (snd t)
         (m_ulClientSeq k) (m_iSockFd k) SS_PROTOCOL_MESSAGE_ID_HELLO_RSP \<lparr>rsp_timestamp = fst t\<rparr> N P \<bind> (\<lambda>(_, r). Some r)
     else Some (N, P))"
proof -
  obtain b where "packet_GetBuffer P k = Some b"
      "UnpackProtobufStruct (SSHello_ParseFromArray C) b (m_iBufferSize k) = Some (SSHello_ParseFromArray C (packet_payload P k))"
    using packet_body [OF assms] .
  moreover obtain b' where "packet_GetBuffer P k = Some b'"
      "UnpackProtobufStruct (SSHelloRsp_ParseFromArray C) b' (m_iBufferSize k) = Some (SSHelloRsp_ParseFromArray C (packet_payload P k))"
    using packet_body [OF assms] .
  then have "HandleSSProtoHelloRsp C k P = Some (SSHelloRsp_ParseFromArray C (packet_payload P k))"
    by (simp add: HandleSSProtoHelloRsp_def)
  ultimately show ?thesis by (simp add: HandleSSProtoExecute_def HandleSSProtoHello_def Let_def split_def)
qed

lemma produce_or_skip:
  assumes "pool_wf P L" "codec_ok sz ser"
    and h: "h = (if b then PacketProduceProtobufPacket sz ser now seq sock pno m N P \<bind> (\<lambda>(_, r). Some r) else Some (N, P))"
    and vs: "vs = (if b then [(seq, sock, pno, ser m (sz m))] else [])"
  shows "\<forall>v\<in>set vs. packet_fits v \<Longrightarrow> \<exists>js P'. h =
      Some (N\<lparr>m_stNetPacketSendPrepareQueue := queue_add js (m_stNetPacketSendPrepareQueue N)\<rparr>, P') \<and> fresh_packets P L js vs P'"
    and "v \<in> set vs \<Longrightarrow> \<not> packet_fits v \<Longrightarrow> h = None"
proof -
  note p = produce_packet [OF assms(1,2) refl]
  show "\<exists>js P'. h =
      Some (N\<lparr>m_stNetPacketSendPrepareQueue := queue_add js (m_stNetPacketSendPrepareQueue N)\<rparr>, P') \<and> fresh_packets P L js vs P'"
    if "\<forall>v\<in>set vs. packet_fits v"
  proof (cases b)
    case True
    then show ?thesis using p(1) [of seq sock pno m now N] that h vs by auto
  next
    case False
    then show ?thesis using assms(1) h vs by (intro exI [of _ "[]"] exI [of _ P]) simp
  qed
  show "h = None" if "v \<in> set vs" "\<not> packet_fits v"
    using that p(2) [of seq sock pno m now N] h vs by (auto split: if_splits)
qed

lemma payload_frame: "pool_fetch P' (packet_ptr k) = pool_fetch P (packet_ptr k) \<Longrightarrow> packet_payload P' k = packet_payload P k"
  by (simp add: packet_payload_def packet_view_def)

interpretation cs: packet_handler "HandleCSProto C" "cs_reply C" "cs_codec C" for C
proof unfold_locales
  fix P L k t N
  assume a: "cs_codec C" "pool_wf P L" "packet_ok P k"
  note r = produce_or_skip [OF a(2,1) HandleCSProto_hello [OF a(3)]]
  show "\<exists>js P'. HandleCSProto C t k N P =
          Some (N\<lparr>m_stNetPacketSendPrepareQueue := queue_add js (m_stNetPacketSendPrepareQueue N)\<rparr>, P') \<and>
        fresh_packets P L js (cs_reply C t P k) P'" if "\<forall>v\<in>set (cs_reply C t P k). packet_fits v"
    by (rule r(1) [OF _ that]) (simp add: cs_reply_def Let_def)
  show "HandleCSProto C t k N P = None" if "v \<in> set (cs_reply C t P k)" "\<not> packet_fits v" for v
    by (rule r(2) [OF _ that]) (simp add: cs_reply_def Let_def)
next
  fix P' k P t
  assume "pool_fetch P' (packet_ptr k) = pool_fetch P (packet_ptr k)"
  from payload_frame [OF this] show "cs_reply C t P' k = cs_reply C t P k"
    by (simp only: cs_reply_def hello_answer_def)
qed

interpretation ss: packet_handler "HandleSSProtoExecute C" "ss_reply C" "ss_codec C" for C
proof unfold_locales
  fix P L k t N
  assume a: "ss_codec C" "pool_wf P L" "packet_ok P k"
  note r = produce_or_skip [OF a(2,1) HandleSSProto_hello [OF a(3)]]
  show "\<exists>js P'. HandleSSProtoExecute C t k N P =
          Some (N\<lparr>m_stNetPacketSendPrepareQueue := queue_add js (m_stNetPacketSendPrepareQueue N)\<rparr>, P') \<and>
        fresh_packets P L js (ss_reply C t P k) P'" if "\<forall>v\<in>set (ss_reply C t P k). packet_fits v"
    by (rule r(1) [OF _ that]) (simp add: ss_reply_def Let_def)
  show "HandleSSProtoExecute C t k N P = None" if "v \<in> set (ss_reply C t P k)" "\<not> packet_fits v" for v
    by (rule r(2) [OF _ that]) (simp add: ss_reply_def Let_def)
qed (simp add: ss_reply_def)

section \<open>The loop\<close>

definition outgoing :: "NetworkContext \<Rightarrow> NetPacketBuffer list" where
  "outgoing N = m_vecPacketPool (m_stNetPacketSendQueue N) @ m_vecPacketPool (m_stNetPacketSendPrepareQueue N)"

definition inbound :: "NetworkContext \<Rightarrow> NetPacketQueue \<times> NetPacketQueue \<times> NetPacketQueue \<times> NetPacketQueue \<times> ST_GameSingnal" where
  "inbound N = (m_stNetPacketRecvPrepareQueue N, m_stNetPacketRecvQueue N, m_stNetPacketLogicQueue N,
     m_stNetPacketSendCache N, m_stSignalExec N)"

primrec replies ::
    "(u64 \<times> u64 \<Rightarrow> CPacketMemoryPool \<Rightarrow> NetPacketBuffer \<Rightarrow> packet list) \<Rightarrow> (nat \<Rightarrow> u64 \<times> u64) \<Rightarrow> nat \<Rightarrow> CPacketMemoryPool
     \<Rightarrow> NetPacketBuffer list \<Rightarrow> packet list" where
  "replies reply clock i P [] = []"
| "replies reply clock i P (k # ks) = reply (clock i) P k @ replies reply clock (Suc i) P ks"

lemma net_inv_send_prepare:
  assumes "net_inv N P L"
  shows "net_inv (snd (PacketSendPrepare N)) P L" "outgoing (snd (PacketSendPrepare N)) = outgoing N"
    "inbound (snd (PacketSendPrepare N)) = inbound N" "m_vecPacketPool (m_stNetPacketSendPrepareQueue (snd (PacketSendPrepare N))) = []"
proof -
  have eq: "snd (PacketSendPrepare N) = N\<lparr>m_stNetPacketSendQueue := queue_of (outgoing N), m_stNetPacketSendPrepareQueue := queue_Init\<rparr>"
    using assms CopyFrom_wf [OF queue_exact_wf, of "m_stNetPacketSendQueue N"]
    by (simp add: PacketSendPrepare_def net_inv_def outgoing_def)
  have "packets_inv (all_packets (snd (PacketSendPrepare N))) P L"
    by (rule packets_inv_mset [of "all_packets N"])
       (use assms in \<open>simp_all add: eq net_inv_def all_packets_def all_queues_def outgoing_def\<close>)
  then show "net_inv (snd (PacketSendPrepare N)) P L" using assms by (simp add: net_inv_def eq)
  show "outgoing (snd (PacketSendPrepare N)) = outgoing N" "inbound (snd (PacketSendPrepare N)) = inbound N"
      "m_vecPacketPool (m_stNetPacketSendPrepareQueue (snd (PacketSendPrepare N))) = []"
    by (simp_all add: eq) (simp_all add: outgoing_def inbound_def)
qed

lemma net_inv_produce:
  assumes "net_inv N P L" "fresh_packets P L js vs P'"
    and N': "N' = N\<lparr>m_stNetPacketSendPrepareQueue := queue_add js (m_stNetPacketSendPrepareQueue N)\<rparr>"
  shows "net_inv N' P' (L \<union> packet_ptr ` set js)" "outgoing N' = outgoing N @ js" "inbound N' = inbound N"
proof -
  have "packets_inv (all_packets N) P L" using assms(1) by (simp add: net_inv_def)
  from packets_inv_fresh(1) [OF this assms(2)] have "packets_inv (all_packets N') P' (L \<union> packet_ptr ` set js)"
    by (rule packets_inv_mset) (simp add: N' all_packets_def all_queues_def)
  then show "net_inv N' P' (L \<union> packet_ptr ` set js)" using assms(1) by (simp add: net_inv_def N')
  show "outgoing N' = outgoing N @ js" "inbound N' = inbound N" by (simp_all add: N' outgoing_def inbound_def)
qed

text \<open>What a stretch of the loop has done: it appended the replies, and touched nothing else.\<close>

definition produced ::
    "NetworkContext \<Rightarrow> CPacketMemoryPool \<Rightarrow> mem_ptr set \<Rightarrow> packet list \<Rightarrow> NetworkContext \<Rightarrow> CPacketMemoryPool \<Rightarrow> bool" where
  "produced N P L vs N' P' \<longleftrightarrow> (\<exists>js L'. net_inv N' P' L' \<and> L \<subseteq> L' \<and> (\<forall>q\<in>L. pool_fetch P' q = pool_fetch P q) \<and>
     outgoing N' = outgoing N @ js \<and> map (packet_view P') js = vs \<and> inbound N' = inbound N)"

lemma produced_refl: "net_inv N P L \<Longrightarrow> produced N P L [] N P"
  unfolding produced_def by (intro exI [of _ "[]"] exI [of _ L]) simp

lemma net_inv_queued:
  assumes "net_inv N P L"
  shows "packet_ptr ` set (outgoing N) \<subseteq> L" "packet_ptr ` set (m_vecPacketPool (m_stNetPacketLogicQueue N)) \<subseteq> L"
    "\<forall>k\<in>set (m_vecPacketPool (m_stNetPacketLogicQueue N)). packet_ok P k" "pool_wf P L"
  using assms by (auto simp: net_inv_def packets_inv_def all_packets_def all_queues_def outgoing_def)

lemma produced_trans:
  assumes "net_inv N1 P1 L1" "L \<subseteq> L1" "\<forall>q\<in>L. pool_fetch P1 q = pool_fetch P q" "outgoing N1 = outgoing N @ js"
    "map (packet_view P1) js = vs" "inbound N1 = inbound N" "produced N1 P1 L1 ws N' P'"
  shows "produced N P L (vs @ ws) N' P'"
proof -
  obtain ks L' where k: "net_inv N' P' L'" "L1 \<subseteq> L'" "\<forall>q\<in>L1. pool_fetch P' q = pool_fetch P1 q"
      "outgoing N' = outgoing N1 @ ks" "map (packet_view P') ks = ws" "inbound N' = inbound N1"
    using assms(7) by (auto simp: produced_def)
  have "packet_ptr ` set js \<subseteq> L1" using net_inv_queued(1) [OF assms(1)] assms(4) by auto
  from packets_frame(2) [OF k(3) this] have "map (packet_view P') js = vs" using assms(5) by simp
  then show ?thesis
    unfolding produced_def using k assms by (intro exI [of _ "js @ ks"] exI [of _ L']) auto
qed

lemma replies_frame:
  assumes "\<And>k. k \<in> set ks \<Longrightarrow> pool_fetch P' (packet_ptr k) = pool_fetch P (packet_ptr k)"
    and "\<And>P' P k t. pool_fetch P' (packet_ptr k) = pool_fetch P (packet_ptr k) \<Longrightarrow> reply t P' k = reply t P k"
  shows "replies reply clock i P' ks = replies reply clock i P ks"
  using assms(1)
proof (induction ks arbitrary: i)
  case Nil
  then show ?case by simp
next
  case (Cons k ks)
  have "reply (clock i) P' k = reply (clock i) P k" by (rule assms(2)) (simp add: Cons.prems)
  moreover have "replies reply clock (Suc i) P' ks = replies reply clock (Suc i) P ks" by (rule Cons.IH) (simp add: Cons.prems)
  ultimately show ?case by simp
qed

text \<open>
  What a turn of the logic leaves behind: the packets that were waiting to be sent, followed by the
  new ones, are in the send queue; the received packets are gone, and their memory is back in the pool.
\<close>

definition answered :: "NetworkContext \<Rightarrow> CPacketMemoryPool \<Rightarrow> packet list \<Rightarrow> NetworkContext \<Rightarrow> CPacketMemoryPool \<Rightarrow> bool" where
  "answered N P vs N' P' \<longleftrightarrow> (\<exists>L'. net_inv N' P' L') \<and>
     queue_view P' (m_stNetPacketSendQueue N') = map (packet_view P) (outgoing N) @ vs \<and>
     m_vecPacketPool (m_stNetPacketSendPrepareQueue N') = [] \<and>
     m_vecPacketPool (m_stNetPacketRecvQueue N') = [] \<and> m_vecPacketPool (m_stNetPacketLogicQueue N') = [] \<and>
     m_stNetPacketRecvPrepareQueue N' = m_stNetPacketRecvPrepareQueue N \<and>
     queue_view P' (m_stNetPacketRecvPrepareQueue N') = queue_view P (m_stNetPacketRecvPrepareQueue N) \<and>
     m_stNetPacketSendCache N' = m_stNetPacketSendCache N \<and>
     queue_view P' (m_stNetPacketSendCache N') = queue_view P (m_stNetPacketSendCache N) \<and>
     \<not> m_bHasSignal (m_stSignalExec N')"

lemma all_packets_parts:
  "set (outgoing N) \<subseteq> set (all_packets N)" "set (m_vecPacketPool (m_stNetPacketRecvPrepareQueue N)) \<subseteq> set (all_packets N)"
  "set (m_vecPacketPool (m_stNetPacketSendCache N)) \<subseteq> set (all_packets N)"
  by (auto simp: all_packets_def all_queues_def outgoing_def)

lemma answeredI:
  assumes inv: "net_inv N1 P L" and N1: "inbound N1 = (m_stNetPacketRecvPrepareQueue N, queue_Init, queue_of ks, m_stNetPacketSendCache N, s)"
      "outgoing N1 = outgoing N" "\<not> m_bHasSignal s"
    and p: "produced N1 P L vs N2 P2" and q: "m_vecPacketPool q = []" "queue_wf q"
  obtains P3 where "release_packets ks P2 = Some P3"
    "answered N P vs ((snd (PacketSendPrepare N2))\<lparr>m_stNetPacketLogicQueue := q\<rparr>) P3"
proof -
  obtain js L' where j: "net_inv N2 P2 L'" "L \<subseteq> L'" "\<forall>q\<in>L. pool_fetch P2 q = pool_fetch P q"
      "outgoing N2 = outgoing N1 @ js" "map (packet_view P2) js = vs" "inbound N2 = inbound N1"
    using p by (auto simp: produced_def)
  define N3 where "N3 = snd (PacketSendPrepare N2)"
  define N' where "N' = N3\<lparr>m_stNetPacketLogicQueue := q\<rparr>"
  note n3 = net_inv_send_prepare [OF j(1), folded N3_def]
  have b: "inbound N3 = (m_stNetPacketRecvPrepareQueue N, queue_Init, queue_of ks, m_stNetPacketSendCache N, s)"
    using n3(3) j(6) N1(1) by simp
  have "packets_inv (all_packets N3) P2 L'" using n3(1) by (simp add: net_inv_def)
  then have "packets_inv (ks @ all_packets N') P2 L'"
    by (rule packets_inv_mset) (use b q in \<open>simp add: N'_def all_packets_def all_queues_def inbound_def\<close>)
  then obtain P3 where r: "release_packets ks P2 = Some P3" "packets_inv (all_packets N') P3 (L' - packet_ptr ` set ks)"
      "map (packet_view P3) (all_packets N') = map (packet_view P2) (all_packets N')"
    by (rule release_packets_ok)
  have inv': "net_inv N' P3 (L' - packet_ptr ` set ks)" using n3(1) r(2) q(2) by (simp add: net_inv_def N'_def)
  have send: "m_vecPacketPool (m_stNetPacketSendQueue N') = outgoing N @ js"
    using n3(2,4) j(4) N1(2) by (simp add: outgoing_def N'_def)
  have old: "map (packet_view P2) xs = map (packet_view P) xs" if "set xs \<subseteq> set (all_packets N1)" for xs
    using inv that by (intro packets_frame(2) [OF j(3)]) (auto simp: net_inv_def packets_inv_def)
  have "map (packet_view P2) (outgoing N) = map (packet_view P) (outgoing N)"
      "queue_view P2 (m_stNetPacketRecvPrepareQueue N) = queue_view P (m_stNetPacketRecvPrepareQueue N)"
      "queue_view P2 (m_stNetPacketSendCache N) = queue_view P (m_stNetPacketSendCache N)"
    using all_packets_parts [of N1, THEN old] N1(1) unfolding N1(2) [symmetric] by (simp_all add: inbound_def)
  then have "answered N P vs N' P3"
    unfolding answered_def using inv' send r(3) j(5) b n3(4) q(1) N1(3)
    by (auto simp: all_packets_def all_queues_def inbound_def N'_def)
  then show ?thesis using that r(1) by (simp add: N'_def N3_def)
qed

locale packet_turn = packet_handler handle reply contract + packet_sender send ready posted
  for handle :: packet_handle
    and reply :: "u64 \<times> u64 \<Rightarrow> CPacketMemoryPool \<Rightarrow> NetPacketBuffer \<Rightarrow> packet list"
    and contract :: bool
    and send :: "NetworkContext \<Rightarrow> 'w \<Rightarrow> (NetworkContext \<times> 'w) option"
    and ready :: "'w \<Rightarrow> bool"
    and posted :: "'w \<Rightarrow> bool"
begin

lemma flush_step:
  assumes "ready W" "net_inv N P L"
  obtains N' W' where "(if b then send N W else Some (N, W)) = Some (N', W')" "ready W'" "net_inv N' P L"
    "outgoing N' = outgoing N" "inbound N' = inbound N"
  using send_ready [OF assms(1), of N] net_inv_send_prepare [OF assms(2)] assms that by (cases b) auto

lemma loop_replies:
  assumes "contract" "ready W" "net_inv N P L" "set ks \<subseteq> set (m_vecPacketPool (m_stNetPacketLogicQueue N))"
  shows "if \<forall>v\<in>set (replies reply clock i P ks). packet_fits v
    then \<exists>N' P' W'. handle_loop handle flush send clock i ks N P W = Some (N', P', W') \<and> ready W' \<and>
      produced N P L (replies reply clock i P ks) N' P'
    else handle_loop handle flush send clock i ks N P W = None"
  using assms(2-)
proof (induction ks arbitrary: i N P W L)
  case Nil
  then show ?case by (simp add: produced_refl)
next
  case (Cons k ks)
  note q = net_inv_queued [OF Cons.prems(2)]
  have k: "packet_ok P k" using q(3) Cons.prems(3) by simp
  show ?case
  proof (cases "\<forall>v\<in>set (reply (clock i) P k). packet_fits v")
    case False
    then obtain v where v: "v \<in> set (reply (clock i) P k)" "\<not> packet_fits v" by blast
    have "handle (clock i) k N P = None" by (rule handle_too_big [OF assms(1) q(4) k v])
    then show ?thesis using False by auto
  next
    case True
    from handle_fits [OF assms(1) q(4) k this, of N] obtain js P1 where
      h: "handle (clock i) k N P = Some (N\<lparr>m_stNetPacketSendPrepareQueue := queue_add js (m_stNetPacketSendPrepareQueue N)\<rparr>, P1)" and
      fresh: "fresh_packets P L js (reply (clock i) P k) P1" by blast
    define N1 where "N1 = N\<lparr>m_stNetPacketSendPrepareQueue := queue_add js (m_stNetPacketSendPrepareQueue N)\<rparr>"
    define L1 where "L1 = L \<union> packet_ptr ` set js"
    note n1 = net_inv_produce [OF Cons.prems(2) fresh N1_def, folded L1_def]
    obtain N2 W2 where n2: "(if flush i then send N1 W else Some (N1, W)) = Some (N2, W2)" "ready W2" "net_inv N2 P1 L1"
        "outgoing N2 = outgoing N1" "inbound N2 = inbound N1"
      by (rule flush_step [OF Cons.prems(1) n1(1)])
    have fr: "\<forall>q\<in>L. pool_fetch P1 q = pool_fetch P q" "map (packet_view P1) js = reply (clock i) P k"
      using fresh by (simp_all add: fresh_packets_def)
    have same: "replies reply clock j P1 ks = replies reply clock j P ks" for j
      using q(2) Cons.prems(3) fr(1) by (intro replies_frame) (auto intro: reply_frame)
    have "set ks \<subseteq> set (m_vecPacketPool (m_stNetPacketLogicQueue N2))"
      using Cons.prems(3) n2(5) n1(3) by (simp add: inbound_def)
    note ih = Cons.IH [OF n2(2,3) this, of "Suc i", unfolded same]
    have run: "handle_loop handle flush send clock i (k # ks) N P W = handle_loop handle flush send clock (Suc i) ks N2 P1 W2"
      using h [folded N1_def] n2(1) by (cases "flush i") auto
    show ?thesis
    proof (cases "\<forall>v\<in>set (replies reply clock (Suc i) P ks). packet_fits v")
      case fit: True
      then obtain N' P' W' where r: "handle_loop handle flush send clock (Suc i) ks N2 P1 W2 = Some (N', P', W')" "ready W'"
          "produced N2 P1 L1 (replies reply clock (Suc i) P ks) N' P'"
        using ih by auto
      have "produced N P L (reply (clock i) P k @ replies reply clock (Suc i) P ks) N' P'"
        by (rule produced_trans [OF n2(3) _ fr(1) _ fr(2) _ r(3)]) (use n1 n2 in \<open>simp_all add: L1_def\<close>)
      then show ?thesis using run r True fit by auto
    next
      case nofit: False
      then have "handle_loop handle flush send clock (Suc i) ks N2 P1 W2 = None" using ih by auto
      then show ?thesis using run nofit by auto
    qed
  qed
qed

lemma turn_replies:
  assumes "contract" "ready W" "net_inv N P L" "m_vecPacketPool (m_stNetPacketLogicQueue N) = []"
    "m_bHasSignal (m_stSignalExec N)"
  defines "ks \<equiv> m_vecPacketPool (m_stNetPacketRecvQueue N)"
  shows "if \<forall>v\<in>set (replies reply clock 0 P ks). packet_fits v
    then \<exists>N' P' W'. logic_turn handle flush send clock N P W = Some (int (length ks), N', P', W') \<and> ready W' \<and> posted W' \<and>
      answered N P (replies reply clock 0 P ks) N' P'
    else logic_turn handle flush send clock N P W = None"
proof -
  define N1 where "N1 = N\<lparr>m_stSignalExec := (m_stSignalExec N)\<lparr>m_bHasSignal := False\<rparr>, m_stNetPacketLogicQueue := queue_of ks, m_stNetPacketRecvQueue := queue_Init\<rparr>"
  have copy: "CopyFrom queue_Init (m_stNetPacketRecvQueue N) = (queue_of ks, queue_Init, int (length ks))"
    using CopyFrom_wf [of queue_Init] by (simp add: ks_def)
  have "packets_inv (all_packets N) P L" using assms(3) by (simp add: net_inv_def)
  then have "packets_inv (all_packets N1) P L"
    by (rule packets_inv_mset) (use assms(4) in \<open>simp add: N1_def ks_def all_packets_def all_queues_def\<close>)
  then have inv1: "net_inv N1 P L" using assms(3) by (simp add: net_inv_def N1_def)
  have in1: "inbound N1 = (m_stNetPacketRecvPrepareQueue N, queue_Init, queue_of ks, m_stNetPacketSendCache N, (m_stSignalExec N)\<lparr>m_bHasSignal := False\<rparr>)"
      "outgoing N1 = outgoing N"
    by (simp_all add: N1_def inbound_def outgoing_def)
  have run: "logic_turn handle flush send clock N P W = ProcessPackets handle flush send clock (int (length ks)) N1 P W \<bind>
      (\<lambda>(N, P, W). Some (int (length ks), N, P, W))"
    using assms(5) copy by (simp add: logic_turn_def CheckAndSetSignalActived_def CopyPacketsFromNetToLogic_def N1_def Let_def)
  have pp: "ProcessPackets handle flush send clock (int (length ks)) N1 P W =
      do { (N, P, W) \<leftarrow> handle_loop handle flush send clock 0 ks N1 P W;
           (N, W) \<leftarrow> send N W;
           (q, P) \<leftarrow> ReleaseAllPackets (m_stNetPacketLogicQueue N) P;
           Some (N\<lparr>m_stNetPacketLogicQueue := q\<rparr>, P, W) }"
    by (simp add: ProcessPackets_def N1_def Let_def)
  have "set ks \<subseteq> set (m_vecPacketPool (m_stNetPacketLogicQueue N1))" by (simp add: N1_def)
  note loop = loop_replies [OF assms(1,2) inv1 this, of clock 0 flush]
  show ?thesis
  proof (cases "\<forall>v\<in>set (replies reply clock 0 P ks). packet_fits v")
    case False
    then show ?thesis using loop run pp by (simp only: if_False) simp
  next
    case True
    then obtain N2 P2 W2 where r: "handle_loop handle flush send clock 0 ks N1 P W = Some (N2, P2, W2)" "ready W2"
        "produced N1 P L (replies reply clock 0 P ks) N2 P2"
      using loop by auto
    obtain W3 where W3: "send N2 W2 = Some (snd (PacketSendPrepare N2), W3)" "ready W3" "posted W3"
      using send_ready [OF r(2)] by blast
    obtain L2 where L2: "net_inv N2 P2 L2" "inbound N2 = inbound N1" using r(3) by (auto simp: produced_def)
    have lq: "m_stNetPacketLogicQueue (snd (PacketSendPrepare N2)) = queue_of ks"
      using net_inv_send_prepare(3) [OF L2(1)] L2(2) in1(1) by (simp add: inbound_def)
    obtain P3 where P3: "release_packets ks P2 = Some P3" "answered N P (replies reply clock 0 P ks)
        ((snd (PacketSendPrepare N2))\<lparr>m_stNetPacketLogicQueue := (queue_of ks)\<lparr>m_vecPacketPool := []\<rparr>\<rparr>) P3"
      by (rule answeredI [OF inv1 in1(1,2) _ r(3), of "(queue_of ks)\<lparr>m_vecPacketPool := []\<rparr>"]) (simp_all add: queue_wf_def)
    show ?thesis
      using True run pp r(1) W3 lq P3 by (simp add: ReleaseAllPackets_def)
  qed
qed

end

section \<open>The command pipe\<close>

text \<open>
  The documented behaviour of a pipe for the 32 bytes of a command: a write succeeds after finitely
  many attempts, and as it is no longer than \<open>PIPE_BUF\<close> it is never cut short.
\<close>

definition accepts_commands :: "world \<Rightarrow> bool" where
  "accepts_commands W \<longleftrightarrow> (\<forall>i. \<exists>j\<ge>i. 0 \<le> a_ret (w_env W j)) \<and>
     (\<forall>i. 0 \<le> a_ret (w_env W i) \<longrightarrow> int ST_NETWORK_CMD_REQUEST_MAX_SIZE \<le> a_ret (w_env W i))"

definition command_written :: "int \<Rightarrow> byte list \<Rightarrow> world \<Rightarrow> bool" where
  "command_written f cmd W \<longleftrightarrow> w_trace W \<noteq> [] \<and> last (w_trace W) = Sys_Write f cmd"

lemma length_net_cmd [simp]: "length (net_cmd x) = ST_NETWORK_CMD_REQUEST_MAX_SIZE"
  by (simp add: net_cmd_def)

lemma GetCmd_net_cmd [simp]: "GetCmd (net_cmd x) = x"
  by (simp add: net_cmd_def GetCmd_def ST_NETWORK_CMD_REQUEST_MAX_SIZE_def)

lemma accepts_step [simp]: "accepts_commands (sys_step c W) = accepts_commands W"
  by (simp add: accepts_commands_def sys_step_def)

lemma write_command:
  assumes "accepts_commands W" "length cmd = ST_NETWORK_CMD_REQUEST_MAX_SIZE" "sys_write f cmd W = (n, e, W')"
  shows "n < 0 \<longleftrightarrow> a_ret (w_env W (w_next W)) < 0" "\<not> n < 0 \<Longrightarrow> command_written f cmd W'" "accepts_commands W'"
    "w_env W' = w_env W" "w_next W' = Suc (w_next W)"
proof -
  have n: "n = io_count (a_ret (next_answer W)) (length cmd)" "W' = sys_step (Sys_Write f (take (nat n) cmd)) W"
    using assms(3) by (auto simp: sys_write_def Let_def)
  show "n < 0 \<longleftrightarrow> a_ret (w_env W (w_next W)) < 0" by (auto simp: n(1) io_count_def next_answer_def)
  show "command_written f cmd W'" if "\<not> n < 0"
  proof -
    have "0 \<le> a_ret (next_answer W)" using that n(1) by (auto simp: io_count_def split: if_splits)
    then have "int (length cmd) \<le> a_ret (next_answer W)" using assms(1,2) by (simp add: accepts_commands_def next_answer_def)
    then have "n = int (length cmd)" using n(1) by (simp add: io_count_def)
    then show ?thesis by (simp add: n(2) command_written_def sys_step_def)
  qed
  show "accepts_commands W'" "w_env W' = w_env W" "w_next W' = Suc (w_next W)" using assms(1) by (simp_all add: n(2))
qed

lemma SendNetworkCmd_written:
  assumes "accepts_commands W" "length cmd = ST_NETWORK_CMD_REQUEST_MAX_SIZE"
  shows "\<exists>W'. SendNetworkCmd f cmd W = Some W' \<and> accepts_commands W' \<and> command_written f cmd W'"
proof -
  obtain j where "w_next W \<le> j" "0 \<le> a_ret (w_env W j)" using assms(1) by (auto simp: accepts_commands_def)
  then show ?thesis
    using assms(1)
  proof (induction "j - w_next W" arbitrary: W)
    case 0
    obtain n e W' where s: "sys_write f cmd W = (n, e, W')" by (cases "sys_write f cmd W")
    have "\<not> n < 0" using write_command(1) [OF 0(4) assms(2) s] 0 by simp
    then show ?case using write_command(2,3) [OF 0(4) assms(2) s] s by (subst SendNetworkCmd.simps) simp
  next
    case (Suc d)
    obtain n e W' where s: "sys_write f cmd W = (n, e, W')" by (cases "sys_write f cmd W")
    note w = write_command [OF Suc(5) assms(2) s]
    have "\<exists>W''. SendNetworkCmd f cmd W' = Some W'' \<and> accepts_commands W'' \<and> command_written f cmd W''"
      by (rule Suc(1)) (use Suc(2-) w in auto)
    then show ?case using w(2,3) s by (subst SendNetworkCmd.simps) auto
  qed
qed

end
