(* ===== verification/Connector.thy ===== *)
theory Connector
  imports Libevent_Server Config Proto_Handle
begin

text \<open>
  Connections of the game server to other servers, \<open>network/connector.h\<close> and \<open>connector.cpp\<close>.
  \<^item> libevent, the kernel and the clock are parameters as in the other back ends. \<open>conn_world\<close> holds the
    program's singletons (packet pool, id generator), the kernel and the libevent handles in use; using or freeing
    a handle that is not in use gives \<open>None\<close>.
  \<^item> The pointers of a connector to its two context objects are the objects themselves; the
    pointer of a \<open>ConnectorContext\<close> to the client is only compared with null.
  \<^item> The threads of a connector share its state through the command pipe and the queues of its
    context, whose operations are single steps; \<open>m_iStatus\<close> does not change inside them.
\<close>

section \<open>State\<close>

datatype connector_status = NEWTOWK_CONNECTOR_STATUS_UNCONNECT | NEWTOWK_CONNECTOR_STATUS_ALIVE
  | NEWTOWK_CONNECTOR_STATUS_DEAD | NEWTOWK_CONNECTOR_STATUS_CLOSED

record ConnectorContext =
  cc_net :: NetworkContext
  cc_ulClientSeq :: u64
  cc_pstClientCtx :: bool

record Connector =
  cn_ServerIPInfo :: ST_ServerIPInfo
  cn_EventBase :: "nat option"
  cn_BufferEvt :: "nat option"
  cn_WriteEvent :: "nat option"
  cn_ClientCtx :: "LibeventClientCtx option"
  cn_ConnectorCtx :: "ConnectorContext option"
  cn_ulClientSeq :: u64
  cn_iSockFd :: int
  cn_iStatus :: connector_status
  cn_iRecvCtrlFd :: int
  cn_iSendCtrlFd :: int
  cn_iHeartBeatCnt :: int

record 'e conn_world =
  cw_ev :: "'e libevent"
  cw_bases :: "nat \<Rightarrow> bool"
  cw_events :: "nat \<Rightarrow> bool"
  cw_active :: "nat \<Rightarrow> bool"
  cw_sys :: world
  cw_memory :: CPacketMemoryPool
  cw_uuid :: SnowFlakeUUID

definition Connector_new :: "int \<Rightarrow> int \<Rightarrow> ST_ServerIPInfo \<Rightarrow> Connector" where
  "Connector_new junk_recv junk_send stServerIPInfo = \<lparr>cn_ServerIPInfo = stServerIPInfo, cn_EventBase = None, cn_BufferEvt = None,
     cn_WriteEvent = None, cn_ClientCtx = None, cn_ConnectorCtx = None, cn_ulClientSeq = 0, cn_iSockFd = 0,
     cn_iStatus = NEWTOWK_CONNECTOR_STATUS_UNCONNECT, cn_iRecvCtrlFd = junk_recv, cn_iSendCtrlFd = junk_send,
     cn_iHeartBeatCnt = 0\<rparr>"

definition SetAlive :: "Connector \<Rightarrow> Connector" where
  "SetAlive c = c\<lparr>cn_iStatus := NEWTOWK_CONNECTOR_STATUS_ALIVE\<rparr>"

definition SetDead :: "Connector \<Rightarrow> Connector" where
  "SetDead c = c\<lparr>cn_iStatus := NEWTOWK_CONNECTOR_STATUS_DEAD\<rparr>"

definition SetClosed :: "Connector \<Rightarrow> Connector" where
  "SetClosed c = c\<lparr>cn_iStatus := NEWTOWK_CONNECTOR_STATUS_CLOSED\<rparr>"

definition IsAlive :: "Connector \<Rightarrow> bool" where
  "IsAlive c \<longleftrightarrow> cn_iStatus c = NEWTOWK_CONNECTOR_STATUS_ALIVE"

definition IsClosed :: "Connector \<Rightarrow> bool" where
  "IsClosed c \<longleftrightarrow> cn_iStatus c = NEWTOWK_CONNECTOR_STATUS_CLOSED"

section \<open>Opening and closing\<close>

text \<open>
  The arguments \<open>base\<close> and \<open>bev\<close> are the results of \<open>event_base_new\<close> and of \<open>bufferevent_socket_new\<close> with
  its input buffer, \<open>wev\<close> and \<open>r\<close> those of \<open>event_new\<close> and \<open>bufferevent_socket_connect\<close>, and \<open>ip\<close> the text
  of the address.
\<close>

definition Create ::
    "nat option \<Rightarrow> (nat \<times> 'e) option \<Rightarrow> u64 list \<Rightarrow> Connector \<Rightarrow> 'e conn_world
     \<Rightarrow> (bool \<times> u64 list \<times> Connector \<times> 'e conn_world) option" where
  "Create base bev uclock c w =
     (let c = c\<lparr>cn_EventBase := base\<rparr>;
          w = (case base of None \<Rightarrow> w | Some b \<Rightarrow> w\<lparr>cw_bases := (cw_bases w)(b := True)\<rparr>);
          (s, e, W) = sys_int (Sys_Socket AF_INET) (cw_sys w);
          c = c\<lparr>cn_iSockFd := s\<rparr>; w = w\<lparr>cw_sys := W\<rparr>
      in if s < 0 then Some (False, uclock, c, w)
         else do {
           (seq, u, uclock) \<leftarrow> GenerateSeqID (cw_uuid w) uclock;
           let c = c\<lparr>cn_ulClientSeq := seq\<rparr>;
           let w = w\<lparr>cw_uuid := u\<rparr>;
           (case bev of
              None \<Rightarrow> Some (False, uclock, c, w)
            | Some (h, i) \<Rightarrow> Some (True, uclock, c\<lparr>cn_BufferEvt := Some h\<rparr>,
                w\<lparr>cw_ev := (cw_ev w)\<lparr>bev_input := (bev_input (cw_ev w))(h := Some i),
                                    bev_written := (bev_written (cw_ev w))(h := [])\<rparr>\<rparr>))
         })"

definition Connect ::
    "nat option \<Rightarrow> int \<Rightarrow> byte list \<Rightarrow> u64 list \<Rightarrow> Connector \<Rightarrow> 'e conn_world
     \<Rightarrow> (bool \<times> u64 list \<times> Connector \<times> 'e conn_world) option" where
  "Connect wev r ip uclock c w = do {
     _ \<leftarrow> cn_EventBase c;
     h \<leftarrow> cn_BufferEvt c;
     let sin_port = htons (m_wServerPort (cn_ServerIPInfo c));
     let c = c\<lparr>cn_WriteEvent := wev\<rparr>;
     let w = (case wev of None \<Rightarrow> w | Some v \<Rightarrow> w\<lparr>cw_events := (cw_events w)(v := True)\<rparr>);
     (if r < 0 then Some (False, uclock, c, w)
      else do {
        (uuid, u, uclock) \<leftarrow> GenerateSeqID (cw_uuid w) uclock;
        Some (True, uclock, c\<lparr>cn_ClientCtx := Some (LibeventClientCtx_new uuid (cn_iSockFd c) h ip sin_port),
                cn_ConnectorCtx := Some \<lparr>cc_net = NetworkContext_new, cc_ulClientSeq = cn_ulClientSeq c, cc_pstClientCtx = True\<rparr>\<rparr>,
              w\<lparr>cw_uuid := u\<rparr>)
      })
   }"

definition event_base_free :: "nat \<Rightarrow> 'e conn_world \<Rightarrow> 'e conn_world option" where
  "event_base_free b w = (if cw_bases w b then Some (w\<lparr>cw_bases := (cw_bases w)(b := False)\<rparr>) else None)"

definition event_free :: "nat \<Rightarrow> 'e conn_world \<Rightarrow> 'e conn_world option" where
  "event_free v w = (if cw_events w v then Some (w\<lparr>cw_events := (cw_events w)(v := False)\<rparr>) else None)"

definition event_active :: "nat \<Rightarrow> 'e conn_world \<Rightarrow> 'e conn_world option" where
  "event_active v w = (if cw_events w v then Some (w\<lparr>cw_active := (cw_active w)(v := True)\<rparr>) else None)"

definition conn_bufferevent_free :: "nat \<Rightarrow> 'e conn_world \<Rightarrow> 'e conn_world option" where
  "conn_bufferevent_free h w = do {
     V \<leftarrow> bufferevent_free h (cw_ev w);
     Some (w\<lparr>cw_ev := V\<rparr>)
   }"

definition connector_Close :: "Connector \<Rightarrow> 'e conn_world \<Rightarrow> (Connector \<times> 'e conn_world) option" where
  "connector_Close c w = do {
     let c = SetClosed c;
     (c, w) \<leftarrow> (case cn_BufferEvt c of
        None \<Rightarrow> Some (c, w)
      | Some h \<Rightarrow> do { w \<leftarrow> conn_bufferevent_free h w; Some (c\<lparr>cn_BufferEvt := None\<rparr>, w) });
     (c, w) \<leftarrow> (case cn_EventBase c of
        None \<Rightarrow> Some (c, w)
      | Some b \<Rightarrow> do { w \<leftarrow> event_base_free b w; Some (c\<lparr>cn_EventBase := None\<rparr>, w) });
     (c, w) \<leftarrow> (case cn_WriteEvent c of
        None \<Rightarrow> Some (c, w)
      | Some v \<Rightarrow> do { w \<leftarrow> event_free v w; Some (c\<lparr>cn_WriteEvent := None\<rparr>, w) });
     (c, w) \<leftarrow> (case cn_ClientCtx c of
        None \<Rightarrow> Some (c, w)
      | Some cl \<Rightarrow> do {
          V \<leftarrow> LibeventClientCtx_delete cl (cw_ev w);
          Some (c\<lparr>cn_ClientCtx := None\<rparr>, w\<lparr>cw_ev := V\<rparr>)
        });
     Some (c\<lparr>cn_ConnectorCtx := None\<rparr>, w)
   }"

section \<open>Sending\<close>

text \<open>
  \<open>SendNetworkPackets\<close> runs on the logic thread: it hands the packets over, writes a command into the
  pipe and wakes the event loop.
\<close>

partial_function (option) send_ctrl :: "int \<Rightarrow> byte list \<Rightarrow> nat option \<Rightarrow> 'e conn_world \<Rightarrow> 'e conn_world option" where
  "send_ctrl m_iSendCtrlFd stNetCmd wev w =
     (let (n, e, W) = sys_write m_iSendCtrlFd stNetCmd (cw_sys w); w = w\<lparr>cw_sys := W\<rparr> in
      if n < 0 then send_ctrl m_iSendCtrlFd stNetCmd wev w
      else wev \<bind> (\<lambda>v. event_active v w))"

definition connector_SendNetworkPackets ::
    "Connector \<Rightarrow> NetworkContext \<Rightarrow> 'e conn_world \<Rightarrow> (NetworkContext \<times> 'e conn_world) option" where
  "connector_SendNetworkPackets c N w =
     (if \<not> IsAlive c then Some (N, w)
      else do {
        let N = snd (PacketSendPrepare N);
        w \<leftarrow> send_ctrl (cn_iSendCtrlFd c) (net_cmd NETWORK_CMD_REQUEST_SEND_ALL_PACKET) (cn_WriteEvent c) w;
        Some (N, w)
      })"

fun cn_send_packets ::
    "(nat \<Rightarrow> u64) \<Rightarrow> nat \<Rightarrow> CPacketMemoryPool \<Rightarrow> LibeventClientCtx \<Rightarrow> NetPacketBuffer list \<Rightarrow> 'e libevent \<Rightarrow> 'e libevent option" where
  "cn_send_packets clock i P cl [] V = Some V"
| "cn_send_packets clock i P cl (k # ks) V = do {
     (_, V) \<leftarrow> le_PacketBufferSend (clock i) P k cl V;
     cn_send_packets clock (Suc i) P cl ks V
   }"

partial_function (option) cn_send_all ::
    "(nat \<Rightarrow> u64) \<Rightarrow> nat \<Rightarrow> LibeventClientCtx \<Rightarrow> NetworkContext \<Rightarrow> CPacketMemoryPool \<Rightarrow> 'e libevent
     \<Rightarrow> (NetworkContext \<times> CPacketMemoryPool \<times> 'e libevent) option" where
  "cn_send_all clock i cl N P V = do {
     V \<leftarrow> cn_send_packets clock i P cl (m_vecPacketPool (m_stNetPacketSendCache N)) V;
     (cache, P) \<leftarrow> ReleaseAllPackets (m_stNetPacketSendCache N) P;
     let (iTotalPackets, N') = PacketSendPrepareCache (N\<lparr>m_stNetPacketSendCache := cache\<rparr>);
     (if iTotalPackets > 0 then cn_send_all clock (i + length (m_vecPacketPool (m_stNetPacketSendCache N))) cl N' P V
      else Some (N', P, V))
   }"

definition cn_ExecuteCmdSendAllPacket ::
    "(nat \<Rightarrow> u64) \<Rightarrow> LibeventClientCtx option \<Rightarrow> ConnectorContext \<Rightarrow> 'e conn_world \<Rightarrow> (ConnectorContext \<times> 'e conn_world) option" where
  "cn_ExecuteCmdSendAllPacket clock cl x w =
     (if \<not> cc_pstClientCtx x then Some (x, w)
      else do {
        cl \<leftarrow> cl;
        (N, P, V) \<leftarrow> cn_send_all clock 0 cl (snd (PacketSendPrepareCache (cc_net x))) (cw_memory w) (cw_ev w);
        Some (x\<lparr>cc_net := N\<rparr>, w\<lparr>cw_memory := P, cw_ev := V\<rparr>)
      })"

text \<open>
  The loop of the write event: read commands while the pipe has any. The buffer is not cleared between
  the reads.
\<close>

partial_function (option) process_send_loop ::
    "(nat \<Rightarrow> nat \<Rightarrow> u64) \<Rightarrow> nat \<Rightarrow> byte list \<Rightarrow> Connector \<Rightarrow> ConnectorContext \<Rightarrow> 'e conn_world
     \<Rightarrow> (Connector \<times> ConnectorContext \<times> 'e conn_world) option" where
  "process_send_loop clock i chBuffer c x w =
     (let (ret, e, W) = sys_int (Sys_Select (cn_iRecvCtrlFd c)) (cw_sys w); w = w\<lparr>cw_sys := W\<rparr> in
      if ret = - 1 then Some (SetDead c, x, w)
      else if ret = 0 then Some (c, x, w)
      else let (n, bs, e, W) = sys_read (cn_iRecvCtrlFd c) ST_NETWORK_CMD_REQUEST_MAX_SIZE (cw_sys w); w = w\<lparr>cw_sys := W\<rparr> in
        if n \<le> 0 then
          (if e = EINTR then process_send_loop clock (Suc i) chBuffer c x w else Some (SetDead c, x, w))
        else do {
          chBuffer \<leftarrow> mem_write chBuffer 0 bs;
          (if \<not> IsAlive c then Some (c, x, w)
           else if GetCmd chBuffer = NETWORK_CMD_REQUEST_SEND_ALL_PACKET then do {
             (x, w) \<leftarrow> cn_ExecuteCmdSendAllPacket (clock i) (cn_ClientCtx c) x w;
             process_send_loop clock (Suc i) chBuffer c x w
           }
           else if GetCmd chBuffer = NETWORK_CMD_REQUEST_CLOSE_SERVER then
             process_send_loop clock (Suc i) chBuffer (SetDead c) x w
           else process_send_loop clock (Suc i) chBuffer c x w)
        })"

definition ProcessSendNetworkPackets ::
    "(nat \<Rightarrow> nat \<Rightarrow> u64) \<Rightarrow> Connector \<Rightarrow> 'e conn_world \<Rightarrow> (Connector \<times> 'e conn_world) option" where
  "ProcessSendNetworkPackets clock c w = do {
     x \<leftarrow> cn_ConnectorCtx c;
     (if \<not> IsAlive c then Some (c, w)
      else do {
        (c, x, w) \<leftarrow> process_send_loop clock 0 (replicate ST_NETWORK_CMD_REQUEST_MAX_SIZE 0) c x w;
        Some (c\<lparr>cn_ConnectorCtx := Some x\<rparr>, w)
      })
   }"

section \<open>Events\<close>

text \<open>An error of the stream ends the handler; the connector stays as it is.\<close>

partial_function (option) cn_read_loop ::
    "(nat \<Rightarrow> 'e \<Rightarrow> byte list \<times> 'e) \<Rightarrow> (nat \<Rightarrow> nat \<Rightarrow> u64) \<Rightarrow> nat \<Rightarrow> nat \<Rightarrow> LibeventClientCtx \<Rightarrow> ConnectorContext \<Rightarrow> 'e conn_world
     \<Rightarrow> (LibeventClientCtx \<times> ConnectorContext \<times> 'e conn_world) option" where
  "cn_read_loop bev_read clock i h cl x w = do {
     (_, cl, V) \<leftarrow> le_PacketBufferRead bev_read h cl (cw_ev w);
     (iRet, b, N, P) \<leftarrow> UnpackPacketToRecvQueue (clock i) (Some (le_ContextBuffer cl)) (cc_net x) (cw_memory w);
     b \<leftarrow> b;
     let cl = set_le_buffer b cl;
     let x = x\<lparr>cc_net := N\<rparr>;
     let w = w\<lparr>cw_ev := V, cw_memory := P\<rparr>;
     (if iRet \<noteq> 0 then Some (cl, x, w)
      else do {
        (iReadLen, cl, V) \<leftarrow> le_PacketBufferRead bev_read h cl V;
        let w = w\<lparr>cw_ev := V\<rparr>;
        (if iReadLen > 0 then cn_read_loop bev_read clock (Suc i) h cl x w else Some (cl, x, w))
      })
   }"

definition OnConnectorBufferEventRead ::
    "(nat \<Rightarrow> 'e \<Rightarrow> byte list \<times> 'e) \<Rightarrow> (nat \<Rightarrow> nat \<Rightarrow> u64) \<Rightarrow> nat \<Rightarrow> Connector \<Rightarrow> 'e conn_world \<Rightarrow> (Connector \<times> 'e conn_world) option" where
  "OnConnectorBufferEventRead bev_read clock h c w = do {
     x \<leftarrow> cn_ConnectorCtx c;
     cl \<leftarrow> cn_ClientCtx c;
     (cl, x, w) \<leftarrow> cn_read_loop bev_read clock 0 h cl x w;
     Some (c\<lparr>cn_ClientCtx := Some cl, cn_ConnectorCtx := Some x\<rparr>, w)
   }"

definition OnConnectorBufferEventTrigger :: "bool \<Rightarrow> bool \<Rightarrow> bool \<Rightarrow> Connector \<Rightarrow> Connector" where
  "OnConnectorBufferEventTrigger timeout eof error c =
     (let c = (if timeout then SetDead c else c); c = (if eof then SetDead c else c)
      in if error then SetDead c else c)"

definition HeartBeat :: "protobuf \<Rightarrow> u64 \<times> u64 \<Rightarrow> Connector \<Rightarrow> 'e conn_world \<Rightarrow> (Connector \<times> 'e conn_world) option" where
  "HeartBeat C t c w =
     (let c = c\<lparr>cn_iHeartBeatCnt := cn_iHeartBeatCnt c + 1\<rparr> in
      if cn_iHeartBeatCnt c mod 10000 = 0 then do {
        let c = c\<lparr>cn_iHeartBeatCnt := 0\<rparr>;
        x \<leftarrow> cn_ConnectorCtx c;
        (_, N, P) \<leftarrow> PacketProduceProtobufPacket (SSHello_ByteSizeLong C) (SSHello_SerializeToArray C) (snd t)
          (cn_ulClientSeq c) (cn_iSockFd c) SS_PROTOCOL_MESSAGE_ID_HELLO \<lparr>hello_timestamp = fst t\<rparr> (cc_net x) (cw_memory w);
        (N, w) \<leftarrow> connector_SendNetworkPackets c N (w\<lparr>cw_memory := P\<rparr>);
        Some (c\<lparr>cn_ConnectorCtx := Some (x\<lparr>cc_net := N\<rparr>)\<rparr>, w)
      }
      else Some (c, w))"

section \<open>The thread of a connector\<close>

text \<open>
  What the event loop finds pending in one turn is an argument: a list of callbacks with the clock
  readings they make.
\<close>

datatype conn_event = Ev_Read "nat \<Rightarrow> nat \<Rightarrow> u64" nat | Ev_Trigger bool bool bool | Ev_Write "nat \<Rightarrow> nat \<Rightarrow> u64"

fun dispatch :: "(nat \<Rightarrow> 'e \<Rightarrow> byte list \<times> 'e) \<Rightarrow> conn_event \<Rightarrow> Connector \<Rightarrow> 'e conn_world \<Rightarrow> (Connector \<times> 'e conn_world) option" where
  "dispatch bev_read (Ev_Read clock h) c w = OnConnectorBufferEventRead bev_read clock h c w"
| "dispatch bev_read (Ev_Trigger timeout eof error) c w = Some (OnConnectorBufferEventTrigger timeout eof error c, w)"
| "dispatch bev_read (Ev_Write clock) c w = ProcessSendNetworkPackets clock c w"

fun dispatch_all ::
    "(nat \<Rightarrow> 'e \<Rightarrow> byte list \<times> 'e) \<Rightarrow> conn_event list \<Rightarrow> Connector \<Rightarrow> 'e conn_world \<Rightarrow> (Connector \<times> 'e conn_world) option" where
  "dispatch_all bev_read [] c w = Some (c, w)"
| "dispatch_all bev_read (v # vs) c w = dispatch bev_read v c w \<bind> (\<lambda>(c, w). dispatch_all bev_read vs c w)"

text \<open>\<open>StartMainLoop\<close> for the given turns; it has ended when the connector is no longer alive.\<close>

fun main_loop ::
    "protobuf \<Rightarrow> (nat \<Rightarrow> 'e \<Rightarrow> byte list \<times> 'e) \<Rightarrow> ((u64 \<times> u64) \<times> conn_event list) list \<Rightarrow> Connector \<Rightarrow> 'e conn_world
     \<Rightarrow> (Connector \<times> 'e conn_world) option" where
  "main_loop C bev_read [] c w = Some (c, w)"
| "main_loop C bev_read ((t, vs) # turns) c w =
     (if \<not> IsAlive c then Some (c, w)
      else do {
        (c, w) \<leftarrow> HeartBeat C t c w;
        (c, w) \<leftarrow> dispatch_all bev_read vs c w;
        main_loop C bev_read turns c w
      })"

text \<open>Up to thirty attempts to connect; every attempt has its own results of the calls.\<close>

fun connect_attempts ::
    "(nat option \<times> int \<times> byte list \<times> u64 list) list \<Rightarrow> Connector \<Rightarrow> 'e conn_world \<Rightarrow> (Connector \<times> 'e conn_world) option" where
  "connect_attempts [] c w = Some (c, w)"
| "connect_attempts ((wev, r, ip, uclock) # as) c w = do {
     (ok, _, c, w) \<leftarrow> Connect wev r ip uclock c w;
     (if \<not> ok then connect_attempts as (SetDead c) w else Some (SetAlive c, w))
   }"

definition StartMainThread :: "Connector \<Rightarrow> 'e conn_world \<Rightarrow> bool \<times> Connector \<times> 'e conn_world" where
  "StartMainThread c w =
     (let fds = a_fds (next_answer (cw_sys w)); (r, e, W) = sys_int Sys_Pipe (cw_sys w); w = w\<lparr>cw_sys := W\<rparr> in
      if r \<noteq> 0 then (False, c, w)
      else (True, c\<lparr>cn_iRecvCtrlFd := fst fds, cn_iSendCtrlFd := snd fds\<rparr>, w))"

definition ConnectorMainThread ::
    "protobuf \<Rightarrow> (nat \<Rightarrow> 'e \<Rightarrow> byte list \<times> 'e) \<Rightarrow> (nat option \<times> int \<times> byte list \<times> u64 list) list
     \<Rightarrow> ((u64 \<times> u64) \<times> conn_event list) list \<Rightarrow> Connector \<Rightarrow> 'e conn_world \<Rightarrow> (Connector \<times> 'e conn_world) option" where
  "ConnectorMainThread C bev_read attempts turns c w = do {
     (c, w) \<leftarrow> connect_attempts (take 30 attempts) c w;
     _ \<leftarrow> cn_EventBase c;
     (c, w) \<leftarrow> main_loop C bev_read turns c w;
     (c, w) \<leftarrow> connector_Close c w;
     Some (SetClosed c, w)
   }"

section \<open>The pool of connectors\<close>

text \<open>
  The map is the list of its entries in the order of the keys. \<open>AddConnector\<close> looks for the 64-bit id
  of the connector and inserts a pair whose key went through \<open>int32_t\<close>.
\<close>

record ConnectorPool =
  m_stConnectorPool :: "(u64 \<times> nat) list"
  cp_connectors :: "nat \<Rightarrow> Connector option"
  cp_next :: nat

definition int32_key :: "u64 \<Rightarrow> u64" where
  "int32_key seq = scast (ucast seq :: u32)"

definition AddConnector :: "nat \<Rightarrow> ConnectorPool \<Rightarrow> (bool \<times> ConnectorPool) option" where
  "AddConnector p cp = do {
     c \<leftarrow> cp_connectors cp p;
     let iClientSeq = cn_ulClientSeq c;
     (if map_of (m_stConnectorPool cp) iClientSeq \<noteq> None then Some (False, cp)
      else if map_of (m_stConnectorPool cp) (int32_key iClientSeq) \<noteq> None then Some (True, cp)
      else Some (True, cp\<lparr>m_stConnectorPool := insort_key fst (int32_key iClientSeq, p) (m_stConnectorPool cp)\<rparr>))
   }"

definition delete_connector :: "nat \<Rightarrow> ConnectorPool \<Rightarrow> 'e conn_world \<Rightarrow> (ConnectorPool \<times> 'e conn_world) option" where
  "delete_connector p cp w = do {
     c \<leftarrow> cp_connectors cp p;
     (_, w) \<leftarrow> connector_Close c w;
     Some (cp\<lparr>cp_connectors := (cp_connectors cp)(p := None)\<rparr>, w)
   }"

definition CloseConnector :: "u64 \<Rightarrow> ConnectorPool \<Rightarrow> 'e conn_world \<Rightarrow> (bool \<times> ConnectorPool \<times> 'e conn_world) option" where
  "CloseConnector iClientSeq cp w = (case map_of (m_stConnectorPool cp) iClientSeq of
     None \<Rightarrow> Some (False, cp, w)
   | Some p \<Rightarrow> do {
       (cp, w) \<leftarrow> delete_connector p
          (cp\<lparr>m_stConnectorPool := filter (\<lambda>(k, _). k \<noteq> iClientSeq) (m_stConnectorPool cp)\<rparr>) w;
       Some (True, cp, w)
     })"

fun alive_connectors :: "(nat \<Rightarrow> Connector option) \<Rightarrow> (u64 \<times> nat) list \<Rightarrow> nat list option" where
  "alive_connectors cs [] = Some []"
| "alive_connectors cs ((k, p) # es) = do {
     c \<leftarrow> cs p;
     ps \<leftarrow> alive_connectors cs es;
     Some (if IsAlive c then p # ps else ps)
   }"

definition ProcessAliveConnectors :: "ConnectorPool \<Rightarrow> nat list option" where
  "ProcessAliveConnectors cp = alive_connectors (cp_connectors cp) (m_stConnectorPool cp)"

text \<open>
  After \<open>erase(it)\<close> the loop goes on with the erased iterator, which C++ leaves undefined.
\<close>

fun closed_connectors :: "(nat \<Rightarrow> Connector option) \<Rightarrow> (u64 \<times> nat) list \<Rightarrow> unit option" where
  "closed_connectors cs [] = Some ()"
| "closed_connectors cs ((k, p) # es) = do {
     c \<leftarrow> cs p;
     (if IsClosed c then None else closed_connectors cs es)
   }"

definition ProcessClosedConnectors :: "ConnectorPool \<Rightarrow> ConnectorPool option" where
  "ProcessClosedConnectors cp = do {
     _ \<leftarrow> closed_connectors (cp_connectors cp) (m_stConnectorPool cp);
     Some cp
   }"

definition NewConnector ::
    "nat option \<Rightarrow> (nat \<times> 'e) option \<Rightarrow> int \<Rightarrow> int \<Rightarrow> u64 list \<Rightarrow> ST_ServerIPInfo \<Rightarrow> ConnectorPool \<Rightarrow> 'e conn_world
     \<Rightarrow> (nat option \<times> u64 list \<times> ConnectorPool \<times> 'e conn_world) option" where
  "NewConnector base bev junk_recv junk_send uclock rstServerIPInfo cp w = do {
     let p = cp_next cp;
     (ok, uclock, c, w) \<leftarrow> Create base bev uclock (Connector_new junk_recv junk_send rstServerIPInfo) w;
     let cp = cp\<lparr>cp_next := Suc p, cp_connectors := (cp_connectors cp)(p := Some c)\<rparr>;
     (if \<not> ok then do {
        (cp, w) \<leftarrow> delete_connector p cp w;
        Some (None, uclock, cp, w)
      }
      else do {
        (_, cp) \<leftarrow> AddConnector p cp;
        Some (Some p, uclock, cp, w)
      })
   }"

section \<open>Closing a connector\<close>

definition bound :: "nat \<Rightarrow> Connector \<Rightarrow> bool" where
  "bound h c \<longleftrightarrow> cn_BufferEvt c = Some h \<and> (\<exists>cl. cn_ClientCtx c = Some cl \<and> m_pstBufferEvent cl = Some h)"

lemma Close_bound:
  assumes "bound h c"
  shows "connector_Close c w = None"
proof -
  obtain cl where c: "cn_BufferEvt c = Some h" "cn_ClientCtx c = Some cl" "m_pstBufferEvent cl = Some h"
    using assms by (auto simp: bound_def)
  then show ?thesis
    by (cases "bev_input (cw_ev w) h"; cases "cn_EventBase c"; cases "cn_WriteEvent c")
       (auto simp: connector_Close_def SetClosed_def conn_bufferevent_free_def bufferevent_free_def event_base_free_def
         event_free_def LibeventClientCtx_delete_def Let_def)
qed

lemma process_send_loop_keeps:
  assumes "process_send_loop clock i buf c x w = Some r"
  shows "cn_BufferEvt (fst r) = cn_BufferEvt c \<and> cn_ClientCtx (fst r) = cn_ClientCtx c"
  using assms
proof (rule process_send_loop.raw_induct [rotated, where
      P = "\<lambda>clock i buf c x w r. cn_BufferEvt (fst r) = cn_BufferEvt c \<and> cn_ClientCtx (fst r) = cn_ClientCtx c"
      and xa = "(((((clock, i), buf), c), x), w)", unfolded prod.case], goal_cases)
  case (1 loop clock i buf c x w r)
  show ?case using 1(2)
    by (auto simp: Let_def SetDead_def bind_eq_Some_conv split: prod.splits if_splits dest!: 1(1))
qed

lemma cn_read_loop_keeps:
  assumes "cn_read_loop bev_read clock i h cl x w = Some r"
  shows "m_pstBufferEvent (fst r) = m_pstBufferEvent cl"
  using assms
proof (rule cn_read_loop.raw_induct [rotated, where
      P = "\<lambda>bev_read clock i h cl x w r. m_pstBufferEvent (fst r) = m_pstBufferEvent cl"
      and xa = "((((((bev_read, clock), i), h), cl), x), w)", unfolded prod.case], goal_cases)
  case (1 loop bev_read clock i h cl x w r)
  have keep: "m_pstBufferEvent cl' = m_pstBufferEvent cl" if "le_PacketBufferRead bev_read h cl V = Some (n, cl', V')" for n cl cl' V V'
    using that by (auto simp: le_PacketBufferRead_def Let_def bind_eq_Some_conv split_def split: if_splits)
  show ?case using 1(2)
    by (auto simp: Let_def bind_eq_Some_conv split: prod.splits if_splits dest!: 1(1) keep)
qed

lemma bound_status [simp]: "bound h (c\<lparr>cn_iStatus := s\<rparr>) = bound h c" "bound h (c\<lparr>cn_iHeartBeatCnt := n\<rparr>) = bound h c"
    "bound h (c\<lparr>cn_ConnectorCtx := x\<rparr>) = bound h c"
  by (simp_all add: bound_def)

lemma dispatch_bound: "dispatch bev_read v c w = Some (c', w') \<Longrightarrow> bound h c \<Longrightarrow> bound h c'"
  by (cases v)
     (auto simp: OnConnectorBufferEventRead_def OnConnectorBufferEventTrigger_def ProcessSendNetworkPackets_def SetDead_def Let_def
        bind_eq_Some_conv bound_def split: if_splits dest!: cn_read_loop_keeps process_send_loop_keeps)

lemma dispatch_all_bound: "dispatch_all bev_read vs c w = Some (c', w') \<Longrightarrow> bound h c \<Longrightarrow> bound h c'"
  by (induction vs arbitrary: c w) (auto simp: bind_eq_Some_conv dest: dispatch_bound)

lemma HeartBeat_bound: "HeartBeat C t c w = Some (c', w') \<Longrightarrow> bound h c \<Longrightarrow> bound h c'"
  by (auto simp: HeartBeat_def Let_def bind_eq_Some_conv split: if_splits)

lemma main_loop_bound: "main_loop C bev_read turns c w = Some (c', w') \<Longrightarrow> bound h c \<Longrightarrow> bound h c'"
proof (induction turns arbitrary: c w)
  case Nil
  then show ?case by simp
next
  case (Cons t turns)
  then show ?case
    by (cases t) (auto simp: bind_eq_Some_conv split: if_splits dest: HeartBeat_bound dispatch_all_bound)
qed

lemma connect_attempts_bound:
  "connect_attempts as c w = Some (c', w') \<Longrightarrow> cn_BufferEvt c = Some h \<Longrightarrow> \<exists>a\<in>set as. 0 \<le> fst (snd a) \<Longrightarrow> bound h c'"
proof (induction as arbitrary: c w)
  case Nil
  then show ?case by simp
next
  case (Cons a as)
  obtain wev r ip uclock where a: "a = (wev, r, ip, uclock)" by (cases a)
  obtain ok u c1 w1 where c1: "Connect wev r ip uclock c w = Some (ok, u, c1, w1)"
      "(if \<not> ok then connect_attempts as (SetDead c1) w1 else Some (SetAlive c1, w1)) = Some (c', w')"
    using Cons.prems(1) by (auto simp: a bind_eq_Some_conv)
  have c2: "ok \<longleftrightarrow> 0 \<le> r" "cn_BufferEvt c1 = Some h" "ok \<Longrightarrow> bound h c1"
    using c1(1) Cons.prems(2) by (auto simp: Connect_def Let_def bind_eq_Some_conv bound_def LibeventClientCtx_new_def split: if_splits)
  then show ?case using Cons.IH [of "SetDead c1" w1] c1(2) Cons.prems(3) by (auto simp: a SetDead_def SetAlive_def split: if_splits)
qed

lemma failed_attempts:
  assumes "\<forall>a\<in>set as. fst (snd a) < 0" "cn_EventBase c = Some b" "cn_BufferEvt c = Some h"
    "\<forall>v. cn_WriteEvent c = Some v \<longrightarrow> cw_events w v"
  obtains c' w' where "connect_attempts as c w = Some (c', w')" "cn_EventBase c' = Some b" "cn_BufferEvt c' = Some h"
    "cn_ClientCtx c' = cn_ClientCtx c" "\<forall>v. cn_WriteEvent c' = Some v \<longrightarrow> cw_events w' v" "cw_ev w' = cw_ev w" "cw_bases w' = cw_bases w"
    "as \<noteq> [] \<longrightarrow> cn_iStatus c' = NEWTOWK_CONNECTOR_STATUS_DEAD" "as = [] \<longrightarrow> c' = c"
  using assms
proof (induction as arbitrary: c w thesis)
  case Nil
  then show ?case by simp
next
  case (Cons a as)
  obtain wev r ip uclock where a: "a = (wev, r, ip, uclock)" by (cases a)
  let ?w = "case wev of None \<Rightarrow> w | Some v \<Rightarrow> w\<lparr>cw_events := (cw_events w)(v := True)\<rparr>"
  let ?c = "SetDead (c\<lparr>cn_WriteEvent := wev\<rparr>)"
  have step: "connect_attempts (a # as) c w = connect_attempts as ?c ?w"
    using Cons.prems by (simp add: a Connect_def Let_def SetDead_def)
  have w: "cw_ev ?w = cw_ev w" "cw_bases ?w = cw_bases w" "\<forall>v. wev = Some v \<longrightarrow> cw_events ?w v"
    by (auto split: option.splits)
  obtain c' w' where r: "connect_attempts as ?c ?w = Some (c', w')" "cn_EventBase c' = Some b" "cn_BufferEvt c' = Some h"
    "cn_ClientCtx c' = cn_ClientCtx ?c" "\<forall>v. cn_WriteEvent c' = Some v \<longrightarrow> cw_events w' v" "cw_ev w' = cw_ev ?w" "cw_bases w' = cw_bases ?w"
    "as \<noteq> [] \<longrightarrow> cn_iStatus c' = NEWTOWK_CONNECTOR_STATUS_DEAD" "as = [] \<longrightarrow> c' = ?c"
    by (rule Cons.IH [of ?c ?w]) (use Cons.prems w in \<open>auto simp: SetDead_def\<close>)
  show ?case
    by (rule Cons.prems(1) [of c' w']) (use step r w in \<open>auto simp: SetDead_def\<close>)
qed

lemma main_loop_dead: "\<not> IsAlive c \<Longrightarrow> main_loop C bev_read turns c w = Some (c, w)"
  by (cases turns) auto

lemma Close_unconnected:
  assumes "cn_EventBase c = Some b" "cn_BufferEvt c = Some h" "cn_ClientCtx c = None" "\<forall>v. cn_WriteEvent c = Some v \<longrightarrow> cw_events w v"
    "bev_input (cw_ev w) h \<noteq> None" "cw_bases w b"
  obtains c' w' where "connector_Close c w = Some (c', w')" "IsClosed c'" "bev_input (cw_ev w') h = None" "\<not> cw_bases w' b"
    "\<forall>v. cn_WriteEvent c = Some v \<longrightarrow> \<not> cw_events w' v"
proof -
  obtain i where i: "bev_input (cw_ev w) h = Some i" using assms(5) by blast
  show ?thesis
    using assms(1-4,6) i that
    by (cases "cn_WriteEvent c")
       (auto simp: connector_Close_def SetClosed_def IsClosed_def conn_bufferevent_free_def bufferevent_free_def event_base_free_def
         event_free_def Let_def)
qed


definition idle_world :: "(nat \<Rightarrow> answer) \<Rightarrow> byte list conn_world" where
  "idle_world env = \<lparr>cw_ev = \<lparr>bev_input = (\<lambda>_. None), bev_written = (\<lambda>_. []), loop_break = False\<rparr>, cw_bases = (\<lambda>_. False),
     cw_events = (\<lambda>_. False), cw_active = (\<lambda>_. False), cw_sys = \<lparr>w_env = env, w_next = 0, w_trace = []\<rparr>,
     cw_memory = CPacketMemoryPool_new,
     cw_uuid = \<lparr>m_dwHostID = 0, m_dwGameSvrID = 0, m_ulSequenceID = 0, m_ulLastTimestamp = 0\<rparr>\<rparr>"

definition some_answer :: answer where
  "some_answer = \<lparr>a_ret = 9, a_errno = E_OTHER, a_val = 0, a_data = [], a_addr = V4 0 0, a_list = [], a_fds = (0, 0), a_events = []\<rparr>"

definition no_protobuf :: protobuf where
  "no_protobuf = \<lparr>CSHello_ParseFromArray = (\<lambda>_. \<lparr>hello_id = 0, hello_content = []\<rparr>), CSHelloRsp_ByteSizeLong = (\<lambda>_. 0),
     CSHelloRsp_SerializeToArray = (\<lambda>_ _. []), SSHello_ParseFromArray = (\<lambda>_. \<lparr>hello_timestamp = 0\<rparr>), SSHello_ByteSizeLong = (\<lambda>_. 0),
     SSHello_SerializeToArray = (\<lambda>_ _. []), SSHelloRsp_ParseFromArray = (\<lambda>_. \<lparr>rsp_timestamp = 0\<rparr>), SSHelloRsp_ByteSizeLong = (\<lambda>_. 0),
     SSHelloRsp_SerializeToArray = (\<lambda>_ _. [])\<rparr>"


section \<open>Packets on their way out\<close>

lemma send_ctrl_written:
  assumes "accepts_commands (cw_sys w)" "length cmd = ST_NETWORK_CMD_REQUEST_MAX_SIZE" "cw_events w v"
  shows "\<exists>W. send_ctrl f cmd (Some v) w = Some (w\<lparr>cw_sys := W, cw_active := (cw_active w)(v := True)\<rparr>) \<and>
    accepts_commands W \<and> command_written f cmd W"
proof -
  obtain j where "w_next (cw_sys w) \<le> j" "0 \<le> a_ret (w_env (cw_sys w) j)" using assms(1) by (auto simp: accepts_commands_def)
  then show ?thesis
    using assms(1,3)
  proof (induction "j - w_next (cw_sys w)" arbitrary: w)
    case 0
    obtain n e W' where s: "sys_write f cmd (cw_sys w) = (n, e, W')" by (cases "sys_write f cmd (cw_sys w)")
    have "\<not> n < 0" using write_command(1) [OF 0(4) assms(2) s] 0 by simp
    then show ?case
      using write_command(2,3) [OF 0(4) assms(2) s] s 0(5) by (subst send_ctrl.simps) (auto simp: event_active_def)
  next
    case (Suc d)
    obtain n e W' where s: "sys_write f cmd (cw_sys w) = (n, e, W')" by (cases "sys_write f cmd (cw_sys w)")
    note w = write_command [OF Suc(5) assms(2) s]
    have "\<exists>W. send_ctrl f cmd (Some v) (w\<lparr>cw_sys := W'\<rparr>) =
        Some (w\<lparr>cw_sys := W', cw_sys := W, cw_active := (cw_active (w\<lparr>cw_sys := W'\<rparr>))(v := True)\<rparr>) \<and> accepts_commands W \<and> command_written f cmd W"
      by (rule Suc(1)) (use Suc(2-) w in auto)
    then show ?case
      using w(2,3) s Suc(6) by (cases "n < 0"; subst send_ctrl.simps) (auto simp: event_active_def)
  qed
qed

definition connector_ready :: "Connector \<Rightarrow> 'e conn_world \<Rightarrow> bool" where
  "connector_ready c w \<longleftrightarrow> IsAlive c \<and> accepts_commands (cw_sys w) \<and> (\<exists>v. cn_WriteEvent c = Some v \<and> cw_events w v)"

definition connector_posted :: "Connector \<Rightarrow> 'e conn_world \<Rightarrow> bool" where
  "connector_posted c w \<longleftrightarrow> (\<exists>v. cn_WriteEvent c = Some v \<and> cw_active w v) \<and>
     command_written (cn_iSendCtrlFd c) (net_cmd NETWORK_CMD_REQUEST_SEND_ALL_PACKET) (cw_sys w)"

interpretation cn: packet_sender "connector_SendNetworkPackets c" "connector_ready c" "connector_posted c" for c
proof unfold_locales
  fix w :: "'a conn_world" and N
  assume r: "connector_ready c w"
  then obtain v where v: "cn_WriteEvent c = Some v" "cw_events w v" by (auto simp: connector_ready_def)
  obtain W where "send_ctrl (cn_iSendCtrlFd c) (net_cmd NETWORK_CMD_REQUEST_SEND_ALL_PACKET) (Some v) w =
      Some (w\<lparr>cw_sys := W, cw_active := (cw_active w)(v := True)\<rparr>)" "accepts_commands W"
      "command_written (cn_iSendCtrlFd c) (net_cmd NETWORK_CMD_REQUEST_SEND_ALL_PACKET) W"
    using send_ctrl_written [of w "net_cmd NETWORK_CMD_REQUEST_SEND_ALL_PACKET" v "cn_iSendCtrlFd c"] r v
    by (auto simp: connector_ready_def)
  then show "\<exists>w'. connector_SendNetworkPackets c N w = Some (snd (PacketSendPrepare N), w') \<and> connector_ready c w' \<and> connector_posted c w'"
    using r v by (simp add: connector_SendNetworkPackets_def connector_ready_def connector_posted_def)
qed

definition append_written :: "nat \<Rightarrow> byte list \<Rightarrow> 'e libevent \<Rightarrow> 'e libevent" where
  "append_written h d V = V\<lparr>bev_written := (bev_written V)(h := bev_written V h @ d)\<rparr>"

lemma append_written_simps [simp]:
  "append_written h a (append_written h b V) = append_written h (b @ a) V" "append_written h [] V = V"
  "bev_input (append_written h d V) = bev_input V" "bev_written (append_written h d V) h = bev_written V h @ d"
  by (simp_all add: append_written_def)

abbreviation frame_bytes :: "(nat \<Rightarrow> u64) \<Rightarrow> nat \<Rightarrow> packet list \<Rightarrow> byte list" where
  "frame_bytes clock i vs \<equiv> concat (map snd (sent_frames clock i vs))"

lemma cn_send_packets_frames:
  assumes "m_pstBufferEvent cl = Some h"
  shows "\<forall>k\<in>set ks. packet_ok P k \<Longrightarrow> bev_input V h \<noteq> None \<Longrightarrow>
    cn_send_packets clock i P cl ks V = Some (append_written h (frame_bytes clock i (map (packet_view P) ks)) V)"
proof (induction ks arbitrary: i V)
  case Nil
  then show ?case by simp
next
  case (Cons k ks)
  then show ?case
    using le_PacketBufferSend_frame [OF _ assms, of P k V "clock i", folded append_written_def] by simp
qed

lemma release_cache:
  assumes inv: "net_inv N P L" and empty: "m_vecPacketPool (m_stNetPacketSendQueue N) = []"
  defines "N' \<equiv> N\<lparr>m_stNetPacketSendQueue := queue_Init, m_stNetPacketSendCache := queue_of []\<rparr>"
  obtains cache P' where "ReleaseAllPackets (m_stNetPacketSendCache N) P = Some (cache, P')"
    "PacketSendPrepareCache (N\<lparr>m_stNetPacketSendCache := cache\<rparr>) = (0, N')"
    "net_inv N' P' (L - packet_ptr ` set (m_vecPacketPool (m_stNetPacketSendCache N)))"
proof -
  let ?ks = "m_vecPacketPool (m_stNetPacketSendCache N)"
  have all: "packets_inv (all_packets N) P L" using inv by (simp add: net_inv_def)
  have "packets_inv (?ks @ all_packets N') P L"
    by (rule packets_inv_mset [OF all]) (use empty in \<open>simp add: N'_def all_packets_def all_queues_def\<close>)
  then obtain P' where P': "release_packets ?ks P = Some P'" "packets_inv (all_packets N') P' (L - packet_ptr ` set ?ks)"
    by (rule release_packets_ok)
  let ?c = "(m_stNetPacketSendCache N)\<lparr>m_vecPacketPool := []\<rparr>"
  have "queue_wf ?c" using inv by (simp add: net_inv_def queue_wf_def)
  then have "PacketSendPrepareCache (N\<lparr>m_stNetPacketSendCache := ?c\<rparr>) = (0, N')"
    using CopyFrom_wf [of ?c "m_stNetPacketSendQueue N"] empty by (simp add: PacketSendPrepareCache_def N'_def)
  moreover have "net_inv N' P' (L - packet_ptr ` set ?ks)" using inv P'(2) by (simp add: net_inv_def N'_def)
  ultimately show ?thesis using that [of ?c P'] P'(1) by (simp add: ReleaseAllPackets_def)
qed

lemma cache_ok: "net_inv N P L \<Longrightarrow> \<forall>k\<in>set (m_vecPacketPool (m_stNetPacketSendCache N)). packet_ok P k"
  by (auto simp: net_inv_def packets_inv_def all_packets_def all_queues_def)

lemma cn_send_all_sends:
  assumes inv: "net_inv N P L" and empty: "m_vecPacketPool (m_stNetPacketSendQueue N) = []"
    and cl: "m_pstBufferEvent cl = Some h" "bev_input V h \<noteq> None"
  obtains P' L' where "cn_send_all clock i cl N P V = Some (N\<lparr>m_stNetPacketSendQueue := queue_Init, m_stNetPacketSendCache := queue_of []\<rparr>, P',
      append_written h (frame_bytes clock i (queue_view P (m_stNetPacketSendCache N))) V)"
    "net_inv (N\<lparr>m_stNetPacketSendQueue := queue_Init, m_stNetPacketSendCache := queue_of []\<rparr>) P' L'"
proof -
  obtain cache P' where r: "ReleaseAllPackets (m_stNetPacketSendCache N) P = Some (cache, P')"
      "PacketSendPrepareCache (N\<lparr>m_stNetPacketSendCache := cache\<rparr>) = (0, N\<lparr>m_stNetPacketSendQueue := queue_Init, m_stNetPacketSendCache := queue_of []\<rparr>)"
      "net_inv (N\<lparr>m_stNetPacketSendQueue := queue_Init, m_stNetPacketSendCache := queue_of []\<rparr>) P'
        (L - packet_ptr ` set (m_vecPacketPool (m_stNetPacketSendCache N)))"
    by (rule release_cache [OF inv empty])
  have "cn_send_all clock i cl N P V = Some (N\<lparr>m_stNetPacketSendQueue := queue_Init, m_stNetPacketSendCache := queue_of []\<rparr>, P',
      append_written h (frame_bytes clock i (queue_view P (m_stNetPacketSendCache N))) V)"
    using r(1,2) cn_send_packets_frames [OF cl(1) cache_ok [OF inv] cl(2), of clock i] by (subst cn_send_all.simps) simp
  then show ?thesis using that r(3) by blast
qed

lemma net_inv_send_cache:
  assumes "net_inv N P L"
  shows "snd (PacketSendPrepareCache N) = N\<lparr>m_stNetPacketSendCache :=
      queue_of (m_vecPacketPool (m_stNetPacketSendCache N) @ m_vecPacketPool (m_stNetPacketSendQueue N)), m_stNetPacketSendQueue := queue_Init\<rparr>"
    and "net_inv (snd (PacketSendPrepareCache N)) P L"
proof -
  show eq: "snd (PacketSendPrepareCache N) = N\<lparr>m_stNetPacketSendCache :=
      queue_of (m_vecPacketPool (m_stNetPacketSendCache N) @ m_vecPacketPool (m_stNetPacketSendQueue N)), m_stNetPacketSendQueue := queue_Init\<rparr>"
    using assms CopyFrom_wf [of "m_stNetPacketSendCache N" "m_stNetPacketSendQueue N"]
    by (simp add: PacketSendPrepareCache_def net_inv_def)
  have "packets_inv (all_packets (snd (PacketSendPrepareCache N))) P L"
    by (rule packets_inv_mset [of "all_packets N"]) (use assms in \<open>simp_all add: eq net_inv_def all_packets_def all_queues_def\<close>)
  then show "net_inv (snd (PacketSendPrepareCache N)) P L" using assms by (simp add: net_inv_def eq)
qed

lemma cn_ExecuteCmdSendAllPacket_sends:
  assumes inv: "net_inv (cc_net x) (cw_memory w) L" and x: "cc_pstClientCtx x" and cl: "m_pstBufferEvent cl = Some h" "bev_input (cw_ev w) h \<noteq> None"
  obtains x' P' L' where "cn_ExecuteCmdSendAllPacket clock (Some cl) x w = Some (x', w\<lparr>cw_memory := P', cw_ev :=
      append_written h (frame_bytes clock 0 (queue_view (cw_memory w) (m_stNetPacketSendCache (cc_net x)) @
        queue_view (cw_memory w) (m_stNetPacketSendQueue (cc_net x)))) (cw_ev w)\<rparr>)"
    "net_inv (cc_net x') P' L'" "m_vecPacketPool (m_stNetPacketSendCache (cc_net x')) = []" "m_vecPacketPool (m_stNetPacketSendQueue (cc_net x')) = []"
    "m_stNetPacketSendPrepareQueue (cc_net x') = m_stNetPacketSendPrepareQueue (cc_net x)" "cc_pstClientCtx x'"
proof -
  note c = net_inv_send_cache [OF inv]
  have e: "m_vecPacketPool (m_stNetPacketSendQueue (snd (PacketSendPrepareCache (cc_net x)))) = []" by (simp add: c(1))
  obtain P' L' where P': "cn_send_all clock 0 cl (snd (PacketSendPrepareCache (cc_net x))) (cw_memory w) (cw_ev w) =
      Some ((snd (PacketSendPrepareCache (cc_net x)))\<lparr>m_stNetPacketSendQueue := queue_Init, m_stNetPacketSendCache := queue_of []\<rparr>, P',
        append_written h (frame_bytes clock 0 (queue_view (cw_memory w) (m_stNetPacketSendCache (snd (PacketSendPrepareCache (cc_net x)))))) (cw_ev w))"
      "net_inv ((snd (PacketSendPrepareCache (cc_net x)))\<lparr>m_stNetPacketSendQueue := queue_Init, m_stNetPacketSendCache := queue_of []\<rparr>) P' L'"
    by (rule cn_send_all_sends [OF c(2) e cl])
  show ?thesis
    by (rule that [of "x\<lparr>cc_net := (snd (PacketSendPrepareCache (cc_net x)))\<lparr>m_stNetPacketSendQueue := queue_Init, m_stNetPacketSendCache := queue_of []\<rparr>\<rparr>" P'])
       (use P' x in \<open>simp_all add: cn_ExecuteCmdSendAllPacket_def c(1)\<close>)
qed

text \<open>
  C11. Packets reach the peer of a connector. For an alive connector with any packets waiting, when the pipe takes
  the command and gives it back, \<open>SendNetworkPackets\<close> on the logic thread followed by \<open>ProcessSendNetworkPackets\<close>
  on the connector's thread writes to the bufferevent, behind what was written before, exactly one
  frame for each packet: those left in the send cache, those of the send queue, then those just
  produced, in order. The connector stays alive, all three queues are empty, and the invariant of queues and packet pool holds.
\<close>

theorem connector_sends:
  assumes "IsAlive c" "cn_ConnectorCtx c = Some x" "cc_pstClientCtx x" "cn_ClientCtx c = Some cl" "m_pstBufferEvent cl = Some h"
    "bev_input (cw_ev w) h \<noteq> None" "cn_WriteEvent c = Some v" "cw_events w v" "net_inv (cc_net x) (cw_memory w) L"
    and n: "n = w_next (cw_sys w)" and kernel: "32 \<le> a_ret (w_env (cw_sys w) n)" "0 < a_ret (w_env (cw_sys w) (n + 1))"
    "0 \<le> a_ret (w_env (cw_sys w) (n + 2))" "a_data (w_env (cw_sys w) (n + 2)) = net_cmd NETWORK_CMD_REQUEST_SEND_ALL_PACKET"
    "a_ret (w_env (cw_sys w) (n + 3)) = 0"
  shows "\<exists>N1 w1 c' x' w2 L'. connector_SendNetworkPackets c (cc_net x) w = Some (N1, w1) \<and> cw_active w1 v \<and>
    ProcessSendNetworkPackets clock (c\<lparr>cn_ConnectorCtx := Some (x\<lparr>cc_net := N1\<rparr>)\<rparr>) w1 = Some (c', w2) \<and>
    IsAlive c' \<and> cn_ConnectorCtx c' = Some x' \<and> net_inv (cc_net x') (cw_memory w2) L' \<and>
    outgoing (cc_net x') = [] \<and> m_vecPacketPool (m_stNetPacketSendCache (cc_net x')) = [] \<and>
    bev_written (cw_ev w2) h = bev_written (cw_ev w) h @ frame_bytes (clock 0) 0
      (queue_view (cw_memory w) (m_stNetPacketSendCache (cc_net x)) @ map (packet_view (cw_memory w)) (outgoing (cc_net x)))"
proof -
  let ?cmd = "net_cmd NETWORK_CMD_REQUEST_SEND_ALL_PACKET"
  define N1 where "N1 = snd (PacketSendPrepare (cc_net x))"
  define W1 where "W1 = sys_step (Sys_Write (cn_iSendCtrlFd c) ?cmd) (cw_sys w)"
  define w1 where "w1 = w\<lparr>cw_sys := W1, cw_active := (cw_active w)(v := True)\<rparr>"
  define c1 where "c1 = c\<lparr>cn_ConnectorCtx := Some (x\<lparr>cc_net := N1\<rparr>)\<rparr>"
  note p = net_inv_send_prepare [OF assms(9), folded N1_def]
  have l: "length ?cmd = 32" by (simp add: ST_NETWORK_CMD_REQUEST_MAX_SIZE_def)
  have "sys_write (cn_iSendCtrlFd c) ?cmd (cw_sys w) = (32, a_errno (next_answer (cw_sys w)), W1)"
    using kernel(1) l by (simp add: sys_write_def io_count_def next_answer_def n W1_def Let_def)
  then have send: "connector_SendNetworkPackets c (cc_net x) w = Some (N1, w1)"
    using assms(1,7,8) by (subst connector_SendNetworkPackets_def, subst send_ctrl.simps) (simp add: event_active_def N1_def w1_def)
  define W2 where "W2 = sys_step (Sys_Select (cn_iRecvCtrlFd c)) W1"
  define W3 where "W3 = sys_step (Sys_Read (cn_iRecvCtrlFd c) ?cmd) W2"
  define W4 where "W4 = sys_step (Sys_Select (cn_iRecvCtrlFd c)) W3"
  have sel: "\<exists>e r. sys_int (Sys_Select (cn_iRecvCtrlFd c)) W1 = (r, e, W2) \<and> 0 < r"
      "\<exists>e. sys_int (Sys_Select (cn_iRecvCtrlFd c)) W3 = (0, e, W4)"
    using kernel n by (simp_all add: sys_int_def next_answer_def W1_def W2_def W3_def W4_def numeral_eq_Suc)
  have rd: "\<exists>e. sys_read (cn_iRecvCtrlFd c) ST_NETWORK_CMD_REQUEST_MAX_SIZE W2 = (32, ?cmd, e, W3)"
    using kernel n l by (simp add: sys_read_def next_answer_def W1_def W2_def W3_def numeral_eq_Suc Let_def)
  obtain x' P' L' where ex: "cn_ExecuteCmdSendAllPacket (clock 0) (Some cl) (x\<lparr>cc_net := N1\<rparr>) (w1\<lparr>cw_sys := W3\<rparr>) =
      Some (x', w1\<lparr>cw_sys := W3, cw_memory := P', cw_ev := append_written h (frame_bytes (clock 0) 0
        (queue_view (cw_memory w) (m_stNetPacketSendCache N1) @ queue_view (cw_memory w) (m_stNetPacketSendQueue N1))) (cw_ev w)\<rparr>)"
      "net_inv (cc_net x') P' L'" "m_vecPacketPool (m_stNetPacketSendCache (cc_net x')) = []" "m_vecPacketPool (m_stNetPacketSendQueue (cc_net x')) = []"
      "m_stNetPacketSendPrepareQueue (cc_net x') = m_stNetPacketSendPrepareQueue N1" "cc_pstClientCtx x'"
    by (rule cn_ExecuteCmdSendAllPacket_sends [of "x\<lparr>cc_net := N1\<rparr>" "w1\<lparr>cw_sys := W3\<rparr>" L cl h "clock 0"])
       (use p(1) assms(3,5,6) in \<open>simp_all add: w1_def\<close>)
  have buf: "mem_write (replicate ST_NETWORK_CMD_REQUEST_MAX_SIZE 0) 0 ?cmd = Some ?cmd"
    using l by (simp add: mem_write_Some ST_NETWORK_CMD_REQUEST_MAX_SIZE_def)
  define w3 where "w3 = w1\<lparr>cw_sys := W3, cw_memory := P', cw_ev := append_written h (frame_bytes (clock 0) 0
        (queue_view (cw_memory w) (m_stNetPacketSendCache N1) @ queue_view (cw_memory w) (m_stNetPacketSendQueue N1))) (cw_ev w)\<rparr>"
  have last: "process_send_loop clock (Suc 0) ?cmd c1 x' w3 = Some (c1, x', w3\<lparr>cw_sys := W4\<rparr>)"
    using sel(2) by (subst process_send_loop.simps) (auto simp: w3_def c1_def)
  have first: "process_send_loop clock 0 (replicate ST_NETWORK_CMD_REQUEST_MAX_SIZE 0) c1 (x\<lparr>cc_net := N1\<rparr>) w1 =
      process_send_loop clock (Suc 0) ?cmd c1 x' w3"
    using sel(1) rd buf ex(1) assms(1,4) by (subst process_send_loop.simps) (auto simp: w1_def w3_def c1_def IsAlive_def)
  have run: "ProcessSendNetworkPackets clock c1 w1 = Some (c1\<lparr>cn_ConnectorCtx := Some x'\<rparr>, w3\<lparr>cw_sys := W4\<rparr>)"
    using first last assms(1) by (simp add: ProcessSendNetworkPackets_def c1_def IsAlive_def)
  have "m_vecPacketPool (m_stNetPacketSendQueue N1) = outgoing (cc_net x)" "m_stNetPacketSendCache N1 = m_stNetPacketSendCache (cc_net x)"
    using p(2,3,4) by (simp_all add: outgoing_def inbound_def)
  then show ?thesis
    using send run ex(2-5) p(4) assms(1)
    by (intro exI [of _ N1] exI [of _ w1] exI [of _ "c1\<lparr>cn_ConnectorCtx := Some x'\<rparr>"] exI [of _ x'] exI [of _ "w3\<lparr>cw_sys := W4\<rparr>"] exI [of _ L'])
       (simp add: c1_def w1_def w3_def IsAlive_def outgoing_def)
qed

definition pipe_answers :: "nat \<Rightarrow> answer" where
  "pipe_answers i = some_answer\<lparr>a_ret := (if i = 0 then 32 else if i = 3 then 0 else 1),
     a_data := net_cmd NETWORK_CMD_REQUEST_SEND_ALL_PACKET\<rparr>"

definition live_client :: LibeventClientCtx where
  "live_client = LibeventClientCtx_new 6 9 2 [49] 0"

definition live_connector :: "NetworkContext \<Rightarrow> Connector" where
  "live_connector N = (Connector_new 10 11 ServerIPInfo_new)\<lparr>cn_EventBase := Some 1, cn_BufferEvt := Some 2, cn_WriteEvent := Some 3,
     cn_ClientCtx := Some live_client,
     cn_ConnectorCtx := Some \<lparr>cc_net = N, cc_ulClientSeq = 5, cc_pstClientCtx = True\<rparr>, cn_ulClientSeq := 5, cn_iSockFd := 9,
     cn_iStatus := NEWTOWK_CONNECTOR_STATUS_ALIVE\<rparr>"

definition live_world :: "byte list \<Rightarrow> CPacketMemoryPool \<Rightarrow> byte list conn_world" where
  "live_world d P = (idle_world pipe_answers)\<lparr>cw_ev := \<lparr>bev_input = [2 \<mapsto> d], bev_written = (\<lambda>_. []), loop_break = False\<rparr>,
     cw_bases := (\<lambda>b. b = 1), cw_events := (\<lambda>v. v = 3), cw_memory := P\<rparr>"

theorem connector_sends_witness:
  "\<exists>N P N1 w1 c' w2. PacketProduceProtobufPacket (\<lambda>_. 1) (\<lambda>_ _. [7]) 0 5 9 SS_PROTOCOL_MESSAGE_ID_HELLO () NetworkContext_new CPacketMemoryPool_new =
       Some (True, N, P) \<and>
     connector_SendNetworkPackets (live_connector N) N (live_world [] P) = Some (N1, w1) \<and>
     ProcessSendNetworkPackets (\<lambda>_ _. 0) (live_connector N1) w1 = Some (c', w2) \<and>
     bev_written (cw_ev w2) 2 = [0, 13, 78, 33, 7, 0, 0, 0, 0, 0, 0, 0, 0]"
proof -
  let ?N = NetworkContext_new and ?P = CPacketMemoryPool_new
  have "packet_fits (5, 9, SS_PROTOCOL_MESSAGE_ID_HELLO, [7])" by (simp add: packet_fits_def)
  then obtain k P where k: "PacketProduceProtobufPacket (\<lambda>_. 1) (\<lambda>_ _. [7]) 0 5 9 SS_PROTOCOL_MESSAGE_ID_HELLO () ?N ?P =
      Some (True, ?N\<lparr>m_stNetPacketSendPrepareQueue := queue_add [k] (m_stNetPacketSendPrepareQueue ?N)\<rparr>, P)"
      "fresh_packets ?P {} [k] [(5, 9, SS_PROTOCOL_MESSAGE_ID_HELLO, [7])] P"
    using produce_packet(1) [OF pool_wf_new _ refl, where sz = "\<lambda>_. 1" and ser = "\<lambda>_ _. [7]" and m = "()" and now = 0 and N = ?N
      and seq = 5 and sock = 9 and pno = SS_PROTOCOL_MESSAGE_ID_HELLO]
    by (auto simp: codec_ok_def)
  define N where "N = ?N\<lparr>m_stNetPacketSendPrepareQueue := queue_add [k] (m_stNetPacketSendPrepareQueue ?N)\<rparr>"
  note p = net_inv_produce [OF net_inv_new [OF pool_wf_new] k(2) N_def]
  let ?x = "\<lparr>cc_net = N, cc_ulClientSeq = 5, cc_pstClientCtx = True\<rparr>"
  have view: "map (packet_view P) (outgoing N) = [(5, 9, SS_PROTOCOL_MESSAGE_ID_HELLO, [7])]"
    using p(2) k(2) by (simp add: fresh_packets_def outgoing_def NetworkContext_new_def)
  have cache: "m_vecPacketPool (m_stNetPacketSendCache N) = []" by (simp add: N_def NetworkContext_new_def)
  have bytes: "frame_bytes (\<lambda>_. 0) 0 [(5, 9, SS_PROTOCOL_MESSAGE_ID_HELLO, [7])] = [0, 13, 78, 33, 7, 0, 0, 0, 0, 0, 0, 0, 0]"
    by code_simp
  have upd: "(live_connector N)\<lparr>cn_ConnectorCtx := Some (?x\<lparr>cc_net := N1\<rparr>)\<rparr> = live_connector N1" for N1
    by (simp add: live_connector_def)
  have "\<exists>N1 w1 c' x' w2 L'. connector_SendNetworkPackets (live_connector N) (cc_net ?x) (live_world [] P) = Some (N1, w1) \<and> cw_active w1 3 \<and>
    ProcessSendNetworkPackets (\<lambda>_ _. 0) ((live_connector N)\<lparr>cn_ConnectorCtx := Some (?x\<lparr>cc_net := N1\<rparr>)\<rparr>) w1 = Some (c', w2) \<and>
    IsAlive c' \<and> cn_ConnectorCtx c' = Some x' \<and> net_inv (cc_net x') (cw_memory w2) L' \<and>
    outgoing (cc_net x') = [] \<and> m_vecPacketPool (m_stNetPacketSendCache (cc_net x')) = [] \<and>
    bev_written (cw_ev w2) 2 = bev_written (cw_ev (live_world [] P)) 2 @ frame_bytes (\<lambda>_. 0) 0
      (queue_view (cw_memory (live_world [] P)) (m_stNetPacketSendCache (cc_net ?x)) @ map (packet_view (cw_memory (live_world [] P))) (outgoing (cc_net ?x)))"
    by (rule connector_sends [where cl = live_client and n = 0])
       (use p(1) in \<open>simp_all add: live_connector_def live_client_def live_world_def idle_world_def pipe_answers_def IsAlive_def LibeventClientCtx_new_def\<close>)
  then obtain N1 w1 c' w2 where "connector_SendNetworkPackets (live_connector N) N (live_world [] P) = Some (N1, w1)"
      "ProcessSendNetworkPackets (\<lambda>_ _. 0) (live_connector N1) w1 = Some (c', w2)"
      "bev_written (cw_ev w2) 2 = frame_bytes (\<lambda>_. 0) 0 [(5, 9, SS_PROTOCOL_MESSAGE_ID_HELLO, [7])]"
    using view cache by (auto simp only: upd) (simp add: live_world_def)
  then show ?thesis using k(1) unfolding bytes N_def [symmetric] by blast
qed

section \<open>A peer that sends garbage\<close>

text \<open>
  C40. A malformed stream is parsed again and again. Once the bytes a connector has buffered contain a
  fault, each read event returns with the connector as alive as before and nothing handed to the logic:
  the frames before the fault are put into the receive preparation queue once more, in fresh memory
  of the packet pool, and the buffer still starts with the same frames and the same fault.
\<close>

theorem connector_garbage_piles_up:
  assumes "evbuffer_contract bev_read waiting" "cn_ConnectorCtx c = Some x" "cn_ClientCtx c = Some cl" "ctx_ok (le_ContextBuffer cl)"
    "bev_input (cw_ev w) h = Some inp" "net_inv (cc_net x) (cw_memory w) L" "frames_of (le_bytes cl) = (fs, rest, e)" "e \<noteq> 0"
  shows "\<exists>c' w' x' cl' rest' L'. OnConnectorBufferEventRead bev_read clock h c w = Some (c', w') \<and> cn_iStatus c' = cn_iStatus c \<and>
    cn_ConnectorCtx c' = Some x' \<and> cn_ClientCtx c' = Some cl' \<and> net_inv (cc_net x') (cw_memory w') L' \<and>
    queue_view (cw_memory w') (m_stNetPacketRecvQueue (cc_net x')) @ queue_view (cw_memory w') (m_stNetPacketRecvPrepareQueue (cc_net x')) =
      queue_view (cw_memory w) (m_stNetPacketRecvQueue (cc_net x)) @ queue_view (cw_memory w) (m_stNetPacketRecvPrepareQueue (cc_net x)) @
      map (\<lambda>(pno, body). (le_seq cl, le_fd cl, pno, body)) fs \<and>
    m_bHasSignal (m_stSignalExec (cc_net x')) = m_bHasSignal (m_stSignalExec (cc_net x)) \<and>
    frames_of (le_bytes cl') = (fs, rest', e)"
proof -
  obtain i' b k where r: "le_PacketBufferRead bev_read h cl (cw_ev w) =
      Some (if length (le_bytes cl) = 102400 then - 1 else int (length k), set_le_buffer b cl, (cw_ev w)\<lparr>bev_input := (bev_input (cw_ev w))(h := Some i')\<rparr>)"
      "k = take (102400 - length (le_bytes cl)) (waiting inp)" "ctx_ok b" "ctx_data b = le_bytes cl @ k" "ctx_id b = ctx_id (le_ContextBuffer cl)"
    by (rule le_read [OF assms(1,4,5)])
  have "frames_of (le_bytes cl @ k) = (fs, rest @ k, e)" using frames_of_append [OF assms(7), of k] assms(8) by simp
  then have fs: "frames_of (ctx_data b) = (fs, rest @ k, e)" using r(4) by simp
  obtain b' N' P' L' where u: "UnpackPacketToRecvQueue (clock 0) (Some b) (cc_net x) (cw_memory w) = Some (e, Some b', N', P')"
      "net_inv N' P' L'" "ctx_data b' = (if e = 0 then rest @ k else ctx_data b)"
      "queue_view P' (m_stNetPacketRecvQueue N') @ queue_view P' (m_stNetPacketRecvPrepareQueue N') =
       queue_view (cw_memory w) (m_stNetPacketRecvQueue (cc_net x)) @ queue_view (cw_memory w) (m_stNetPacketRecvPrepareQueue (cc_net x)) @ map (recv_tag b) fs"
      "m_bHasSignal (m_stSignalExec N') = (m_bHasSignal (m_stSignalExec (cc_net x)) \<or> (e = 0 \<and> fs \<noteq> []))"
    by (rule UnpackPacketToRecvQueue_frames [OF assms(6) r(3) fs, where clock = "clock 0"])
  have tag: "recv_tag b = (\<lambda>(pno, body). (le_seq cl, le_fd cl, pno, body))"
    using r(5) by (auto simp: recv_tag_def ctx_id_def fun_eq_iff)
  have "OnConnectorBufferEventRead bev_read clock h c w =
      Some (c\<lparr>cn_ClientCtx := Some (set_le_buffer b' cl), cn_ConnectorCtx := Some (x\<lparr>cc_net := N'\<rparr>)\<rparr>,
        w\<lparr>cw_ev := (cw_ev w)\<lparr>bev_input := (bev_input (cw_ev w))(h := Some i')\<rparr>, cw_memory := P'\<rparr>)"
    using assms(2,3,8) r(1) u(1) by (subst OnConnectorBufferEventRead_def, subst cn_read_loop.simps) (simp del: fun_upd_apply)
  then show ?thesis using u fs assms(8) tag by (auto simp del: fun_upd_apply)
qed

section \<open>The pool loses connectors\<close>

lemma AddConnector_key:
  assumes "cp_connectors cp p = Some c" "map_of (m_stConnectorPool cp) (cn_ulClientSeq c) = None" "int32_key (cn_ulClientSeq c) \<noteq> cn_ulClientSeq c"
  shows "\<exists>cp'. AddConnector p cp = Some (True, cp') \<and> CloseConnector (cn_ulClientSeq c) cp' w = Some (False, cp', w)"
proof -
  have "map_of (insort_key fst (k, p) xs) j = None" if "j \<noteq> k" "map_of xs j = None" for k j :: u64 and xs
    using that by (induction xs) auto
  then show ?thesis using assms by (auto simp: AddConnector_def CloseConnector_def Let_def)
qed

lemma small_mod:
  fixes i M :: int
  assumes "- M < i" "i < M"
  shows "i mod M = (if 0 \<le> i then i else i + M)"
proof (cases "0 \<le> i")
  case True
  then show ?thesis using assms by simp
next
  case False
  have "i mod M = (i + M) mod M" by simp
  also have "\<dots> = i + M" using assms False by (intro mod_pos_pos_trivial) linarith+
  finally show ?thesis using False by simp
qed

lemma int32_key_other:
  fixes s :: u64
  assumes "2147483648 \<le> uint s" "uint s < 18446744071562067968"
  shows "int32_key s \<noteq> s"
proof
  define i where "i = sint (ucast s :: u32)"
  assume "int32_key s = s"
  then have "scast (ucast s :: u32) = s" by (simp only: int32_key_def)
  then have "(word_of_int i :: u64) = s" unfolding i_def by (simp only: of_int_sint)
  then have u: "uint s = i mod 18446744073709551616" using uint_word_of_int [of i, where 'a = 64] by simp
  have r: "- 2147483648 \<le> i \<and> i < 2147483648" using sint_range_size [of "ucast s :: u32"] unfolding i_def [symmetric] by (simp add: word_size)
  have "i mod 18446744073709551616 = (if 0 \<le> i then i else i + 18446744073709551616)"
    by (rule small_mod) (use r in linarith)+
  then show False using u r assms by (cases "0 \<le> i") (simp_all only: if_True if_False simp_thms, linarith+)
qed

text \<open>
  The id of a connector does not fit the pool. \<open>AddConnector\<close> looks for the 64-bit id and then inserts
  it cut to a signed 32-bit number. So for every id from \<open>2 ^ 31\<close> up to \<open>2 ^ 64 - 2 ^ 31\<close> it reports success
  and \<open>CloseConnector\<close> with that id finds nothing; and when an older connector has the same
  low half, the new one is not stored at all.
\<close>

theorem connector_key_truncated:
  assumes "cp_connectors cp p = Some c" "map_of (m_stConnectorPool cp) (cn_ulClientSeq c) = None"
    "2 ^ 31 \<le> uint (cn_ulClientSeq c)" "uint (cn_ulClientSeq c) < 2 ^ 64 - 2 ^ 31"
  shows "\<exists>cp'. AddConnector p cp = Some (True, cp') \<and> CloseConnector (cn_ulClientSeq c) cp' w = Some (False, cp', w) \<and>
    (map_of (m_stConnectorPool cp) (int32_key (cn_ulClientSeq c)) \<noteq> None \<longrightarrow> cp' = cp)"
proof -
  have "int32_key (cn_ulClientSeq c) \<noteq> cn_ulClientSeq c" by (rule int32_key_other) (use assms(3,4) in simp_all)
  then show ?thesis using AddConnector_key [OF assms(1,2), of w] assms(1,2) by (auto simp: AddConnector_def Let_def)
qed

definition far_connector :: Connector where
  "far_connector = (Connector_new 0 0 ServerIPInfo_new)\<lparr>cn_ulClientSeq := 4294967303\<rparr>"

definition crowded_pool :: ConnectorPool where
  "crowded_pool = \<lparr>m_stConnectorPool = [(7, 0)],
     cp_connectors = [0 \<mapsto> (Connector_new 0 0 ServerIPInfo_new)\<lparr>cn_ulClientSeq := 7\<rparr>, 1 \<mapsto> far_connector], cp_next = 2\<rparr>"

theorem connector_key_truncated_witness:
  "AddConnector 1 crowded_pool = Some (True, crowded_pool) \<and>
   CloseConnector 4294967303 crowded_pool (idle_world (\<lambda>_. some_answer)) = Some (False, crowded_pool, idle_world (\<lambda>_. some_answer))"
proof -
  have k: "int32_key 4294967303 = 7" by code_simp
  have q: "cn_ulClientSeq far_connector = 4294967303" by (simp add: far_connector_def)
  have "\<exists>cp'. AddConnector 1 crowded_pool = Some (True, cp') \<and>
      CloseConnector (cn_ulClientSeq far_connector) cp' (idle_world (\<lambda>_. some_answer)) = Some (False, cp', idle_world (\<lambda>_. some_answer)) \<and>
      (map_of (m_stConnectorPool crowded_pool) (int32_key (cn_ulClientSeq far_connector)) \<noteq> None \<longrightarrow> cp' = crowded_pool)"
    by (rule connector_key_truncated) (simp_all add: q, simp_all add: crowded_pool_def)
  moreover have "map_of (m_stConnectorPool crowded_pool) 7 \<noteq> None" by (simp add: crowded_pool_def)
  ultimately show ?thesis by (auto simp: q k)
qed

theorem connector_garbage_piles_up_witness:
  "\<exists>c' w' x'. OnConnectorBufferEventRead list_read (\<lambda>_ _. 0) 2
       ((live_connector NetworkContext_new)\<lparr>cn_ClientCtx := Some (set_le_buffer ((le_ContextBuffer live_client)\<lparr>
          m_chBuffer := [0, 5, 0, 1, 9, 0, 4, 0, 1] @ replicate 102391 0, ctx_iBufferSize := 9\<rparr>) live_client)\<rparr>)
       (live_world [] CPacketMemoryPool_new) = Some (c', w') \<and> IsAlive c' \<and> cn_ConnectorCtx c' = Some x' \<and>
     queue_view (cw_memory w') (m_stNetPacketRecvQueue (cc_net x')) @ queue_view (cw_memory w') (m_stNetPacketRecvPrepareQueue (cc_net x')) =
       [(6, 9, 1, [9])] \<and> \<not> m_bHasSignal (m_stSignalExec (cc_net x'))"
proof -
  define b where "b = (le_ContextBuffer live_client)\<lparr>m_chBuffer := [0, 5, 0, 1, 9, 0, 4, 0, 1] @ replicate 102391 0, ctx_iBufferSize := 9\<rparr>"
  let ?cl = "set_le_buffer b live_client"
  let ?x = "\<lparr>cc_net = NetworkContext_new, cc_ulClientSeq = 5, cc_pstClientCtx = True\<rparr>"
  have l: "length ([0, 5, 0, 1, 9, 0, 4, 0, 1] @ replicate 102391 (0 :: byte)) = 102400" by (simp only: length_append length_replicate) simp
  have ok: "ctx_ok b" using l by (simp add: b_def ctx_ok_def NETWORK_PACKET_BUFFER_READ_SIZE_def)
  have d: "ctx_data b = [0, 5, 0, 1, 9, 0, 4, 0, 1]" by (simp add: b_def ctx_data_def)
  have id: "ctx_ulClientSeq b = 6" "m_iClientFd b = 9" by (simp_all add: b_def live_client_def LibeventClientCtx_new_def)
  have "frames_of [0, 4, 0, 1] = ([], [0, 4, 0, 1], - 2)" by code_simp
  then have fs: "frames_of (ctx_data b) = ([(1, [9])], [0, 4, 0, 1], - 2)" unfolding d by code_simp
  have con: "evbuffer_contract list_read (\<lambda>d. d)" by (simp add: evbuffer_contract_def list_read_def)
  have "\<exists>c' w' x' cl' rest' L'. OnConnectorBufferEventRead list_read (\<lambda>_ _. 0) 2 ((live_connector NetworkContext_new)\<lparr>cn_ClientCtx := Some ?cl\<rparr>)
        (live_world [] CPacketMemoryPool_new) = Some (c', w') \<and>
      cn_iStatus c' = cn_iStatus ((live_connector NetworkContext_new)\<lparr>cn_ClientCtx := Some ?cl\<rparr>) \<and>
      cn_ConnectorCtx c' = Some x' \<and> cn_ClientCtx c' = Some cl' \<and> net_inv (cc_net x') (cw_memory w') L' \<and>
      queue_view (cw_memory w') (m_stNetPacketRecvQueue (cc_net x')) @ queue_view (cw_memory w') (m_stNetPacketRecvPrepareQueue (cc_net x')) =
        queue_view (cw_memory (live_world [] CPacketMemoryPool_new)) (m_stNetPacketRecvQueue (cc_net ?x)) @
        queue_view (cw_memory (live_world [] CPacketMemoryPool_new)) (m_stNetPacketRecvPrepareQueue (cc_net ?x)) @
        map (\<lambda>(pno, body). (le_seq ?cl, le_fd ?cl, pno, body)) [(1, [9])] \<and>
      m_bHasSignal (m_stSignalExec (cc_net x')) = m_bHasSignal (m_stSignalExec (cc_net ?x)) \<and>
      frames_of (le_bytes cl') = ([(1, [9])], rest', - 2)"
    by (rule connector_garbage_piles_up [OF con, where inp = "[]" and L = "{}"])
       (use ok fs net_inv_new [OF pool_wf_new] in \<open>simp_all add: live_connector_def live_world_def\<close>)
  then show ?thesis
    unfolding b_def [symmetric] using id
    by (auto simp: IsAlive_def live_connector_def NetworkContext_new_def signal_new_def)
qed

end
