(* ===== verification/Game_Logic.thy ===== *)
theory Game_Logic
  imports Connector Game_Timer
begin

text \<open>
  The logic thread of the game server: \<open>service/gamesvr/gamelogic.cpp\<close> with the server front it
  calls, \<open>network/server.cpp\<close>.
  \<^item> \<open>Gamesvr\<close> holds the queues of the two servers, the descriptors of their command pipes (\<open>None\<close> is a
    server that has not been started), the connectors and the timers. The packet pool and
    the kernel are those of \<open>conn_world\<close>.
  \<^item> The functions that timers call are not part of the server; a turn returns which were called.
  \<^item> The end of the theory puts the parts together: a request that comes in over libevent and its answer, the
    same over the socket server, and the hand-over of packets between the two threads, step by step.
\<close>

section \<open>The server front\<close>

record ServerMonitor =
  m_bInitSucc :: bool

definition Inited :: "ServerMonitor \<Rightarrow> bool \<times> ServerMonitor" where
  "Inited m = (let m = m\<lparr>m_bInitSucc := True\<rparr> in (m_bInitSucc m, m))"

definition IsInited :: "ServerMonitor \<Rightarrow> bool" where
  "IsInited m = m_bInitSucc m"

definition server_SendNetworkPackets :: "int option \<Rightarrow> NetworkContext \<Rightarrow> world \<Rightarrow> (NetworkContext \<times> world) option" where
  "server_SendNetworkPackets m_pstServer N W = do {
     m_iSendCtrlFd \<leftarrow> m_pstServer;
     let N = snd (PacketSendPrepare N);
     W \<leftarrow> SendNetworkCmd m_iSendCtrlFd (net_cmd NETWORK_CMD_REQUEST_SEND_ALL_PACKET) W;
     Some (N, W)
   }"

section \<open>The logic\<close>

record 'e Gamesvr =
  gs_main :: NetworkContext
  gs_main_server :: "int option"
  gs_proxy :: NetworkContext
  gs_proxy_server :: "int option"
  gs_connectors :: ConnectorPool
  gs_timer :: GameTimer
  gs_world :: "'e conn_world"

definition ProcessTimerCallback :: "nat \<Rightarrow> GameTimer \<Rightarrow> (nat \<times> nat) list \<times> GameTimer" where
  "ProcessTimerCallback m_stTimerWaitQueue g =
     (let (m_stTimerExecuteQueue, g) = PrepareExecute m_stTimerWaitQueue [] g
      in (map Callback m_stTimerExecuteQueue, g))"

definition ProcessCSNetworkPacketHandle ::
    "protobuf \<Rightarrow> (nat \<Rightarrow> u64 \<times> u64) \<Rightarrow> int option \<Rightarrow> int \<Rightarrow> NetworkContext \<Rightarrow> CPacketMemoryPool \<Rightarrow> world
     \<Rightarrow> (NetworkContext \<times> CPacketMemoryPool \<times> world) option" where
  "ProcessCSNetworkPacketHandle C clock svr =
     ProcessPackets (HandleCSProto C) (\<lambda>i. i > 0 \<and> i mod 1000 = 0) (server_SendNetworkPackets svr) clock"

definition ProcessCSNetworkPacket ::
    "protobuf \<Rightarrow> (nat \<Rightarrow> u64 \<times> u64) \<Rightarrow> int option \<Rightarrow> NetworkContext \<Rightarrow> CPacketMemoryPool \<Rightarrow> world
     \<Rightarrow> (int \<times> NetworkContext \<times> CPacketMemoryPool \<times> world) option" where
  "ProcessCSNetworkPacket C clock svr N P W =
     (let (b, s) = CheckAndSetSignalActived (m_stSignalExec N); N = N\<lparr>m_stSignalExec := s\<rparr> in
      if \<not> b then Some (0, N, P, W)
      else let (iPacketNum, N) = CopyPacketsFromNetToLogic N in do {
        (N, P, W) \<leftarrow> ProcessCSNetworkPacketHandle C clock svr iPacketNum N P W;
        Some (iPacketNum, N, P, W)
      })"

text \<open>\<open>_ProcessSSNetworkPacketHandle\<close> is a template over the owner of the queues; \<open>send\<close> is its \<open>SendNetworkPackets\<close>.\<close>

definition ProcessSSNetworkPacketHandle ::
    "protobuf \<Rightarrow> (nat \<Rightarrow> u64 \<times> u64) \<Rightarrow> (NetworkContext \<Rightarrow> 'w \<Rightarrow> (NetworkContext \<times> 'w) option) \<Rightarrow> int
     \<Rightarrow> NetworkContext \<Rightarrow> CPacketMemoryPool \<Rightarrow> 'w \<Rightarrow> (NetworkContext \<times> CPacketMemoryPool \<times> 'w) option" where
  "ProcessSSNetworkPacketHandle C clock send = ProcessPackets (HandleSSProtoExecute C) (\<lambda>_. False) send clock"

definition ss_turn ::
    "protobuf \<Rightarrow> (nat \<Rightarrow> u64 \<times> u64) \<Rightarrow> (NetworkContext \<Rightarrow> 'w \<Rightarrow> (NetworkContext \<times> 'w) option)
     \<Rightarrow> NetworkContext \<Rightarrow> CPacketMemoryPool \<Rightarrow> 'w \<Rightarrow> (int \<times> NetworkContext \<times> CPacketMemoryPool \<times> 'w) option" where
  "ss_turn C clock send N P W =
     (let (b, s) = CheckAndSetSignalActived (m_stSignalExec N); N = N\<lparr>m_stSignalExec := s\<rparr> in
      if \<not> b then Some (0, N, P, W)
      else let (iPacketNum, N) = CopyPacketsFromNetToLogic N in do {
        (N, P, W) \<leftarrow> ProcessSSNetworkPacketHandle C clock send iPacketNum N P W;
        Some (iPacketNum, N, P, W)
      })"

fun process_connectors ::
    "protobuf \<Rightarrow> (nat \<Rightarrow> nat \<Rightarrow> u64 \<times> u64) \<Rightarrow> nat \<Rightarrow> nat list \<Rightarrow> ConnectorPool \<Rightarrow> 'e conn_world \<Rightarrow> (int \<times> ConnectorPool \<times> 'e conn_world) option" where
  "process_connectors C clock i [] cp w = Some (0, cp, w)"
| "process_connectors C clock i (p # ps) cp w = do {
     c \<leftarrow> cp_connectors cp p;
     (if \<not> IsAlive c then process_connectors C clock (Suc i) ps cp w
      else do {
        x \<leftarrow> cn_ConnectorCtx c;
        (iPacketNum, N, P, w) \<leftarrow> ss_turn C (clock i) (connector_SendNetworkPackets c) (cc_net x) (cw_memory w) w;
        let c = c\<lparr>cn_ConnectorCtx := Some (x\<lparr>cc_net := N\<rparr>)\<rparr>;
        (n, cp, w) \<leftarrow> process_connectors C clock (Suc i) ps (cp\<lparr>cp_connectors := (cp_connectors cp)(p := Some c)\<rparr>) (w\<lparr>cw_memory := P\<rparr>);
        Some (iPacketNum + n, cp, w)
      })
   }"

definition ProcessSSNetworkPacket :: "protobuf \<Rightarrow> (nat \<Rightarrow> nat \<Rightarrow> u64 \<times> u64) \<Rightarrow> 'e Gamesvr \<Rightarrow> (int \<times> 'e Gamesvr) option" where
  "ProcessSSNetworkPacket C clock G = do {
     let w = gs_world G;
     (n1, N, P, W) \<leftarrow> ss_turn C (clock 0) (server_SendNetworkPackets (gs_proxy_server G)) (gs_proxy G) (cw_memory w) (cw_sys w);
     let w = w\<lparr>cw_memory := P, cw_sys := W\<rparr>;
     vecConnectorQueue \<leftarrow> ProcessAliveConnectors (gs_connectors G);
     (n2, cp, w) \<leftarrow> process_connectors C clock 1 vecConnectorQueue (gs_connectors G) w;
     cp \<leftarrow> ProcessClosedConnectors cp;
     Some (n1 + n2, G\<lparr>gs_proxy := N, gs_connectors := cp, gs_world := w\<rparr>)
   }"

definition logic_ProcessOneLoop ::
    "protobuf \<Rightarrow> (nat \<Rightarrow> nat \<Rightarrow> u64 \<times> u64) \<Rightarrow> (nat \<Rightarrow> u64 \<times> u64) \<Rightarrow> nat \<Rightarrow> 'e Gamesvr \<Rightarrow> ((nat \<times> nat) list \<times> 'e Gamesvr) option" where
  "logic_ProcessOneLoop C ss_clock cs_clock m_stTimerWaitQueue G = do {
     let (calls, g) = ProcessTimerCallback m_stTimerWaitQueue (gs_timer G);
     (_, G) \<leftarrow> ProcessSSNetworkPacket C ss_clock (G\<lparr>gs_timer := g\<rparr>);
     let w = gs_world G;
     (_, N, P, W) \<leftarrow> ProcessCSNetworkPacket C cs_clock (gs_main_server G) (gs_main G) (cw_memory w) (cw_sys w);
     Some (calls, G\<lparr>gs_main := N, gs_world := w\<lparr>cw_memory := P, cw_sys := W\<rparr>\<rparr>)
   }"

definition StartProxyConnector ::
    "nat option \<Rightarrow> (nat \<times> 'e) option \<Rightarrow> int \<Rightarrow> int \<Rightarrow> u64 list \<Rightarrow> GameSvrConf \<Rightarrow> 'e Gamesvr \<Rightarrow> (u64 list \<times> 'e Gamesvr) option" where
  "StartProxyConnector base bev junk_recv junk_send uclock rstGameSvrConf G = do {
     (pstConnector, uclock, cp, w) \<leftarrow> NewConnector base bev junk_recv junk_send uclock (m_stProxyServerIPInfo rstGameSvrConf)
       (gs_connectors G) (gs_world G);
     (case pstConnector of
        None \<Rightarrow> Some (uclock, G\<lparr>gs_connectors := cp, gs_world := w\<rparr>)
      | Some p \<Rightarrow> do {
          c \<leftarrow> cp_connectors cp p;
          let (_, c, w) = StartMainThread c w;
          Some (uclock, G\<lparr>gs_connectors := cp\<lparr>cp_connectors := (cp_connectors cp)(p := Some c)\<rparr>, gs_world := w\<rparr>)
        })
   }"

section \<open>One turn\<close>

interpretation sv: packet_sender "server_SendNetworkPackets (Some f)" accepts_commands
  "command_written f (net_cmd NETWORK_CMD_REQUEST_SEND_ALL_PACKET)" for f
proof unfold_locales
  fix W N
  assume "accepts_commands W"
  then show "\<exists>W'. server_SendNetworkPackets (Some f) N W = Some (snd (PacketSendPrepare N), W') \<and> accepts_commands W' \<and>
      command_written f (net_cmd NETWORK_CMD_REQUEST_SEND_ALL_PACKET) W'"
    using SendNetworkCmd_written [of W "net_cmd NETWORK_CMD_REQUEST_SEND_ALL_PACKET" f] by (auto simp: server_SendNetworkPackets_def)
qed

interpretation cs_logic: packet_turn "HandleCSProto C" "cs_reply C" "cs_codec C" "server_SendNetworkPackets (Some f)" accepts_commands
  "command_written f (net_cmd NETWORK_CMD_REQUEST_SEND_ALL_PACKET)" for C f
  by unfold_locales

interpretation ss_logic: packet_turn "HandleSSProtoExecute C" "ss_reply C" "ss_codec C" "server_SendNetworkPackets (Some f)" accepts_commands
  "command_written f (net_cmd NETWORK_CMD_REQUEST_SEND_ALL_PACKET)" for C f
  by unfold_locales

interpretation cn_logic: packet_turn "HandleSSProtoExecute C" "ss_reply C" "ss_codec C" "connector_SendNetworkPackets c" "connector_ready c"
  "connector_posted c" for C c
  by unfold_locales

lemma ProcessCSNetworkPacket_turn: "ProcessCSNetworkPacket C clock svr =
    logic_turn (HandleCSProto C) (\<lambda>i. i > 0 \<and> i mod 1000 = 0) (server_SendNetworkPackets svr) clock"
  by (intro ext) (simp add: ProcessCSNetworkPacket_def ProcessCSNetworkPacketHandle_def logic_turn_def Let_def split_def)

lemma ss_turn_turn: "ss_turn C clock send = logic_turn (HandleSSProtoExecute C) (\<lambda>_. False) send clock"
  by (intro ext) (simp add: ss_turn_def ProcessSSNetworkPacketHandle_def logic_turn_def Let_def split_def)

text \<open>
  C10. A turn of the logic answers every request. In any state of the queues that satisfies the invariant, with the
  signal set and a protobuf library that keeps its contract, \<open>_ProcessCSNetworkPacket\<close> either
  returns or fails, and it fails exactly when an answer is longer than a packet may be. When it
  returns, it has handled all received packets; behind the packets that were waiting to be sent
  stand, in the order of the requests, one answer for each \<open>HELLO\<close> with its id and content, addressed to the
  client that asked; the memory of the requests is back in the pool, no other queue has changed, the signal is reset,
  and the last thing written to the command pipe is the command to send.
\<close>

theorem logic_answers_every_request:
  assumes "cs_codec C" "accepts_commands W" "net_inv N P L" "m_vecPacketPool (m_stNetPacketLogicQueue N) = []"
    "m_bHasSignal (m_stSignalExec N)"
  defines "ks \<equiv> m_vecPacketPool (m_stNetPacketRecvQueue N)"
  shows "if \<forall>v\<in>set (replies (cs_reply C) clock 0 P ks). packet_fits v
    then \<exists>N' P' W'. ProcessCSNetworkPacket C clock (Some f) N P W = Some (int (length ks), N', P', W') \<and>
      command_written f (net_cmd NETWORK_CMD_REQUEST_SEND_ALL_PACKET) W' \<and> answered N P (replies (cs_reply C) clock 0 P ks) N' P'
    else ProcessCSNetworkPacket C clock (Some f) N P W = None"
proof -
  from cs_logic.turn_replies [OF assms(1-5), of clock "\<lambda>i. i > 0 \<and> i mod 1000 = 0" f]
  show ?thesis unfolding ks_def [symmetric] ProcessCSNetworkPacket_turn by (auto split: if_splits)
qed

text \<open>A protobuf library for examples: the encoding of a message is its content.\<close>

definition echo :: protobuf where
  "echo = no_protobuf\<lparr>CSHello_ParseFromArray := (\<lambda>d. \<lparr>hello_id = 0, hello_content = d\<rparr>),
     CSHelloRsp_ByteSizeLong := (\<lambda>m. int (length (rsp_content m))), CSHelloRsp_SerializeToArray := (\<lambda>m _. rsp_content m)\<rparr>"

definition willing_kernel :: world where
  "willing_kernel = \<lparr>w_env = (\<lambda>_. some_answer\<lparr>a_ret := 32\<rparr>), w_next = 0, w_trace = []\<rparr>"

lemma echo_codec: "cs_codec echo"
  by (simp add: codec_ok_def echo_def)

lemma willing_kernel_accepts: "accepts_commands willing_kernel"
  by (auto simp: accepts_commands_def willing_kernel_def ST_NETWORK_CMD_REQUEST_MAX_SIZE_def)

definition waiting_for_logic :: "NetPacketBuffer list \<Rightarrow> NetworkContext" where
  "waiting_for_logic ks = NetworkContext_new\<lparr>m_stNetPacketRecvQueue := queue_of ks, m_stSignalExec := \<lparr>m_bHasSignal = True\<rparr>\<rparr>"

lemma waiting_for_logic_inv:
  assumes "fresh_packets CPacketMemoryPool_new {} ks vs P"
  shows "net_inv (waiting_for_logic ks) P (packet_ptr ` set ks)" "queue_view P (m_stNetPacketRecvQueue (waiting_for_logic ks)) = vs"
  using assms
  by (simp_all add: net_inv_def packets_inv_def fresh_packets_def waiting_for_logic_def NetworkContext_new_def all_packets_def all_queues_def)

lemma one_request:
  obtains k P where "AddPacket 0 seq 5 1 2 [8, 9] queue_Init CPacketMemoryPool_new = Some (queue_of [k], P)"
    "fresh_packets CPacketMemoryPool_new {} [k] [(seq, 5, 1, [8, 9])] P"
proof -
  obtain k P where k: "AddPacket 0 seq 5 1 2 [8, 9] queue_Init CPacketMemoryPool_new = Some (queue_add [k] queue_Init, P)"
      "packet_ptr k \<notin> {}" "pool_wf P (insert (packet_ptr k) {})" "packet_ok P k" "packet_view P k = (seq, 5, 1, take (nat 2) [8, 9])"
    by (rule AddPacket_ok [OF pool_wf_new, of 2 "[8, 9]" 0 seq 5 1 queue_Init]) (simp_all add: packet_consts)
  have "queue_add [k] queue_Init = queue_of [k]" by (simp add: queue_add_def queue_Init_def queue_of_def)
  moreover have "packet_view P k = (seq, 5, 1, [8, 9])" using k(5) by (simp add: numeral_2_eq_2)
  ultimately show ?thesis using that [of k P] k by (simp add: fresh_packets_def)
qed

lemma waiting_for_logic_simps:
  "m_vecPacketPool (m_stNetPacketRecvQueue (waiting_for_logic ks)) = ks" "outgoing (waiting_for_logic ks) = []"
  "m_vecPacketPool (m_stNetPacketLogicQueue (waiting_for_logic ks)) = []" "m_bHasSignal (m_stSignalExec (waiting_for_logic ks))"
  "m_vecPacketPool (m_stNetPacketSendCache (waiting_for_logic ks)) = []" "m_vecPacketPool (m_stNetPacketRecvPrepareQueue (waiting_for_logic ks)) = []"
  by (simp_all add: waiting_for_logic_def outgoing_def NetworkContext_new_def)

theorem logic_answers_every_request_witness:
  "\<exists>k P N' P' W'. AddPacket 0 7 5 1 2 [8, 9] queue_Init CPacketMemoryPool_new = Some (queue_of [k], P) \<and>
     ProcessCSNetworkPacket echo (\<lambda>_. (0, 0)) (Some 4) (waiting_for_logic [k]) P willing_kernel = Some (1, N', P', W') \<and>
     queue_view P' (m_stNetPacketSendQueue N') = [(7, 5, 1, [8, 9])] \<and>
     last (w_trace W') = Sys_Write 4 (net_cmd NETWORK_CMD_REQUEST_SEND_ALL_PACKET)"
proof -
  obtain k P where k: "AddPacket 0 7 5 1 2 [8, 9] queue_Init CPacketMemoryPool_new = Some (queue_of [k], P)"
      "fresh_packets CPacketMemoryPool_new {} [k] [(7, 5, 1, [8, 9])] P"
    by (rule one_request)
  note inv = waiting_for_logic_inv [OF k(2)]
  have "packet_view P k = (7, 5, 1, [8, 9])" using k(2) by (simp add: fresh_packets_def)
  then have f: "m_ulClientSeq k = 7" "m_iSockFd k = 5" "m_iProtoNo k = 1" "packet_payload P k = [8, 9]"
    by (simp_all add: packet_view_def packet_payload_def)
  have r: "replies (cs_reply echo) (\<lambda>_. (0, 0)) 0 P [k] = [(7, 5, 1, [8, 9])]"
    by (simp add: cs_reply_def f CS_PROTOCOL_MESSAGE_ID_HELLO_def hello_answer_def echo_def Let_def)
  from logic_answers_every_request [OF echo_codec willing_kernel_accepts inv(1) waiting_for_logic_simps(3,4), of "\<lambda>_. (0, 0)" 4] show ?thesis
    using k(1) unfolding waiting_for_logic_simps(1) r by (auto simp: packet_fits_def answered_def command_written_def waiting_for_logic_simps)
qed

lemma connector_turn_answers:
  assumes "ss_codec C" "connector_ready c w" "net_inv N P L" "m_vecPacketPool (m_stNetPacketLogicQueue N) = []"
    "m_bHasSignal (m_stSignalExec N)" "\<forall>v\<in>set (replies (ss_reply C) clock 0 P (m_vecPacketPool (m_stNetPacketRecvQueue N))). packet_fits v"
  shows "\<exists>N' P' w'. ss_turn C clock (connector_SendNetworkPackets c) N P w = Some (int (length (m_vecPacketPool (m_stNetPacketRecvQueue N))), N', P', w') \<and>
    connector_posted c w' \<and> answered N P (replies (ss_reply C) clock 0 P (m_vecPacketPool (m_stNetPacketRecvQueue N))) N' P'"
  using cn_logic.turn_replies [OF assms(1-5), of clock "\<lambda>_. False"] assms(6) unfolding ss_turn_turn by auto

lemma proxy_turn_answers:
  assumes "ss_codec C" "accepts_commands W" "net_inv N P L" "m_vecPacketPool (m_stNetPacketLogicQueue N) = []"
    "m_bHasSignal (m_stSignalExec N)" "\<forall>v\<in>set (replies (ss_reply C) clock 0 P (m_vecPacketPool (m_stNetPacketRecvQueue N))). packet_fits v"
  shows "\<exists>N' P' W'. ss_turn C clock (server_SendNetworkPackets (Some f)) N P W = Some (int (length (m_vecPacketPool (m_stNetPacketRecvQueue N))), N', P', W') \<and>
    command_written f (net_cmd NETWORK_CMD_REQUEST_SEND_ALL_PACKET) W' \<and>
    answered N P (replies (ss_reply C) clock 0 P (m_vecPacketPool (m_stNetPacketRecvQueue N))) N' P'"
  using ss_logic.turn_replies [OF assms(1-5), of clock "\<lambda>_. False" f] assms(6) unfolding ss_turn_turn by auto

section \<open>Reading keeps the other queues\<close>

definition outbound :: "NetworkContext \<Rightarrow> NetPacketQueue \<times> NetPacketQueue \<times> NetPacketQueue \<times> NetPacketQueue" where
  "outbound N = (m_stNetPacketLogicQueue N, m_stNetPacketSendPrepareQueue N, m_stNetPacketSendQueue N, m_stNetPacketSendCache N)"

text \<open>The network thread is \<open>prompt\<close> when nothing is left in preparation and received packets are signalled.\<close>

definition prompt :: "NetworkContext \<Rightarrow> bool" where
  "prompt N \<longleftrightarrow> m_vecPacketPool (m_stNetPacketRecvPrepareQueue N) = [] \<and>
     (m_vecPacketPool (m_stNetPacketRecvQueue N) \<noteq> [] \<longrightarrow> m_bHasSignal (m_stSignalExec N))"

lemma unpack_loop_count:
  "unpack_loop clock c ptr left t q P = Some (ret, ptr', left', t', q', P') \<Longrightarrow> t \<le> t' \<and> (t' = t \<longrightarrow> q' = q)"
proof (induction clock c ptr left t q P rule: unpack_loop.induct)
  case (1 clock c ptr left t q P)
  show ?case using 1(2)
    by (subst (asm) unpack_loop.simps)
       (auto simp: bind_eq_Some_conv Let_def split: if_splits dest!: 1(1))
qed

lemma Unpack_prompt:
  assumes "UnpackPacketToRecvQueue clock (Some c) N P = Some (ret, b, N', P')"
  shows "outbound N' = outbound N" "ret = 0 \<Longrightarrow> prompt N \<Longrightarrow> prompt N'"
proof -
  obtain r ptr left t q P1 where u: "unpack_loop clock c 0 (ctx_iBufferSize c) 0 (m_stNetPacketRecvPrepareQueue N) P = Some (r, ptr, left, t, q, P1)"
    and rest: "(if r \<noteq> 0 then Some (r, Some c, N\<lparr>m_stNetPacketRecvPrepareQueue := q\<rparr>, P1)
      else MoveBufferPtr ptr left c \<bind> (\<lambda>c. let N = snd (PacketRecvPrepare (N\<lparr>m_stNetPacketRecvPrepareQueue := q\<rparr>));
        N = (if t > 0 then N\<lparr>m_stSignalExec := Emit (m_stSignalExec N)\<rparr> else N) in Some (0, Some c, N, P1))) = Some (ret, b, N', P')"
    using assms by (auto simp: UnpackPacketToRecvQueue_def bind_eq_Some_conv Let_def)
  have q: "0 < t \<or> q = m_stNetPacketRecvPrepareQueue N" using unpack_loop_count [OF u] by auto
  show "outbound N' = outbound N"
    using rest by (cases "r = 0") (auto simp: PacketRecvPrepare_def outbound_def Let_def bind_eq_Some_conv split_def)
  show "prompt N'" if "ret = 0" "prompt N"
    using rest q that
    by (cases "r = 0") (auto simp: PacketRecvPrepare_def CopyFrom_def prompt_def queue_Init_def Emit_def Let_def bind_eq_Some_conv split: if_splits)
qed

lemma read_loop_prompt:
  assumes "read_loop bev_read clock i h p S V = Some r"
  shows "outbound (svr_net (fst r)) = outbound (svr_net S) \<and> bev_written (snd r) = bev_written V \<and>
    (prompt (svr_net S) \<longrightarrow> prompt (svr_net (fst r)) \<or> svr_clients (fst r) p = None)"
  using assms
proof (rule read_loop.raw_induct [rotated, where
      P = "\<lambda>bev_read clock i h p S V r. outbound (svr_net (fst r)) = outbound (svr_net S) \<and> bev_written (snd r) = bev_written V \<and>
         (prompt (svr_net S) \<longrightarrow> prompt (svr_net (fst r)) \<or> svr_clients (fst r) p = None)"], goal_cases)
  case (1 loop bev_read clock i h p S V r)
  have rd: "bev_written V' = bev_written V" if "le_PacketBufferRead bev_read h c V = Some (n, c', V')" for n c c' V V'
    using that by (auto simp: le_PacketBufferRead_def Let_def bind_eq_Some_conv split_def split: if_splits)
  have cl: "svr_net (fst r) = svr_net S \<and> svr_clients (fst r) p = None \<and> bev_written (snd r) = bev_written V" if "CloseClient p S V = Some r" for S r V
    using that by (auto simp: CloseClient_def server_RemoveClient_def delete_client_def LibeventClientCtx_delete_def bufferevent_free_def
        bind_eq_Some_conv split: option.splits)
  have ex: "outbound (svr_net S') = outbound (svr_net S) \<and> (n = 0 \<longrightarrow> prompt (svr_net S) \<longrightarrow> prompt (svr_net S'))"
    if "server_ExecuteCmdRecvAllPacket le_ContextBuffer set_le_buffer k p S = Some (n, S')" for k n S S'
    using that by (auto simp: server_ExecuteCmdRecvAllPacket_def bind_eq_Some_conv dest: Unpack_prompt)
  show ?case using 1(2)
    by (auto simp: bind_eq_Some_conv Let_def split: if_splits dest!: rd ex cl 1(1))
qed

section \<open>Answers on their way back\<close>

definition answer_to :: "protobuf \<Rightarrow> packet \<Rightarrow> packet \<Rightarrow> bool" where
  "answer_to C v r \<longleftrightarrow> (case v of (seq, sock, pno, body) \<Rightarrow> \<exists>t t'. r = (seq, sock, CS_PROTOCOL_MESSAGE_ID_HELLO,
     let rsp = \<lparr>rsp_id = hello_id (CSHello_ParseFromArray C body), rsp_content = hello_content (CSHello_ParseFromArray C body),
                rsp_unpack_timestamp = t, rsp_logic_timestamp = t'\<rparr>
     in CSHelloRsp_SerializeToArray C rsp (CSHelloRsp_ByteSizeLong C rsp)))"

definition is_hello :: "packet \<Rightarrow> bool" where
  "is_hello v \<longleftrightarrow> fst (snd (snd v)) = CS_PROTOCOL_MESSAGE_ID_HELLO"

lemma replies_answer:
  "list_all2 (answer_to C) (filter is_hello (map (packet_view P) ks)) (replies (cs_reply C) clock i P ks)"
proof (induction ks arbitrary: i)
  case Nil
  then show ?case by simp
next
  case (Cons k ks)
  have "answer_to C (packet_view P k) (m_ulClientSeq k, m_iSockFd k, CS_PROTOCOL_MESSAGE_ID_HELLO,
      let rsp = hello_answer C t P k in CSHelloRsp_SerializeToArray C rsp (CSHelloRsp_ByteSizeLong C rsp))" for t
    by (auto simp: answer_to_def packet_view_def hello_answer_def packet_payload_def Let_def)
  moreover have "is_hello (packet_view P k) \<longleftrightarrow> m_iProtoNo k = CS_PROTOCOL_MESSAGE_ID_HELLO"
    by (simp add: is_hello_def packet_view_def)
  ultimately show ?case using Cons [of "Suc i"] by (simp add: cs_reply_def [of C "clock i" P k])
qed

lemma replies_client:
  assumes "\<forall>v\<in>set (map (packet_view P) ks). fst v = q"
  shows "\<forall>v\<in>set (replies (cs_reply C) clock i P ks). fst v = q"
  using assms by (induction ks arbitrary: i) (auto simp: cs_reply_def packet_view_def split: if_splits)

lemma le_send_packets_frames:
  assumes "GetClient q (m_stClientPool S) = Some p" "svr_clients S p = Some c" "m_pstBufferEvent c = Some h"
  shows "\<forall>k\<in>set ks. packet_ok (svr_memory S) k \<and> m_ulClientSeq k = q \<Longrightarrow> bev_input V h \<noteq> None \<Longrightarrow>
    le_send_packets clock i S ks V = Some (append_written h (frame_bytes clock i (map (packet_view (svr_memory S)) ks)) V)"
proof (induction ks arbitrary: i V)
  case Nil
  then show ?case by simp
next
  case (Cons k ks)
  then show ?case
    using assms le_PacketBufferSend_frame [OF _ assms(3), of "svr_memory S" k V "clock i", folded append_written_def] by simp
qed

lemma le_RecvNetworkCmd_sends:
  assumes inv: "net_inv (svr_net S) (svr_memory S) L" and q: "GetClient q (m_stClientPool S) = Some p" "svr_clients S p = Some c" "m_pstBufferEvent c = Some h"
    and h: "bev_input V h \<noteq> None" and cache: "m_vecPacketPool (m_stNetPacketSendCache (svr_net S)) = []"
    and all: "\<forall>k\<in>set (m_vecPacketPool (m_stNetPacketSendQueue (svr_net S))). m_ulClientSeq k = q" and v: "m_pstEventBase v \<noteq> None"
  obtains S' L' where "le_RecvNetworkCmd clock (net_cmd NETWORK_CMD_REQUEST_SEND_ALL_PACKET) v S V = Some (S',
      append_written h (frame_bytes clock 0 (queue_view (svr_memory S) (m_stNetPacketSendQueue (svr_net S)))) V)"
    "net_inv (svr_net S') (svr_memory S') L'" "outgoing (svr_net S') = m_vecPacketPool (m_stNetPacketSendPrepareQueue (svr_net S))"
    "m_vecPacketPool (m_stNetPacketSendCache (svr_net S')) = []"
proof -
  define N where "N = snd (PacketSendPrepareCache (svr_net S))"
  define S1 where "S1 = S\<lparr>svr_net := N\<rparr>"
  let ?N = "N\<lparr>m_stNetPacketSendQueue := queue_Init, m_stNetPacketSendCache := queue_of []\<rparr>"
  note n = net_inv_send_cache [OF inv, folded N_def]
  have e: "m_vecPacketPool (m_stNetPacketSendQueue N) = []" by (simp add: n(1))
  obtain ca P' where r: "ReleaseAllPackets (m_stNetPacketSendCache N) (svr_memory S) = Some (ca, P')"
      "PacketSendPrepareCache (N\<lparr>m_stNetPacketSendCache := ca\<rparr>) = (0, ?N)"
      "net_inv ?N P' (L - packet_ptr ` set (m_vecPacketPool (m_stNetPacketSendCache N)))"
    by (rule release_cache [OF n(2) e])
  have ks: "m_vecPacketPool (m_stNetPacketSendCache N) = m_vecPacketPool (m_stNetPacketSendQueue (svr_net S))" by (simp add: n(1) cache)
  have ok: "\<forall>k\<in>set (m_vecPacketPool (m_stNetPacketSendCache N)). packet_ok (svr_memory S1) k \<and> m_ulClientSeq k = q"
    using cache_ok [OF n(2)] all by (simp add: S1_def ks)
  have "le_send_packets clock 0 S1 (m_vecPacketPool (m_stNetPacketSendCache N)) V =
      Some (append_written h (frame_bytes clock 0 (map (packet_view (svr_memory S1)) (m_vecPacketPool (m_stNetPacketSendCache N)))) V)"
    by (rule le_send_packets_frames [OF _ _ q(3) ok h]) (use q in \<open>simp_all add: S1_def\<close>)
  then have "le_send_all clock 0 S1 V = Some (S1\<lparr>svr_net := ?N, svr_memory := P'\<rparr>,
      append_written h (frame_bytes clock 0 (queue_view (svr_memory S) (m_stNetPacketSendQueue (svr_net S)))) V)"
    using r(1,2) by (subst le_send_all.simps) (simp add: S1_def ks)
  then have "le_RecvNetworkCmd clock (net_cmd NETWORK_CMD_REQUEST_SEND_ALL_PACKET) v S V = Some (S1\<lparr>svr_net := ?N, svr_memory := P'\<rparr>,
      append_written h (frame_bytes clock 0 (queue_view (svr_memory S) (m_stNetPacketSendQueue (svr_net S)))) V)"
    using v by (auto simp: le_RecvNetworkCmd_def S1_def N_def)
  then show ?thesis by (rule that) (use r(3) in \<open>simp_all add: outgoing_def n(1)\<close>)
qed

section \<open>A request and its answer\<close>

lemma no_packets:
  assumes "all_packets N = []"
  shows "prompt N" "outgoing N = []" "m_vecPacketPool (m_stNetPacketLogicQueue N) = []" "m_vecPacketPool (m_stNetPacketSendCache N) = []"
    "m_vecPacketPool (m_stNetPacketRecvQueue N) = []" "m_vecPacketPool (m_stNetPacketRecvPrepareQueue N) = []"
  using assms by (simp_all add: all_packets_def all_queues_def prompt_def outgoing_def)

lemma answers_fit:
  assumes "\<forall>v\<in>set vs. is_hello v \<longrightarrow> (\<forall>r. answer_to C v r \<longrightarrow> packet_fits r)" "map (packet_view P) ks = vs"
  shows "\<forall>r\<in>set (replies (cs_reply C) clock i P ks). packet_fits r"
proof
  fix r
  assume "r \<in> set (replies (cs_reply C) clock i P ks)"
  then obtain v where "v \<in> set (filter is_hello (map (packet_view P) ks))" "answer_to C v r"
    using replies_answer [of C P ks clock i] by (metis list_all2_conv_all_nth in_set_conv_nth)
  then have "v \<in> set vs" "is_hello v" "answer_to C v r" using assms(2) by auto
  then show "packet_fits r" using assms(1) by blast
qed

lemma turn_serves:
  assumes "cs_codec C" "accepts_commands W" "net_inv N P L" "prompt N" "m_vecPacketPool (m_stNetPacketLogicQueue N) = []" "outgoing N = []"
    "queue_view P (m_stNetPacketRecvQueue N) = vs" "vs \<noteq> []" "\<forall>v\<in>set vs. is_hello v \<longrightarrow> (\<forall>r. answer_to C v r \<longrightarrow> packet_fits r)"
    "\<forall>v\<in>set vs. fst v = q"
  obtains N' P' W' L' where "ProcessCSNetworkPacket C clock (Some f) N P W = Some (int (length vs), N', P', W')"
    "command_written f (net_cmd NETWORK_CMD_REQUEST_SEND_ALL_PACKET) W'" "net_inv N' P' L'"
    "list_all2 (answer_to C) (filter is_hello vs) (queue_view P' (m_stNetPacketSendQueue N'))"
    "\<forall>k\<in>set (m_vecPacketPool (m_stNetPacketSendQueue N')). m_ulClientSeq k = q"
    "m_stNetPacketSendCache N' = m_stNetPacketSendCache N" "m_vecPacketPool (m_stNetPacketSendPrepareQueue N') = []"
proof -
  let ?ks = "m_vecPacketPool (m_stNetPacketRecvQueue N)"
  have sig: "m_bHasSignal (m_stSignalExec N)" using assms(4,7,8) by (auto simp: prompt_def)
  note fit = answers_fit [OF assms(9,7), of clock 0]
  obtain N' P' W' where t: "ProcessCSNetworkPacket C clock (Some f) N P W = Some (int (length ?ks), N', P', W')"
      "command_written f (net_cmd NETWORK_CMD_REQUEST_SEND_ALL_PACKET) W'" "answered N P (replies (cs_reply C) clock 0 P ?ks) N' P'"
    using cs_logic.turn_replies [OF assms(1-3,5) sig, of clock "\<lambda>i. i > 0 \<and> i mod 1000 = 0" f] fit unfolding ProcessCSNetworkPacket_turn by auto
  have view: "queue_view P' (m_stNetPacketSendQueue N') = replies (cs_reply C) clock 0 P ?ks" using t(3) assms(6) by (simp add: answered_def)
  have "m_ulClientSeq k = q" if "k \<in> set (m_vecPacketPool (m_stNetPacketSendQueue N'))" for k
  proof -
    have "packet_view P' k \<in> set (queue_view P' (m_stNetPacketSendQueue N'))" using that by simp
    then have "fst (packet_view P' k) = q" using replies_client [of P ?ks q C clock 0] assms(7,10) view by simp
    then show ?thesis by (simp add: packet_view_def)
  qed
  moreover have "length vs = length ?ks" using assms(7) by auto
  moreover obtain L' where "net_inv N' P' L'" using t(3) by (auto simp: answered_def)
  ultimately show ?thesis
    using that t replies_answer [of C P ?ks clock 0] view assms(7) by (auto simp: answered_def)
qed

text \<open>
  C1. A request over libevent is answered. Take a server with empty queues and a client whose bufferevent holds any
  sound stretch of stream with at least one complete frame. Reading the bufferevent, one turn of the logic, and the send
  command the turn has written to the pipe together append to the client's bufferevent exactly one frame for each
  \<open>HELLO\<close> among the frames of the stream, in their order: the answer with the id and the content
  of that request, followed by the time stamp. Afterwards all queues are empty again, and the
  invariants hold.
\<close>

theorem request_is_answered:
  assumes "evbuffer_contract bev_read waiting" "cs_codec C" "accepts_commands W" "le_inv S" "all_packets (svr_net S) = []"
    "client_of S f = Some c" "m_pstBufferEvent c = Some h" "bev_input V h = Some inp"
    "frames_of (le_bytes c @ waiting inp) = (fs, rest, 0)" "\<not> stalled rest" "fs \<noteq> []" "m_pstEventBase v \<noteq> None"
    and fit: "\<forall>(pno, body)\<in>set fs. pno = CS_PROTOCOL_MESSAGE_ID_HELLO \<longrightarrow>
      (\<forall>r. answer_to C (le_seq c, f, pno, body) r \<longrightarrow> packet_fits r)"
  shows "\<exists>S1 V1 N2 P2 W2 S3 V3 rs L. OnBufferEventRead bev_read rclock h f S V = Some (S1, V1) \<and>
    ProcessCSNetworkPacket C clock (Some ctrl) (svr_net S1) (svr_memory S1) W = Some (int (length fs), N2, P2, W2) \<and>
    last (w_trace W2) = Sys_Write ctrl (net_cmd NETWORK_CMD_REQUEST_SEND_ALL_PACKET) \<and>
    le_RecvNetworkCmd sclock (net_cmd NETWORK_CMD_REQUEST_SEND_ALL_PACKET) v (S1\<lparr>svr_net := N2, svr_memory := P2\<rparr>) V1 = Some (S3, V3) \<and>
    list_all2 (answer_to C) [(le_seq c, f, pno, body). (pno, body) \<leftarrow> fs, pno = CS_PROTOCOL_MESSAGE_ID_HELLO] rs \<and>
    bev_written V3 h = bev_written V h @ frame_bytes sclock 0 rs \<and>
    net_inv (svr_net S3) (svr_memory S3) L \<and> outgoing (svr_net S3) = [] \<and> m_vecPacketPool (m_stNetPacketSendCache (svr_net S3)) = []"
proof -
  obtain p where p: "m_stClientFdPool (m_stClientPool S) f = Some p" "svr_clients S p = Some c" "m_iClientFd (le_ContextBuffer c) = f"
    using le_inv_client [OF assms(4,6)] by metis
  note empty = no_packets [OF assms(5)]
  have "reading waiting h p c (waiting inp) S V" using assms(4,7,8) p(2) by (simp add: reading_def)
  from read_loop_drains [OF assms(1) this assms(9,10), of rclock 0] obtain S1 V1 where
    run: "read_loop bev_read rclock 0 h p S V = Some (S1, V1)" and out: "le_outcome waiting h p c fs rest 0 S (S1, V1)"
    by auto
  obtain c1 where c1: "reading waiting h p c1 [] S1 V1" "ctx_id (le_ContextBuffer c1) = ctx_id (le_ContextBuffer c)"
    using out by (auto simp: le_outcome_def)
  have S1: "le_inv S1" "svr_clients S1 p = Some c1" "m_pstBufferEvent c1 = Some h" "bev_input V1 h \<noteq> None"
    using c1(1) by (auto simp: reading_def)
  note pr = read_loop_prompt [OF run, unfolded fst_conv snd_conv]
  have keep: "outbound (svr_net S1) = outbound (svr_net S)" "bev_written V1 = bev_written V" "prompt (svr_net S1)"
    using pr empty(1) S1(2) by auto
  define tags where "tags = map (recv_tag (le_ContextBuffer c)) fs"
  have tag: "recv_tag (le_ContextBuffer c) = (\<lambda>(pno, body). (le_seq c, f, pno, body))" using p(3) by (auto simp: recv_tag_def fun_eq_iff)
  have rec: "queue_view (svr_memory S1) (m_stNetPacketRecvQueue (svr_net S1)) = tags"
    using out keep(3) empty by (auto simp: le_outcome_def received_def prompt_def tags_def)
  obtain L1 where L1: "net_inv (svr_net S1) (svr_memory S1) L1" using S1(1) by (auto simp: server_inv_def)
  have q: "m_vecPacketPool (m_stNetPacketLogicQueue (svr_net S1)) = []" "outgoing (svr_net S1) = []"
      "m_vecPacketPool (m_stNetPacketSendCache (svr_net S1)) = []"
    using keep(1) empty by (simp_all add: outbound_def outgoing_def)
  have "tags \<noteq> []" "\<forall>v\<in>set tags. is_hello v \<longrightarrow> (\<forall>r. answer_to C v r \<longrightarrow> packet_fits r)" "\<forall>v\<in>set tags. fst v = le_seq c"
    using assms(11) fit by (auto simp: tags_def tag is_hello_def)
  then obtain N2 P2 W2 L2 where t: "ProcessCSNetworkPacket C clock (Some ctrl) (svr_net S1) (svr_memory S1) W = Some (int (length tags), N2, P2, W2)"
      "command_written ctrl (net_cmd NETWORK_CMD_REQUEST_SEND_ALL_PACKET) W2" "net_inv N2 P2 L2"
      "list_all2 (answer_to C) (filter is_hello tags) (queue_view P2 (m_stNetPacketSendQueue N2))"
      "\<forall>k\<in>set (m_vecPacketPool (m_stNetPacketSendQueue N2)). m_ulClientSeq k = le_seq c"
      "m_stNetPacketSendCache N2 = m_stNetPacketSendCache (svr_net S1)" "m_vecPacketPool (m_stNetPacketSendPrepareQueue N2) = []"
    by (rule turn_serves [OF assms(2,3) L1 keep(3) q(1,2) rec])
  let ?S2 = "S1\<lparr>svr_net := N2, svr_memory := P2\<rparr>"
  have g: "GetClient (le_seq c) (m_stClientPool ?S2) = Some p"
    using registered_seq [of le_fd le_seq "m_stClientPool S1" "svr_clients S1" p c1] S1(1,2) c1(2)
    by (simp add: server_inv_def GetClient_def ctx_id_def)
  obtain S3 L3 where s: "le_RecvNetworkCmd sclock (net_cmd NETWORK_CMD_REQUEST_SEND_ALL_PACKET) v ?S2 V1 = Some (S3,
      append_written h (frame_bytes sclock 0 (queue_view (svr_memory ?S2) (m_stNetPacketSendQueue (svr_net ?S2)))) V1)"
      "net_inv (svr_net S3) (svr_memory S3) L3" "outgoing (svr_net S3) = m_vecPacketPool (m_stNetPacketSendPrepareQueue (svr_net ?S2))"
      "m_vecPacketPool (m_stNetPacketSendCache (svr_net S3)) = []"
    by (rule le_RecvNetworkCmd_sends [of ?S2 L2 "le_seq c" p c1 h V1 v sclock]) (use t g S1 q(3) assms(12) in simp_all)
  have hello: "filter is_hello tags = [(le_seq c, f, pno, body). (pno, body) \<leftarrow> fs, pno = CS_PROTOCOL_MESSAGE_ID_HELLO]"
    unfolding tags_def tag by (induction fs) (auto simp: is_hello_def)
  have "OnBufferEventRead bev_read rclock h f S V = Some (S1, V1)" using run p(1) by (simp add: OnBufferEventRead_def GetClientByFd_def)
  then show ?thesis
    using t s keep(2) hello by (intro exI conjI) (auto simp: command_written_def tags_def)
qed

theorem request_is_answered_witness:
  "\<exists>S1 V1 N2 P2 W2 S3 V3. OnBufferEventRead list_read (\<lambda>_ _. 0) 3 5 le_server
       \<lparr>bev_input = [3 \<mapsto> [0, 7, 0, 1, 9, 9, 9]], bev_written = (\<lambda>_. []), loop_break = False\<rparr> = Some (S1, V1) \<and>
     ProcessCSNetworkPacket echo (\<lambda>_. (0, 0)) (Some 4) (svr_net S1) (svr_memory S1) willing_kernel = Some (1, N2, P2, W2) \<and>
     le_RecvNetworkCmd (\<lambda>_. 0) (net_cmd NETWORK_CMD_REQUEST_SEND_ALL_PACKET) \<lparr>m_pstEventBase = Some 1, m_pstListener = None\<rparr>
       (S1\<lparr>svr_net := N2, svr_memory := P2\<rparr>) V1 = Some (S3, V3) \<and>
     bev_written V3 3 = [0, 15, 0, 1, 9, 9, 9, 0, 0, 0, 0, 0, 0, 0, 0]"
proof -
  let ?V = "\<lparr>bev_input = [3 \<mapsto> [0, 7, 0, 1, 9, 9, 9 :: byte]], bev_written = (\<lambda>_. []), loop_break = False\<rparr>"
  let ?v = "\<lparr>m_pstEventBase = Some 1, m_pstListener = None\<rparr>"
  have con: "evbuffer_contract list_read (\<lambda>d. d)" by (simp add: evbuffer_contract_def list_read_def)
  have none: "all_packets (svr_net le_server) = []"
    by (simp add: le_server_def ServerContext_new_def NetworkContext_new_def all_packets_def all_queues_def)
  have cl: "client_of le_server 5 = Some le_client"
    by (simp add: le_server_def client_of_def GetClientByFd_def AddClient_def map_insert_def ClientContextPool_new_def)
  have fs: "frames_of (le_bytes le_client @ [0, 7, 0, 1, 9, 9, 9]) = ([(1, [9, 9, 9])], [], 0)"
    unfolding le_client_simps(2) by code_simp
  have v: "bev_input ?V 3 = Some [0, 7, 0, 1, 9, 9, 9]" "\<not> stalled []" "[(1, [9, 9, 9])] \<noteq> ([] :: (int \<times> byte list) list)" "m_pstEventBase ?v \<noteq> None"
    by (simp_all add: stalled_def)
  have ans: "answer_to echo (7, 5, 1, [9, 9, 9]) r \<longleftrightarrow> r = (7, 5, 1, [9, 9, 9])" for r
    by (simp add: answer_to_def echo_def CS_PROTOCOL_MESSAGE_ID_HELLO_def Let_def)
  have fit: "\<forall>(pno, body)\<in>set [(1, [9, 9, 9])]. pno = CS_PROTOCOL_MESSAGE_ID_HELLO \<longrightarrow>
      (\<forall>r. answer_to echo (le_seq le_client, 5, pno, body) r \<longrightarrow> packet_fits r)"
    by (simp add: le_client_simps ans packet_fits_def)
  have bytes: "frame_bytes (\<lambda>_. 0) 0 [(7, 5, 1, [9, 9, 9])] = [0, 15, 0, 1, 9, 9, 9, 0, 0, 0, 0, 0, 0, 0, 0]" by code_simp
  have tags: "[(le_seq le_client, 5 :: int, pno, body). (pno, body) \<leftarrow> [(1, [9, 9, 9 :: byte])], pno = CS_PROTOCOL_MESSAGE_ID_HELLO] = [(7, 5, 1, [9, 9, 9])]"
    by (simp add: le_client_simps CS_PROTOCOL_MESSAGE_ID_HELLO_def)
  obtain S1 V1 N2 P2 W2 S3 V3 rs where "OnBufferEventRead list_read (\<lambda>_ _. 0) 3 5 le_server ?V = Some (S1, V1)"
      "ProcessCSNetworkPacket echo (\<lambda>_. (0, 0)) (Some 4) (svr_net S1) (svr_memory S1) willing_kernel = Some (int (length [(1 :: int, [9, 9, 9 :: byte])]), N2, P2, W2)"
      "le_RecvNetworkCmd (\<lambda>_. 0) (net_cmd NETWORK_CMD_REQUEST_SEND_ALL_PACKET) ?v (S1\<lparr>svr_net := N2, svr_memory := P2\<rparr>) V1 = Some (S3, V3)"
      "list_all2 (answer_to echo) [(7, 5, 1, [9, 9, 9])] rs" "bev_written V3 3 = bev_written ?V 3 @ frame_bytes (\<lambda>_. 0) 0 rs"
    using request_is_answered [OF con echo_codec willing_kernel_accepts le_server_inv none cl le_client_simps(5) v(1) fs v(2-4) fit,
        of "\<lambda>_ _. 0" "\<lambda>_. (0, 0)" 4 "\<lambda>_. 0", unfolded tags] by blast
  moreover from this(4) have "rs = [(7, 5, 1, [9, 9, 9])]" by (auto simp: list_all2_Cons1 ans)
  ultimately show ?thesis using bytes by auto
qed



end
