(* ===== verification/Spec2Isabelle.thy ===== *)
theory Spec2Isabelle
  imports Buffer_Log Game_Timer Network Uuid Socket_Session Socket_Pipe Socket_Table Concurrency Libevent_Server Config Hand_Over Game_Logic
begin

text \<open>
  Verification of the game server.

  The program is a single-process game server: a network layer that frames client packets, a
  hierarchical timer wheel that drives the game logic, and a logger that decouples the logic
  thread from the disk by a ring buffer.
\<close>

end
